(* ===== verification/Prelude.thy ===== *)
theory Prelude
  imports Main "HOL-Library.Word"
begin

text \<open>
  Types and generic facts shared by the components: machine words under their C names, the
  kernel memory as a function on 8-byte cells, page arithmetic, and the effect of the
  counting loops that fill an array range.
\<close>

unbundle bit_operations_syntax

named_theorems page_simps \<open>rewriting of page addresses and page indices\<close>

subsection \<open>Machine types\<close>

type_synonym u8 = "8 word"
type_synonym u32 = "32 word"
type_synonym u64 = "64 word"

text \<open>
  Kernel memory. Every pointer, list node and page-table entry of the kernel is an aligned
  8-byte object, so memory is a function from the address of such a cell to its content.
\<close>

type_synonym mem = "u64 \<Rightarrow> u64"

abbreviation NULL :: u64 where "NULL \<equiv> 0"

abbreviation PAGE_SIZE :: u64 where "PAGE_SIZE \<equiv> 4096"

subsection \<open>Counting loops over arrays\<close>

text \<open>\<open>for (i = lo; i < hi; i++) a[base + i] = v;\<close>\<close>

definition fill :: "nat \<Rightarrow> nat \<Rightarrow> nat \<Rightarrow> 'a \<Rightarrow> (nat \<Rightarrow> 'a) \<Rightarrow> (nat \<Rightarrow> 'a)" where
  "fill base lo hi v a = fold (\<lambda>i a. a(base + i := v)) [lo..<hi] a"

lemma fold_upd_apply:
  "fold (\<lambda>i a. a(base + i := v)) is a j = (if \<exists>i\<in>set is. j = base + i then v else a j)"
  by (induction "is" arbitrary: a) auto

lemma fill_apply: "fill base lo hi v a j = (if base + lo \<le> j \<and> j < base + hi then v else a j)"
proof -
  have "(\<exists>i\<in>set [lo..<hi]. j = base + i) \<longleftrightarrow> base + lo \<le> j \<and> j < base + hi"
    by (auto intro!: bexI [of _ "j - base"])
  then show ?thesis by (simp add: fill_def fold_upd_apply)
qed

subsection \<open>Word arithmetic without wrap-around\<close>

lemma unat_of_nat_small: "n < 2 ^ 64 \<Longrightarrow> unat (of_nat n :: u64) = n"
  by (simp add: unat_of_nat take_bit_nat_eq_self)

lemma of_nat_u64_inj: "m < 2 ^ 64 \<Longrightarrow> n < 2 ^ 64 \<Longrightarrow> (of_nat m :: u64) = of_nat n \<longleftrightarrow> m = n"
  by (metis unat_of_nat_small)

lemma unat_add_nowrap: "unat (a::u64) + unat b < 2 ^ 64 \<Longrightarrow> unat (a + b) = unat a + unat b"
  by (simp add: unat_word_ariths)

lemma unat_u64_bound: "unat (w::u64) < 2 ^ 64"
  using unsigned_less [of w, where 'a = nat] by simp

lemma pages_apart: "(i::nat) \<noteq> j \<Longrightarrow> i * 4096 + 4096 \<le> j * 4096 \<or> j * 4096 + 4096 \<le> i * 4096"
  by linarith

lemma dvd_next_le: "(d :: nat) dvd n \<Longrightarrow> d dvd m \<Longrightarrow> n < m \<Longrightarrow> n + d \<le> m"
  by (metis add_le_cancel_left dvd_diff_nat dvd_imp_le le_add_diff_inverse less_imp_le zero_less_diff)

lemma less_10_cases:
  "(n :: nat) < 10 \<Longrightarrow> n = 0 \<or> n = 1 \<or> n = 2 \<or> n = 3 \<or> n = 4 \<or> n = 5 \<or> n = 6 \<or> n = 7 \<or> n = 8 \<or> n = 9"
  by presburger

lemma less_16_cases:
  "(n :: nat) < 16 \<Longrightarrow> n < 10 \<or> n = 10 \<or> n = 11 \<or> n = 12 \<or> n = 13 \<or> n = 14 \<or> n = 15"
  by presburger

subsection \<open>Lists\<close>

lemma map_remove1_inj:
  "inj_on f (set xs) \<Longrightarrow> x \<in> set xs \<Longrightarrow> map f (remove1 x xs) = remove1 (f x) (map f xs)"
  by (induction xs) (auto simp: inj_on_def)

subsection \<open>The interrupt-enable bit\<close>

text \<open>
  Every critical section of the kernel reads \<^verbatim>\<open>sstatus\<close> while clearing its SIE bit
  (\<^verbatim>\<open>csrrci saved, sstatus, 2\<close>) and later sets the bit again if it was set before
  (\<^verbatim>\<open>csrs sstatus, saved & 2\<close>). The state of each component extends \<open>cpu_state\<close>.
\<close>

record cpu_state =
  sie :: bool

definition csrrci :: "'a cpu_state_scheme \<Rightarrow> bool \<times> 'a cpu_state_scheme" where
  "csrrci s = (sie s, s\<lparr>sie := False\<rparr>)"

definition csrs :: "bool \<Rightarrow> 'a cpu_state_scheme \<Rightarrow> 'a cpu_state_scheme" where
  "csrs saved s = s\<lparr>sie := sie s \<or> saved\<rparr>"

lemmas irq_defs = csrrci_def csrs_def

end
