(* ===== verification/List_Head.thy ===== *)
theory List_Head
  imports Prelude
begin

text \<open>
  The intrusive circular doubly-linked list of \<^verbatim>\<open>kernel/include/list.h\<close>. A node is the address
  of a \<^verbatim>\<open>struct list_head\<close>: its \<^verbatim>\<open>prev\<close> field is the cell at that address and its \<^verbatim>\<open>next\<close> field
  the following cell. The operations write memory exactly as the C code does, in its order;
  \<open>clist\<close> relates the memory to the HOL list of nodes, and every operation is shown to
  implement the list operation it stands for and to leave all other cells alone.
\<close>

subsection \<open>Operations\<close>

definition lh_prev :: "mem \<Rightarrow> u64 \<Rightarrow> u64" where "lh_prev m p = m p"
definition lh_next :: "mem \<Rightarrow> u64 \<Rightarrow> u64" where "lh_next m p = m (p + 8)"
definition set_prev :: "u64 \<Rightarrow> u64 \<Rightarrow> mem \<Rightarrow> mem" where "set_prev p v m = m(p := v)"
definition set_next :: "u64 \<Rightarrow> u64 \<Rightarrow> mem \<Rightarrow> mem" where "set_next p v m = m(p + 8 := v)"

definition INIT_LIST_HEAD :: "u64 \<Rightarrow> mem \<Rightarrow> mem" where
  "INIT_LIST_HEAD head m = set_prev head head (set_next head head m)"

definition list_add_between :: "u64 \<Rightarrow> u64 \<Rightarrow> u64 \<Rightarrow> mem \<Rightarrow> mem" where
  "list_add_between node prev nxt m =
     (let m1 = set_prev nxt node m;
          m2 = set_next node nxt m1;
          m3 = set_prev node prev m2
      in set_next prev node m3)"

definition list_del_between :: "u64 \<Rightarrow> u64 \<Rightarrow> mem \<Rightarrow> mem" where
  "list_del_between prev nxt m =
     (let m1 = set_prev nxt prev m in set_next prev nxt m1)"

definition list_add :: "u64 \<Rightarrow> u64 \<Rightarrow> mem \<Rightarrow> mem" where
  "list_add node head m = list_add_between node head (lh_next m head) m"

definition list_add_tail :: "u64 \<Rightarrow> u64 \<Rightarrow> mem \<Rightarrow> mem" where
  "list_add_tail node head m = list_add_between node (lh_prev m head) head m"

definition list_del :: "u64 \<Rightarrow> mem \<Rightarrow> mem" where
  "list_del node m =
     (let m1 = list_del_between (lh_prev m node) (lh_next m node) m;
          m2 = set_next node node m1
      in set_prev node node m2)"

definition list_empty :: "u64 \<Rightarrow> mem \<Rightarrow> bool" where
  "list_empty head m \<longleftrightarrow> lh_next m head = head"

text \<open>
  The nodes \<^verbatim>\<open>list_for_each\<close> visits, in order. The fuel bounds the number of nodes;
  \<^verbatim>\<open>None\<close> says that it did not get back to the head.
\<close>

fun list_for_each_from :: "nat \<Rightarrow> mem \<Rightarrow> u64 \<Rightarrow> u64 \<Rightarrow> u64 list option" where
  "list_for_each_from 0 m head pos = (if pos = head then Some [] else None)"
| "list_for_each_from (Suc n) m head pos =
     (if pos = head then Some []
      else map_option ((#) pos) (list_for_each_from n m head (lh_next m pos)))"

definition list_for_each :: "nat \<Rightarrow> mem \<Rightarrow> u64 \<Rightarrow> u64 list option" where
  "list_for_each n m head = list_for_each_from n m head (lh_next m head)"

lemmas list_head_ops =
  lh_prev_def lh_next_def set_prev_def set_next_def INIT_LIST_HEAD_def
  list_add_between_def list_del_between_def list_add_def list_add_tail_def list_del_def Let_def

subsection \<open>What the memory means\<close>

text \<open>Two nodes whose cells do not overlap.\<close>

definition sep :: "u64 \<Rightarrow> u64 \<Rightarrow> bool" where
  "sep p q \<longleftrightarrow> p \<noteq> q \<and> p + 8 \<noteq> q \<and> p \<noteq> q + 8"

lemma sep_sym: "sep p q \<Longrightarrow> sep q p"
  by (auto simp: sep_def)

text \<open>Consecutive nodes point to each other.\<close>

fun links :: "mem \<Rightarrow> u64 list \<Rightarrow> bool" where
  "links m (x # y # zs) \<longleftrightarrow> m (x + 8) = y \<and> m y = x \<and> links m (y # zs)"
| "links m _ \<longleftrightarrow> True"

definition clist :: "mem \<Rightarrow> u64 \<Rightarrow> u64 list \<Rightarrow> bool" where
  "clist m h xs \<longleftrightarrow> sorted_wrt sep (h # xs) \<and> links m (h # xs @ [h])"

definition cells :: "u64 \<Rightarrow> u64 set" where
  "cells p = {p, p + 8}"

lemma links_append: "links m (xs @ y # ys) \<longleftrightarrow> links m (xs @ [y]) \<and> links m (y # ys)"
proof (induction xs rule: induct_list012)
  case (3 a b zs)
  then show ?case by simp
qed (cases ys; simp)+

lemma links_Cons: "links m (x # ys) \<longleftrightarrow>
    (ys = [] \<or> (m (x + 8) = hd ys \<and> m (hd ys) = x \<and> links m ys))"
  by (cases ys) auto

lemma links_snoc: "links m (xs @ [y]) \<longleftrightarrow>
    (xs = [] \<or> (m (last xs + 8) = y \<and> m y = last xs \<and> links m xs))"
proof (cases xs rule: rev_cases)
  case (snoc as u)
  then show ?thesis using links_append [of m as u "[y]"] by auto
qed simp

text \<open>Only the \<^verbatim>\<open>next\<close> fields before the last and the \<^verbatim>\<open>prev\<close> fields after the first are read.\<close>

lemma links_cong:
  assumes "\<And>q. q \<in> set (butlast zs) \<Longrightarrow> m' (q + 8) = m (q + 8)"
    and "\<And>q. q \<in> set (tl zs) \<Longrightarrow> m' q = m q"
  shows "links m' zs = links m zs"
  using assms by (induction zs rule: induct_list012) (auto simp: links_Cons)



text \<open>Frame: a list only depends on the cells of its own nodes.\<close>

lemma clist_frame:
  assumes "\<And>c. c \<in> (\<Union>q\<in>set (h # xs). cells q) \<Longrightarrow> m' c = m c"
  shows "clist m' h xs = clist m h xs"
proof -
  have "links m' (h # xs @ [h]) = links m (h # xs @ [h])"
    by (rule links_cong) (auto intro!: assms simp: cells_def dest!: in_set_butlastD)
  then show ?thesis by (simp add: clist_def)
qed

subsection \<open>Initialisation and the empty test\<close>

lemma clist_init: "clist (INIT_LIST_HEAD h m) h []"
  by (simp add: clist_def list_head_ops)

lemma init_frame: "c \<notin> cells h \<Longrightarrow> INIT_LIST_HEAD h m c = m c"
  by (auto simp: list_head_ops cells_def)

lemma list_empty_iff: "clist m h xs \<Longrightarrow> list_empty h m \<longleftrightarrow> xs = []"
  by (cases xs) (auto simp: clist_def list_empty_def lh_next_def sep_def)

lemma clist_first: "clist m h (x # xs) \<Longrightarrow> lh_next m h = x"
  by (simp add: clist_def lh_next_def)

subsection \<open>Insertion\<close>

text \<open>
  Linking a node between two neighbours, wherever they stand in the list: \<open>us @ [u]\<close> are
  the nodes up to \<open>u\<close>, \<open>v # vs\<close> those from \<open>v\<close> on.
\<close>

lemma links_insert:
  assumes L: "links m (us @ [u] @ [v] @ vs)"
    and n: "\<And>q. q \<in> set (us @ [u] @ [v] @ vs) \<Longrightarrow> sep n q"
    and s1: "\<And>q. q \<in> set us \<Longrightarrow> q \<noteq> u" and s2: "\<And>q. q \<in> set vs \<Longrightarrow> q \<noteq> v"
    and s3: "\<And>p q. p \<in> set (us @ [u] @ [v] @ vs) \<Longrightarrow> q \<in> set (us @ [u] @ [v] @ vs) \<Longrightarrow> p + 8 \<noteq> q"
    and s4: "v \<notin> set (tl (us @ [u]))" and s5: "u \<notin> set (butlast (v # vs))"
  shows "links (list_add_between n u v m) (us @ [u] @ [n] @ [v] @ vs)"
proof -
  let ?m = "list_add_between n u v m"
  have m': "?m = m(v := n, n + 8 := v, n := u, u + 8 := n)"
    by (simp add: list_head_ops)
  have sp: "u + 8 \<noteq> v" "v + 8 \<noteq> u" "sep n u" "sep n v" using s3 n by auto
  have "links m (us @ [u])" "links m (v # vs)"
    using L links_append [of m us u "v # vs"] by (auto simp: links_Cons)
  moreover have "links ?m (us @ [u]) = links m (us @ [u])"
  proof (rule links_cong)
    fix q assume "q \<in> set (butlast (us @ [u]))"
    then have q: "q \<in> set us" by simp
    then have "sep n q" "q \<noteq> u" "q + 8 \<noteq> v" using n s1 s3 by auto
    then show "?m (q + 8) = m (q + 8)" by (auto simp: m' sep_def)
  next
    fix q assume q: "q \<in> set (tl (us @ [u]))"
    then have "q \<in> set (us @ [u])" by (auto dest: list.set_sel(2) [rotated])
    then have "sep n q" "u + 8 \<noteq> q" using n s3 by auto
    moreover have "q \<noteq> v" using q s4 by auto
    ultimately show "?m q = m q" by (auto simp: m' sep_def)
  qed
  moreover have "links ?m (v # vs) = links m (v # vs)"
  proof (rule links_cong)
    fix q assume q: "q \<in> set (butlast (v # vs))"
    then have "q \<in> set (v # vs)" by (rule in_set_butlastD)
    then have "sep n q" "q + 8 \<noteq> v" using n s3 by auto
    moreover have "q \<noteq> u" using q s5 by auto
    ultimately show "?m (q + 8) = m (q + 8)" by (auto simp: m' sep_def)
  next
    fix q assume "q \<in> set (tl (v # vs))"
    then have "q \<in> set vs" by simp
    then have "sep n q" "q \<noteq> v" "u + 8 \<noteq> q" using n s2 s3 by auto
    then show "?m q = m q" by (auto simp: m' sep_def)
  qed
  moreover have "?m (u + 8) = n" "?m n = u" "?m (n + 8) = v" "?m v = n"
    using sp by (auto simp: m' sep_def)
  ultimately show ?thesis
    using links_append [of ?m us u "n # v # vs"] by simp
qed

lemma sep_all:
  assumes "sorted_wrt sep xs"
  shows "p \<in> set xs \<Longrightarrow> q \<in> set xs \<Longrightarrow> p + 8 \<noteq> q" "distinct xs"
proof -
  have "p + 8 \<noteq> q" if "p \<in> set xs" "q \<in> set xs" for p q
  proof (cases "p = q")
    case False
    with that assms have "sep p q \<or> sep q p"
      by (induction xs) auto
    then show ?thesis by (auto simp: sep_def)
  qed simp
  then show "p \<in> set xs \<Longrightarrow> q \<in> set xs \<Longrightarrow> p + 8 \<noteq> q" by blast
  show "distinct xs" using assms by (induction xs) (auto simp: sep_def)
qed

lemma clist_all:
  assumes "clist m h xs"
  shows "distinct (h # xs)" "\<And>p q. p \<in> set (h # xs) \<Longrightarrow> q \<in> set (h # xs) \<Longrightarrow> p + 8 \<noteq> q"
proof -
  from assms have s: "sorted_wrt sep (h # xs)" by (simp only: clist_def)
  show "distinct (h # xs)" by (rule sep_all(2) [OF s])
  show "p + 8 \<noteq> q" if "p \<in> set (h # xs)" "q \<in> set (h # xs)" for p q
    by (rule sep_all(1) [OF s that])
qed

text \<open>The ring of nodes, cut open before the head or behind it.\<close>

lemma ring_front: "\<exists>v vs. xs @ [h] = v # vs \<and> set (v # vs) = set (h # xs)"
  by (cases xs) auto

lemma ring_back: "\<exists>us u. h # xs = us @ [u]"
  by (cases "h # xs" rule: rev_cases) auto

lemma ring_cut: "h # xs = us @ [u] \<Longrightarrow> h # xs @ zs = us @ [u] @ zs"
  by (metis append_Cons append_assoc)

text \<open>\<open>list_add\<close> puts the node in front of the list, \<open>list_add_tail\<close> behind it.\<close>

lemma list_add_clist:
  assumes c: "clist m h xs" and n: "\<And>q. q \<in> set (h # xs) \<Longrightarrow> sep n q"
  shows "clist (list_add n h m) h (n # xs)"
proof -
  note a = clist_all [OF c]
  obtain v vs where v: "xs @ [h] = v # vs" "set (v # vs) = set (h # xs)"
    using ring_front [of xs h] by blast
  have L: "links m (h # v # vs)" using c v by (simp add: clist_def)
  then have next_h: "lh_next m h = v" by (simp add: lh_next_def)
  have dv: "distinct (v # vs)" unfolding v(1) [symmetric] using a(1) by auto
  have bv: "butlast (v # vs) = xs" unfolding v(1) [symmetric] by simp
  have "links (list_add_between n h v m) ([] @ [h] @ [n] @ [v] @ vs)"
  proof (rule links_insert)
    show "links m ([] @ [h] @ [v] @ vs)" using L by simp
    show "h \<notin> set (butlast (v # vs))" unfolding bv using a(1) by simp
    show "q \<noteq> v" if "q \<in> set vs" for q using dv that by auto
    show "sep n q" if "q \<in> set ([] @ [h] @ [v] @ vs)" for q
      using that v(2) by (intro n) auto
    show "p + 8 \<noteq> q" if "p \<in> set ([] @ [h] @ [v] @ vs)" "q \<in> set ([] @ [h] @ [v] @ vs)" for p q
      using that v(2) by (intro a(2)) auto
  qed simp_all
  then have "links (list_add n h m) (h # (n # xs) @ [h])"
    using v(1) by (simp add: list_add_def next_h)
  moreover have "sorted_wrt sep (h # n # xs)"
    using c n sep_sym by (auto simp: clist_def)
  ultimately show ?thesis by (simp add: clist_def)
qed

lemma list_add_tail_clist:
  assumes c: "clist m h xs" and n: "\<And>q. q \<in> set (h # xs) \<Longrightarrow> sep n q"
  shows "clist (list_add_tail n h m) h (xs @ [n])"
proof -
  note a = clist_all [OF c]
  obtain us u where u: "h # xs = us @ [u]" using ring_back [of h xs] by blast
  have su: "set (us @ [u]) = set (h # xs)" by (simp only: u)
  have L: "links m (us @ [u] @ [h])"
    using c ring_cut [OF u, of "[h]"] by (simp add: clist_def)
  then have prev_h: "lh_prev m h = u"
    using links_append [of m us u "[h]"] by (simp add: lh_prev_def)
  have du: "distinct (us @ [u])" using a(1) u by metis
  have tu: "tl (us @ [u]) = xs" using u by (metis list.sel(3))
  have "links (list_add_between n u h m) (us @ [u] @ [n] @ [h] @ [])"
  proof (rule links_insert)
    show "links m (us @ [u] @ [h] @ [])" using L by simp
    show "h \<notin> set (tl (us @ [u]))" unfolding tu using a(1) by simp
    show "q \<noteq> u" if "q \<in> set us" for q using du that by auto
    show "sep n q" if "q \<in> set (us @ [u] @ [h] @ [])" for q
      using that su by (intro n) auto
    show "p + 8 \<noteq> q" if "p \<in> set (us @ [u] @ [h] @ [])" "q \<in> set (us @ [u] @ [h] @ [])" for p q
      using that su by (intro a(2)) auto
  qed simp_all
  moreover have "us @ [u] @ [n] @ [h] @ [] = h # (xs @ [n]) @ [h]" using ring_cut [OF u, of "[n, h]"] by simp
  ultimately have "links (list_add_tail n h m) (h # (xs @ [n]) @ [h])"
    unfolding list_add_tail_def prev_h by metis
  moreover have "sorted_wrt sep (h # xs @ [n])"
    using c n sep_sym by (auto simp: clist_def sorted_wrt_append)
  ultimately show ?thesis by (simp add: clist_def)
qed

lemma list_add_frame:
  assumes "clist m h xs" and "c \<notin> cells n" "c \<notin> (\<Union>q\<in>set (h # xs). cells q)"
  shows "list_add n h m c = m c"
proof -
  have "m (h + 8) \<in> set (h # xs)"
    using assms(1) by (cases xs) (auto simp: clist_def)
  then show ?thesis
    using assms(2,3) by (auto simp: list_head_ops cells_def)
qed

subsection \<open>Removal\<close>

lemma links_remove:
  assumes L: "links m (us @ [u] @ [n] @ [v] @ vs)"
    and n: "\<And>q. q \<in> set (us @ [u] @ [v] @ vs) \<Longrightarrow> sep n q"
    and s1: "\<And>q. q \<in> set us \<Longrightarrow> q \<noteq> u" and s2: "\<And>q. q \<in> set vs \<Longrightarrow> q \<noteq> v"
    and s3: "\<And>p q. p \<in> set (us @ [u] @ [v] @ vs) \<Longrightarrow> q \<in> set (us @ [u] @ [v] @ vs) \<Longrightarrow> p + 8 \<noteq> q"
    and s4: "v \<notin> set (tl (us @ [u]))" and s5: "u \<notin> set (butlast (v # vs))"
  shows "links (list_del n m) (us @ [u] @ [v] @ vs)"
proof -
  let ?m = "list_del n m"
  have sp: "u + 8 \<noteq> v" "v + 8 \<noteq> u" "sep n u" "sep n v" using s3 n by auto
  have parts: "links m (us @ [u])" "m n = u" "m (n + 8) = v" "links m (v # vs)"
    using L links_append [of m us u "n # v # vs"] by auto
  then have m': "?m = m(v := u, u + 8 := v, n + 8 := n, n := n)"
    using sp by (simp add: list_head_ops)
  have "links ?m (us @ [u]) = links m (us @ [u])"
  proof (rule links_cong)
    fix q assume "q \<in> set (butlast (us @ [u]))"
    then have q: "q \<in> set us" by simp
    then have "sep n q" "q \<noteq> u" "q + 8 \<noteq> v" using n s1 s3 by auto
    then show "?m (q + 8) = m (q + 8)" by (auto simp: m' sep_def)
  next
    fix q assume q: "q \<in> set (tl (us @ [u]))"
    then have "q \<in> set (us @ [u])" by (auto dest: list.set_sel(2) [rotated])
    then have "sep n q" "u + 8 \<noteq> q" using n s3 by auto
    moreover have "q \<noteq> v" using q s4 by auto
    ultimately show "?m q = m q" by (auto simp: m' sep_def)
  qed
  moreover have "links ?m (v # vs) = links m (v # vs)"
  proof (rule links_cong)
    fix q assume q: "q \<in> set (butlast (v # vs))"
    then have "q \<in> set (v # vs)" by (rule in_set_butlastD)
    then have "sep n q" "q + 8 \<noteq> v" using n s3 by auto
    moreover have "q \<noteq> u" using q s5 by auto
    ultimately show "?m (q + 8) = m (q + 8)" by (auto simp: m' sep_def)
  next
    fix q assume "q \<in> set (tl (v # vs))"
    then have "q \<in> set vs" by simp
    then have "sep n q" "q \<noteq> v" "u + 8 \<noteq> q" using n s2 s3 by auto
    then show "?m q = m q" by (auto simp: m' sep_def)
  qed
  moreover have "?m (u + 8) = v" "?m v = u"
    using sp by (auto simp: m' sep_def)
  ultimately show ?thesis
    using parts links_append [of ?m us u "v # vs"] by simp
qed

lemma list_del_clist:
  assumes c: "clist m h (xs @ n # ys)"
  shows "clist (list_del n m) h (xs @ ys)"
proof -
  note a = clist_all [OF c]
  obtain us u where u: "h # xs = us @ [u]" using ring_back [of h xs] by blast
  obtain v vs where v: "ys @ [h] = v # vs" "set (v # vs) = set (h # ys)"
    using ring_front [of ys h] by blast
  have su: "set (us @ [u]) = set (h # xs)" by (simp only: u)
  have sep_n: "sep n q" if "q \<in> set (h # xs @ ys)" for q
    using c that sep_sym by (auto simp: clist_def sorted_wrt_append)
  have du: "distinct (us @ [u])" unfolding u [symmetric] using a(1) by simp
  have dv: "distinct (v # vs)" unfolding v(1) [symmetric] using a(1) by auto
  have tu: "tl (us @ [u]) = xs" using u by (metis list.sel(3))
  have bv: "butlast (v # vs) = ys" unfolding v(1) [symmetric] by simp
  have all: "set (us @ [u] @ [v] @ vs) \<subseteq> set (h # xs @ n # ys)" using su v(2) by auto
  have "links m (h # xs @ n # ys @ [h])" using c by (simp add: clist_def)
  then have L: "links m (us @ [u] @ [n] @ [v] @ vs)" by (simp only: ring_cut [OF u] v(1) append.simps)
  have "links (list_del n m) (us @ [u] @ [v] @ vs)"
  proof (rule links_remove)
    show "links m (us @ [u] @ [n] @ [v] @ vs)" by (rule L)
    show "sep n q" if "q \<in> set (us @ [u] @ [v] @ vs)" for q
      using that su v(2) by (intro sep_n) auto
    show "q \<noteq> u" if "q \<in> set us" for q using du that by auto
    show "q \<noteq> v" if "q \<in> set vs" for q using dv that by auto
    show "v \<notin> set (tl (us @ [u]))" unfolding tu using a(1) v by (cases ys) auto
    show "u \<notin> set (butlast (v # vs))" unfolding bv using a(1) su by auto
    show "p + 8 \<noteq> q" if "p \<in> set (us @ [u] @ [v] @ vs)" "q \<in> set (us @ [u] @ [v] @ vs)" for p q
      using that all by (intro a(2)) auto
  qed
  then have "links (list_del n m) (h # xs @ ys @ [h])"
    by (simp only: ring_cut [OF u] v(1) append.simps)
  moreover have "sorted_wrt sep (h # xs @ ys)"
    using c by (auto simp: clist_def sorted_wrt_append)
  ultimately show ?thesis by (simp add: clist_def)
qed

lemma list_del_frame:
  assumes "clist m h xs" "n \<in> set xs" "c \<notin> (\<Union>q\<in>set (h # xs). cells q)"
  shows "list_del n m c = m c"
proof -
  obtain ys zs where xs: "xs = ys @ n # zs" using assms(2) by (meson split_list)
  obtain us u where u: "h # ys = us @ [u]" using ring_back [of h ys] by blast
  obtain v vs where v: "zs @ [h] = v # vs" "set (v # vs) = set (h # zs)"
    using ring_front [of zs h] by blast
  have "links m (h # ys @ n # zs @ [h])" using assms(1) by (simp add: clist_def xs)
  then have "links m (us @ [u] @ [n] @ [v] @ vs)" by (simp only: ring_cut [OF u] v(1) append.simps)
  then have "m n = u" "m (n + 8) = v"
    using links_append [of m us u "n # v # vs"] by auto
  moreover have "set (us @ [u]) = set (h # ys)" by (simp only: u)
  then have "u \<in> set (h # xs)" "v \<in> set (h # xs)"
    using v(2) by (auto simp: xs)
  ultimately show ?thesis
    using assms(2,3) by (auto simp: list_head_ops cells_def)
qed

subsection \<open>Several lists in one memory\<close>

lemma sep_cells: "sep p q \<Longrightarrow> c \<in> cells p \<Longrightarrow> c \<notin> cells q"
  by (auto simp: sep_def cells_def)

text \<open>A fresh node initialised and put in front: what \<open>block_push\<close> does to its list.\<close>

lemma clist_push:
  assumes "clist m h xs" and "\<And>q. q \<in> set (h # xs) \<Longrightarrow> sep n q"
  shows "clist (list_add n h (INIT_LIST_HEAD n m)) h (n # xs)"
proof (rule list_add_clist)
  show "clist (INIT_LIST_HEAD n m) h xs"
    using assms sep_cells by (subst clist_frame [of h xs _ m]) (auto intro!: init_frame)
qed (use assms in auto)

lemma push_frame:
  assumes "clist m h xs" and "\<And>q. q \<in> set (h # xs) \<Longrightarrow> sep n q"
    and "c \<notin> cells n" "c \<notin> (\<Union>q\<in>set (h # xs). cells q)"
  shows "list_add n h (INIT_LIST_HEAD n m) c = m c"
proof -
  have "clist (INIT_LIST_HEAD n m) h xs"
    using assms(1,2) sep_cells by (subst clist_frame [of h xs _ m]) (auto intro!: init_frame)
  then show ?thesis
    using assms(3,4) by (simp add: list_add_frame init_frame)
qed

text \<open>Lists whose nodes lie apart do not disturb each other.\<close>

lemma clist_push_other:
  assumes "clist m h xs" "clist m h' ys"
    and "\<And>q. q \<in> set (h # xs) \<Longrightarrow> sep n q"
    and "\<And>p q. p \<in> set (n # h # xs) \<Longrightarrow> q \<in> set (h' # ys) \<Longrightarrow> sep p q"
  shows "clist (list_add n h (INIT_LIST_HEAD n m)) h' ys"
proof -
  have "list_add n h (INIT_LIST_HEAD n m) c = m c" if "c \<in> (\<Union>q\<in>set (h' # ys). cells q)" for c
    using that assms(4) sep_cells by (intro push_frame [OF assms(1,3)]) fastforce+
  then show ?thesis using assms(2) clist_frame by blast
qed

lemma clist_del_other:
  assumes "clist m h xs" "n \<in> set xs" "clist m h' ys"
    and "\<And>p q. p \<in> set (h # xs) \<Longrightarrow> q \<in> set (h' # ys) \<Longrightarrow> sep p q"
  shows "clist (list_del n m) h' ys"
proof -
  have "list_del n m c = m c" if "c \<in> (\<Union>q\<in>set (h' # ys). cells q)" for c
    using that assms(4) sep_cells by (intro list_del_frame [OF assms(1,2)]) fastforce
  then show ?thesis using assms(3) clist_frame by blast
qed

lemma clist_remove1:
  assumes "clist m h xs" "n \<in> set xs"
  shows "clist (list_del n m) h (remove1 n xs)"
proof -
  obtain ys zs where xs: "xs = ys @ n # zs" "n \<notin> set ys" using assms(2) by (meson split_list_first)
  then show ?thesis using list_del_clist [of m h ys n zs] assms(1) by (simp add: remove1_append)
qed

subsection \<open>Traversal\<close>

lemma list_for_each_from_links:
  "links m (p # xs @ [h]) \<Longrightarrow> h \<notin> set xs \<Longrightarrow> length xs \<le> n \<Longrightarrow>
    list_for_each_from n m h (m (p + 8)) = Some xs"
proof (induction xs arbitrary: p n)
  case Nil
  then show ?case by (cases n) auto
next
  case (Cons x xs)
  then obtain n' where "n = Suc n'" by (cases n) auto
  with Cons show ?case by (auto simp: lh_next_def)
qed

lemma list_for_each_clist:
  "clist m h xs \<Longrightarrow> length xs \<le> n \<Longrightarrow> list_for_each n m h = Some xs"
  using clist_all(1) [of m h xs]
  by (auto simp: list_for_each_def lh_next_def clist_def intro!: list_for_each_from_links)

end
