(* ===== verification/Buddy.thy ===== *)
theory Buddy
  imports List_Head
begin

text \<open>
  The page-frame allocator \<^verbatim>\<open>kernel/src/buddy.c\<close>: its state and operations. Frame indices are
  natural numbers (an index is below \<^verbatim>\<open>buddy_total_pages\<close>, at most \<open>2 ^ 52\<close>, so the code's
  \<^verbatim>\<open>unsigned long\<close> index arithmetic does not wrap); addresses and sizes are 64-bit words, and
  their arithmetic wraps as the code's does. The free lists live in memory: a head is an
  element of the static array \<^verbatim>\<open>free_list\<close>, a node the first 16 bytes of a free page.
  Console output is not modelled.
\<close>

subsection \<open>State\<close>

record mem_region =
  rg_start :: u64
  rg_end :: u64

record buddy_state = cpu_state +
  mem :: mem
  buddy_base_addr :: u64
  buddy_end_addr :: u64
  buddy_total_pages :: nat
  frame_array :: "nat \<Rightarrow> int"
  ref_count :: "nat \<Rightarrow> int"
  frame_array_ptr :: u64
  ref_count_ptr :: u64
  free_list :: u64
  reserved_regions :: "mem_region list"

definition MAX_ORDER :: nat where "MAX_ORDER = 16"
definition MAX_RESERVED_REGIONS :: nat where "MAX_RESERVED_REGIONS = 32"
definition FRAME_FREE_PART :: int where "FRAME_FREE_PART = - 1"

text \<open>
  The tag of an allocated frame: an \<^verbatim>\<open>unsigned long\<close> expression cast to \<^verbatim>\<open>int\<close>.
\<close>

definition ALLOC_TAG :: "nat \<Rightarrow> nat \<Rightarrow> int" where
  "ALLOC_TAG idx order =
     signed_take_bit 31 (push_bit 30 1 OR push_bit 8 (int idx) OR int order)"

definition GET_ALLOC_ORDER :: "int \<Rightarrow> nat" where
  "GET_ALLOC_ORDER val = nat (val AND 0xFF)"

definition GET_ALLOC_IDX :: "int \<Rightarrow> nat" where
  "GET_ALLOC_IDX val = nat (drop_bit 8 val AND 0x3FFFFF)"

subsection \<open>Addresses and indices\<close>

definition idx_to_addr :: "'a buddy_state_scheme \<Rightarrow> nat \<Rightarrow> u64" where
  "idx_to_addr s idx = buddy_base_addr s + of_nat idx * PAGE_SIZE"

definition addr_to_idx :: "'a buddy_state_scheme \<Rightarrow> u64 \<Rightarrow> nat" where
  "addr_to_idx s addr = unat ((addr - buddy_base_addr s) div PAGE_SIZE)"

definition frame_list_head :: "'a buddy_state_scheme \<Rightarrow> nat \<Rightarrow> u64" where
  "frame_list_head s idx = idx_to_addr s idx"

definition list_head_to_idx :: "'a buddy_state_scheme \<Rightarrow> u64 \<Rightarrow> nat" where
  "list_head_to_idx s lh = addr_to_idx s lh"

text \<open>The address of \<^verbatim>\<open>free_list[order]\<close>.\<close>

definition free_list_head :: "'a buddy_state_scheme \<Rightarrow> nat \<Rightarrow> u64" where
  "free_list_head s order = free_list s + 16 * of_nat order"

function pages_to_order_from :: "nat \<Rightarrow> nat \<Rightarrow> nat \<Rightarrow> nat" where
  "pages_to_order_from block order pages =
     (if block < pages \<and> 0 < block then pages_to_order_from (2 * block) (order + 1) pages else order)"
  by pat_completeness auto
termination
  by (relation "measure (\<lambda>(block, order, pages). pages - block)") auto

definition pages_to_order :: "nat \<Rightarrow> nat" where
  "pages_to_order pages = pages_to_order_from 1 0 pages"

subsection \<open>Free blocks\<close>

definition block_push :: "nat \<Rightarrow> nat \<Rightarrow> 'a buddy_state_scheme \<Rightarrow> 'a buddy_state_scheme" where
  "block_push idx order s =
     (let count = 2 ^ order;
          frames = fill idx 1 count FRAME_FREE_PART ((frame_array s)(idx := int order));
          node = frame_list_head s idx;
          m = list_add node (free_list_head s order) (INIT_LIST_HEAD node (mem s))
      in s\<lparr>frame_array := frames, mem := m\<rparr>)"

definition block_pop :: "nat \<Rightarrow> nat \<Rightarrow> 'a buddy_state_scheme \<Rightarrow> 'a buddy_state_scheme" where
  "block_pop idx order s = s\<lparr>mem := list_del (frame_list_head s idx) (mem s)\<rparr>"

subsection \<open>Allocation\<close>

function search_order :: "'a buddy_state_scheme \<Rightarrow> nat \<Rightarrow> nat" where
  "search_order s current_order =
     (if current_order \<le> MAX_ORDER \<and> list_empty (free_list_head s current_order) (mem s)
      then search_order s (current_order + 1) else current_order)"
  by pat_completeness auto
termination
  by (relation "measure (\<lambda>(s, current_order). Suc MAX_ORDER - current_order)") auto

fun split_block :: "nat \<Rightarrow> nat \<Rightarrow> nat \<Rightarrow> 'a buddy_state_scheme \<Rightarrow> 'a buddy_state_scheme" where
  "split_block idx current_order target_order s =
     (if target_order < current_order
      then split_block idx (current_order - 1) target_order
             (block_push (idx + 2 ^ (current_order - 1)) (current_order - 1) s)
      else s)"

definition mark_allocated :: "nat \<Rightarrow> nat \<Rightarrow> 'a buddy_state_scheme \<Rightarrow> 'a buddy_state_scheme" where
  "mark_allocated idx order s =
     s\<lparr>frame_array := fill idx 0 (2 ^ order) (ALLOC_TAG idx order) (frame_array s),
       ref_count := (if ref_count_ptr s \<noteq> NULL then fill idx 0 (2 ^ order) 1 (ref_count s)
                     else ref_count s)\<rparr>"

definition buddy_alloc :: "u64 \<Rightarrow> 'a buddy_state_scheme \<Rightarrow> u64 \<times> 'a buddy_state_scheme" where
  "buddy_alloc sz s0 =
     (let (saved, s) = csrrci s0;
          (ret, s') =
            (if sz = 0 then (NULL, s)
             else let pages_needed = unat ((sz + PAGE_SIZE - 1) div PAGE_SIZE);
                      target_order = pages_to_order pages_needed
                  in if target_order > MAX_ORDER then (NULL, s)
                  else let current_order = search_order s target_order
                  in if current_order > MAX_ORDER then (NULL, s)
                  else let chosen = lh_next (mem s) (free_list_head s current_order);
                           idx = list_head_to_idx s chosen;
                           s1 = block_pop idx current_order s;
                           s2 = split_block idx current_order target_order s1;
                           s3 = mark_allocated idx target_order s2
                       in (idx_to_addr s3 idx, s3))
      in (ret, csrs saved s'))"

subsection \<open>Freeing\<close>

function coalesce :: "nat \<Rightarrow> nat \<Rightarrow> 'a buddy_state_scheme \<Rightarrow> nat \<times> nat \<times> 'a buddy_state_scheme" where
  "coalesce cur_idx cur_order s =
     (if cur_order < MAX_ORDER then
        (let buddy_idx = cur_idx XOR 2 ^ cur_order
         in if buddy_idx \<ge> buddy_total_pages s then (cur_idx, cur_order, s)
            else if frame_array s buddy_idx \<noteq> int cur_order then (cur_idx, cur_order, s)
            else coalesce (if buddy_idx < cur_idx then buddy_idx else cur_idx) (cur_order + 1)
                   (block_pop buddy_idx cur_order s))
      else (cur_idx, cur_order, s))"
  by pat_completeness auto
termination
  by (relation "measure (\<lambda>(cur_idx, cur_order, s). MAX_ORDER - cur_order)") auto

definition release_block :: "nat \<Rightarrow> 'a buddy_state_scheme \<Rightarrow> 'a buddy_state_scheme" where
  "release_block idx s =
     (let order = GET_ALLOC_ORDER (frame_array s idx);
          s1 = s\<lparr>frame_array := fill idx 0 (2 ^ order) FRAME_FREE_PART (frame_array s)\<rparr>;
          (cur_idx, cur_order, s2) = coalesce idx order s1
      in block_push cur_idx cur_order s2)"

definition buddy_free :: "u64 \<Rightarrow> 'a buddy_state_scheme \<Rightarrow> 'a buddy_state_scheme" where
  "buddy_free ptr s0 =
     (if ptr = NULL then s0
      else let (saved, s) = csrrci s0;
               s' = (if ptr < buddy_base_addr s \<or> ptr \<ge> buddy_end_addr s then s
                     else let idx = addr_to_idx s ptr
                     in if ref_count_ptr s \<noteq> NULL
                        then let s1 = s\<lparr>ref_count := (ref_count s)(idx := ref_count s idx - 1)\<rparr>
                             in if ref_count s1 idx > 0 then s1 else release_block idx s1
                        else release_block idx s)
           in csrs saved s')"

subsection \<open>Reference counts\<close>

definition get_page_ref :: "u64 \<Rightarrow> 'a buddy_state_scheme \<Rightarrow> 'a buddy_state_scheme" where
  "get_page_ref ptr s0 =
     (if ptr = NULL then s0
      else let (saved, s) = csrrci s0;
               s' = (if ptr \<ge> buddy_base_addr s \<and> ptr < buddy_end_addr s \<and> ref_count_ptr s \<noteq> NULL
                     then let idx = addr_to_idx s ptr
                          in s\<lparr>ref_count := (ref_count s)(idx := ref_count s idx + 1)\<rparr>
                     else s)
           in csrs saved s')"

definition get_page_ref_count :: "u64 \<Rightarrow> 'a buddy_state_scheme \<Rightarrow> int \<times> 'a buddy_state_scheme" where
  "get_page_ref_count ptr s0 =
     (if ptr = NULL then (0, s0)
      else let (saved, s) = csrrci s0;
               ret = (if ptr \<ge> buddy_base_addr s \<and> ptr < buddy_end_addr s \<and> ref_count_ptr s \<noteq> NULL
                      then ref_count s (addr_to_idx s ptr) else 0)
           in (ret, csrs saved s))"

subsection \<open>Initialisation\<close>

text \<open>
  What \<^verbatim>\<open>buddy_init\<close> reads from the link map and the device tree: the linker symbols
  \<^verbatim>\<open>_start\<close> and \<^verbatim>\<open>_end\<close>, the two values \<^verbatim>\<open>dtb_get_memory_region\<close> stores, the tree's address
  and total size, the initial ram disk's address, and the arguments of the \<^verbatim>\<open>memory_reserve\<close>
  calls of \<^verbatim>\<open>dtb_find_and_reserve_memory\<close>.
\<close>

record boot_info =
  bi_start :: u64
  bi_end :: u64
  bi_mem_start :: u64
  bi_mem_size :: u64
  bi_dtb_addr :: u64
  bi_dtb_totalsize :: u64
  bi_cpio_addr :: u64
  bi_dtb_reserved :: "(u64 \<times> u64) list"

abbreviation PAGE_OFFSET :: u64 where "PAGE_OFFSET \<equiv> 0xffffffc000000000"

definition va :: "u64 \<Rightarrow> u64" where "va pa = pa + PAGE_OFFSET"

definition memory_reserve :: "u64 \<Rightarrow> u64 \<Rightarrow> 'a buddy_state_scheme \<Rightarrow> 'a buddy_state_scheme" where
  "memory_reserve start sz s =
     (if length (reserved_regions s) < MAX_RESERVED_REGIONS
      then s\<lparr>reserved_regions := reserved_regions s @ [\<lparr>rg_start = start, rg_end = start + sz\<rparr>]\<rparr>
      else s)"

definition clashes :: "u64 \<Rightarrow> u64 \<Rightarrow> mem_region \<Rightarrow> bool" where
  "clashes start_addr end_addr r \<longleftrightarrow> \<not> (end_addr \<le> rg_start r \<or> start_addr \<ge> rg_end r)"

function startup_alloc_from :: "nat \<Rightarrow> nat \<Rightarrow> 'a buddy_state_scheme \<Rightarrow> u64 \<times> 'a buddy_state_scheme" where
  "startup_alloc_from pages_needed idx s =
     (if idx + pages_needed \<le> buddy_total_pages s then
        (let start_addr = buddy_base_addr s + of_nat idx * PAGE_SIZE;
             end_addr = start_addr + of_nat pages_needed * PAGE_SIZE
         in case find (clashes start_addr end_addr) (reserved_regions s) of
              Some r \<Rightarrow>
                (let clash_end_idx = unat ((rg_end r - buddy_base_addr s + PAGE_SIZE - 1) div PAGE_SIZE)
                 in startup_alloc_from pages_needed
                      (if clash_end_idx > idx then clash_end_idx else idx + 1) s)
            | None \<Rightarrow> (start_addr, memory_reserve start_addr (of_nat pages_needed * PAGE_SIZE) s))
      else (NULL, s))"
  by pat_completeness auto
termination
  by (relation "measure (\<lambda>(p, idx, s). Suc (buddy_total_pages s) - idx)") auto

definition startup_alloc :: "u64 \<Rightarrow> 'a buddy_state_scheme \<Rightarrow> u64 \<times> 'a buddy_state_scheme" where
  "startup_alloc sz s = startup_alloc_from (unat ((sz + PAGE_SIZE - 1) div PAGE_SIZE)) 0 s"

text \<open>The managed range; the build for QEMU and the one for the board differ in the default.\<close>

definition set_memory_range :: "bool \<Rightarrow> boot_info \<Rightarrow> 'a buddy_state_scheme \<Rightarrow> 'a buddy_state_scheme" where
  "set_memory_range qemu bi s =
     (let (start, sz) = (if bi_mem_size bi = 0 then (if qemu then 0x80000000 else 0, 0x80000000)
                         else (bi_mem_start bi, bi_mem_size bi));
          sz = (if sz > 0x80000000 then 0x80000000 else sz);
          start = va start
      in s\<lparr>buddy_base_addr := start, buddy_end_addr := start + sz,
           buddy_total_pages := unat (sz div PAGE_SIZE)\<rparr>)"

definition reserve_boot_regions :: "boot_info \<Rightarrow> 'a buddy_state_scheme \<Rightarrow> 'a buddy_state_scheme" where
  "reserve_boot_regions bi s =
     (let s1 = memory_reserve (bi_start bi) (bi_end bi - bi_start bi) s;
          s2 = (if bi_start bi > buddy_base_addr s1
                then memory_reserve (buddy_base_addr s1) (bi_start bi - buddy_base_addr s1) s1 else s1);
          s3 = (if bi_dtb_addr bi \<noteq> NULL then memory_reserve (bi_dtb_addr bi) (bi_dtb_totalsize bi) s2 else s2);
          s4 = (if bi_cpio_addr bi \<noteq> NULL then memory_reserve (bi_cpio_addr bi) 0x1000000 s3 else s3)
      in fold (\<lambda>(a, n). memory_reserve a n) (bi_dtb_reserved bi) s4)"

definition region_first :: "'a buddy_state_scheme \<Rightarrow> mem_region \<Rightarrow> nat" where
  "region_first s r =
     (if rg_start r > buddy_base_addr s then unat ((rg_start r - buddy_base_addr s) div PAGE_SIZE) else 0)"

definition region_last :: "'a buddy_state_scheme \<Rightarrow> mem_region \<Rightarrow> nat" where
  "region_last s r =
     (if rg_end r > buddy_base_addr s
      then unat ((rg_end r - buddy_base_addr s + PAGE_SIZE - 1) div PAGE_SIZE) else 0)"

definition pin_frame :: "nat \<Rightarrow> 'a buddy_state_scheme \<Rightarrow> 'a buddy_state_scheme" where
  "pin_frame j s = s\<lparr>frame_array := (frame_array s)(j := ALLOC_TAG j 0), ref_count := (ref_count s)(j := 1)\<rparr>"

definition pin_region :: "mem_region \<Rightarrow> 'a buddy_state_scheme \<Rightarrow> 'a buddy_state_scheme" where
  "pin_region r s =
     (if region_first s r < buddy_total_pages s
      then fold pin_frame [region_first s r ..< min (region_last s r) (buddy_total_pages s)] s
      else s)"

fun best_order :: "'a buddy_state_scheme \<Rightarrow> nat \<Rightarrow> nat \<Rightarrow> nat" where
  "best_order s idx order =
     (if order > 0 then
        (let block_pages = 2 ^ order
         in if idx AND (block_pages - 1) = 0 \<and> idx + block_pages \<le> buddy_total_pages s \<and>
               (\<forall>j\<in>set [0..<block_pages]. frame_array s (idx + j) = FRAME_FREE_PART)
            then order else best_order s idx (order - 1))
      else order)"

declare pages_to_order_from.simps [simp del] search_order.simps [simp del]
  split_block.simps [simp del] coalesce.simps [simp del] startup_alloc_from.simps [simp del]
  best_order.simps [simp del]

function build_free_blocks :: "nat \<Rightarrow> 'a buddy_state_scheme \<Rightarrow> 'a buddy_state_scheme" where
  "build_free_blocks idx s =
     (if idx < buddy_total_pages s then
        (if frame_array s idx \<noteq> FRAME_FREE_PART then build_free_blocks (idx + 1) s
         else let order = best_order s idx MAX_ORDER
              in build_free_blocks (idx + 2 ^ order) (block_push idx order s))
      else s)"
  by pat_completeness auto
termination
  by (relation "measure (\<lambda>(idx, s). buddy_total_pages s - idx)")
     (auto simp: block_push_def Let_def intro!: diff_less_mono2)

definition init_frames :: "'a buddy_state_scheme \<Rightarrow> 'a buddy_state_scheme" where
  "init_frames s =
     (let s1 = s\<lparr>mem := fold (\<lambda>i. INIT_LIST_HEAD (free_list_head s i)) [0..<MAX_ORDER + 1] (mem s)\<rparr>;
          s2 = s1\<lparr>frame_array := fill 0 0 (buddy_total_pages s1) FRAME_FREE_PART (frame_array s1),
                  ref_count := fill 0 0 (buddy_total_pages s1) 0 (ref_count s1)\<rparr>;
          s3 = fold pin_region (reserved_regions s2) s2
      in build_free_blocks 0 s3)"

definition buddy_init :: "bool \<Rightarrow> boot_info \<Rightarrow> 'a buddy_state_scheme \<Rightarrow> 'a buddy_state_scheme" where
  "buddy_init qemu bi s0 =
     (let s1 = reserve_boot_regions bi (set_memory_range qemu bi s0);
          array_bytes = of_nat (buddy_total_pages s1) * 4;
          (p, s2) = startup_alloc array_bytes s1;
          s3 = s2\<lparr>frame_array_ptr := p\<rparr>
      in if p = NULL then s3
         else let (q, s4) = startup_alloc array_bytes s3;
                  s5 = s4\<lparr>ref_count_ptr := q\<rparr>
              in if q = NULL then s5 else init_frames s5)"

declare build_free_blocks.simps [simp del]

end
