(* ===== verification/Buddy_Inv.thy ===== *)
theory Buddy_Inv
  imports Buddy
begin

text \<open>
  The invariant of the page-frame allocator and its preservation by every operation.
\<close>

subsection \<open>Pages and list heads\<close>

lemma sep_offset:
  assumes "x + 8 < 2 ^ 64" "y + 8 < 2 ^ 64"
  shows "sep (a + of_nat x) (a + of_nat y) \<longleftrightarrow> x \<noteq> y \<and> x + 8 \<noteq> y \<and> x \<noteq> y + 8"
proof -
  have "(of_nat x :: u64) = of_nat y \<longleftrightarrow> x = y" "(of_nat (x + 8) :: u64) = of_nat y \<longleftrightarrow> x + 8 = y"
       "(of_nat x :: u64) = of_nat (y + 8) \<longleftrightarrow> x = y + 8"
    by (rule of_nat_u64_inj; use assms in simp)+
  moreover have "a + of_nat x + 8 = a + of_nat y \<longleftrightarrow> (of_nat (x + 8) :: u64) = of_nat y"
    "a + of_nat x = a + of_nat y + 8 \<longleftrightarrow> (of_nat x :: u64) = of_nat (y + 8)"
    by (auto simp: algebra_simps)
  ultimately show ?thesis by (simp add: sep_def)
qed

lemma idx_to_addr_of_nat: "idx_to_addr s i = buddy_base_addr s + of_nat (i * 4096)"
  by (simp add: idx_to_addr_def)

lemma idx_to_addr_inj:
  "i < 2 ^ 51 \<Longrightarrow> j < 2 ^ 51 \<Longrightarrow> idx_to_addr s i = idx_to_addr s j \<longleftrightarrow> i = j"
  unfolding idx_to_addr_of_nat using of_nat_u64_inj [of "i * 4096" "j * 4096"] by simp

lemma pages_sep:
  assumes "i < 2 ^ 51" "j < 2 ^ 51" "i \<noteq> j"
  shows "sep (idx_to_addr s i) (idx_to_addr s j)"
proof -
  have "(i * 4096 + 8) mod 4096 = 8" "(j * 4096 + 8) mod 4096 = 8" by simp_all
  then have "i * 4096 + 8 \<noteq> j * 4096" "i * 4096 \<noteq> j * 4096 + 8" by (auto simp del: mod_mult_self3)
  then show ?thesis
    unfolding idx_to_addr_of_nat using assms by (subst sep_offset) auto
qed

lemma addr_to_idx_inverse [page_simps]:
  "i < 2 ^ 51 \<Longrightarrow> addr_to_idx s (idx_to_addr s i) = i"
  unfolding addr_to_idx_def idx_to_addr_of_nat
  using unat_of_nat_small [of "i * 4096"] by (simp add: unat_div)

lemma heads_apart:
  assumes "j \<le> MAX_ORDER" "k \<le> MAX_ORDER" "j \<noteq> k"
  shows "sep (free_list_head s j) (free_list_head s k)"
proof -
  have h: "free_list_head s i = free_list s + of_nat (16 * i)" for i
    by (simp add: free_list_head_def)
  have "16 * j + 8 \<noteq> 16 * k" "16 * j \<noteq> 16 * k + 8" by presburger+
  then show ?thesis
    unfolding h using assms by (subst sep_offset) (auto simp: MAX_ORDER_def)
qed

subsection \<open>Orders, buddies and tags\<close>

lemma xor_buddy:
  assumes "2 ^ k dvd (b :: nat)"
  shows "(b XOR 2 ^ k = b + 2 ^ k \<and> 2 ^ Suc k dvd b) \<or>
         (b = (b XOR 2 ^ k) + 2 ^ k \<and> 2 ^ Suc k dvd (b XOR 2 ^ k))"
proof -
  obtain q where q: "b = 2 ^ k * q" using assms by blast
  have x: "b XOR 2 ^ k = 2 ^ k * (q XOR 1)"
    using push_bit_xor [of k q 1] by (simp add: q push_bit_eq_mult mult.commute)
  show ?thesis
  proof (cases "even q")
    case True
    then obtain r where r: "q = 2 * r" by blast
    have "q XOR 1 = q + 1" by (simp add: r xor_nat_unfold)
    then have "b XOR 2 ^ k = b + 2 ^ k" unfolding x by (simp add: q algebra_simps)
    moreover have "2 ^ Suc k dvd b" by (simp add: q r)
    ultimately show ?thesis by blast
  next
    case False
    then obtain r where r: "q = 2 * r + 1" using oddE by blast
    have "q XOR 1 = 2 * r" by (simp add: r xor_nat_unfold)
    then have y: "b XOR 2 ^ k = 2 ^ Suc k * r" unfolding x by simp
    have "b = 2 ^ Suc k * r + 2 ^ k" by (simp add: q r algebra_simps)
    then show ?thesis unfolding y by simp
  qed
qed

lemma or_disjoint: "n < 2 ^ k \<Longrightarrow> push_bit k (int m) OR int n = int m * 2 ^ k + int n"
proof -
  assume n: "n < 2 ^ k"
  have "push_bit k (int m) + int n = push_bit k (int m) OR int n"
  proof (rule disjunctive_add_eq_or)
    show "push_bit k (int m) AND int n = 0"
    proof (rule bit_eqI)
      fix i
      have "take_bit k (int n) = int n" using n by (simp add: take_bit_int_eq_self)
      then have "bit (int n) i \<Longrightarrow> i < k" by (metis bit_take_bit_iff)
      then show "bit (push_bit k (int m) AND int n) i = bit 0 i"
        by (auto simp: bit_and_iff bit_push_bit_iff)
    qed
  qed
  then show ?thesis by (simp add: push_bit_eq_mult)
qed

lemma tag_value:
  assumes "idx < 2 ^ 22" "order < 256"
  shows "ALLOC_TAG idx order = 2 ^ 30 + int idx * 256 + int order"
proof -
  have low: "push_bit 8 (int idx) OR int order = int (idx * 256 + order)"
    using or_disjoint [of order 8 idx] assms(2) by simp
  have "idx * 256 + order < 2 ^ 30" using assms by simp
  then have "push_bit 30 1 OR (push_bit 8 (int idx) OR int order) = 2 ^ 30 + int (idx * 256 + order)"
    unfolding low using or_disjoint [of "idx * 256 + order" 30 1] by simp
  moreover have "signed_take_bit 31 (2 ^ 30 + int (idx * 256 + order)) = 2 ^ 30 + int (idx * 256 + order)"
    using assms by (intro signed_take_bit_int_eq_self) auto
  ultimately show ?thesis by (simp add: ALLOC_TAG_def or.assoc)
qed

lemma tag_nat: "idx < 2 ^ 22 \<Longrightarrow> order < 256 \<Longrightarrow> ALLOC_TAG idx order = int (256 * (2 ^ 22 + idx) + order)"
  by (simp add: tag_value)

lemma tag_order: "idx < 2 ^ 22 \<Longrightarrow> order < 256 \<Longrightarrow> GET_ALLOC_ORDER (ALLOC_TAG idx order) = order"
proof -
  assume a: "idx < 2 ^ 22" "order < 256"
  have "int (256 * (2 ^ 22 + idx) + order) mod 256 = int ((256 * (2 ^ 22 + idx) + order) mod 256)"
    by (simp only: of_nat_mod of_nat_numeral)
  also have "(256 * (2 ^ 22 + idx) + order) mod 256 = order" using a(2) by (simp only: mod_mult_self4 mod_less)
  finally have "ALLOC_TAG idx order mod 256 = int order" by (simp only: tag_nat [OF a])
  moreover have "val AND 0xFF = val mod 256" for val :: int
    using take_bit_eq_mask [of 8 val] by (simp add: mask_eq_exp_minus_1 take_bit_eq_mod)
  ultimately show ?thesis by (simp add: GET_ALLOC_ORDER_def)
qed

lemma tag_idx: "idx < 2 ^ 22 \<Longrightarrow> order < 256 \<Longrightarrow> GET_ALLOC_IDX (ALLOC_TAG idx order) = idx"
proof -
  assume a: "idx < 2 ^ 22" "order < 256"
  have "int (256 * (2 ^ 22 + idx) + order) div 256 mod 2 ^ 22
      = int ((256 * (2 ^ 22 + idx) + order) div 256 mod 2 ^ 22)"
    by (simp only: of_nat_mod of_nat_div of_nat_numeral of_nat_power)
  also have "(256 * (2 ^ 22 + idx) + order) div 256 mod 2 ^ 22 = idx"
    using a by (simp only: div_mult_self4 div_less add_0_right mod_add_self1 mod_less)
  finally have "drop_bit 8 (ALLOC_TAG idx order) mod 2 ^ 22 = int idx"
    by (simp only: tag_nat [OF a] drop_bit_eq_div) simp
  moreover have "val AND 0x3FFFFF = val mod 2 ^ 22" for val :: int
    using take_bit_eq_mask [of 22 val] by (simp add: mask_eq_exp_minus_1 take_bit_eq_mod)
  ultimately show ?thesis by (simp add: GET_ALLOC_IDX_def)
qed

lemma tag_inj: "idx < 2 ^ 22 \<Longrightarrow> order < 256 \<Longrightarrow> idx' < 2 ^ 22 \<Longrightarrow> order' < 256 \<Longrightarrow>
    ALLOC_TAG idx order = ALLOC_TAG idx' order' \<longleftrightarrow> idx = idx' \<and> order = order'"
  by (metis tag_order tag_idx)


subsection \<open>Blocks\<close>

text \<open>
  The frame array tiles the managed range with aligned power-of-two blocks, free or allocated.
  While an operation works on a block, the tiling has a hole \<open>R\<close>.
\<close>

definition is_free :: "int \<Rightarrow> bool" where
  "is_free v \<longleftrightarrow> v < 2 ^ 30"

definition frames_of :: "nat \<Rightarrow> nat \<Rightarrow> nat set" where
  "frames_of b k = {b..<b + 2 ^ k}"

definition block_ok :: "nat \<Rightarrow> nat \<Rightarrow> nat \<Rightarrow> bool" where
  "block_ok n b k \<longleftrightarrow> k \<le> MAX_ORDER \<and> 2 ^ k dvd b \<and> b + 2 ^ k \<le> n"

definition free_tile :: "(nat \<Rightarrow> int) \<Rightarrow> nat \<Rightarrow> nat \<Rightarrow> bool" where
  "free_tile f b k \<longleftrightarrow> f b = int k \<and> (\<forall>j. b < j \<and> j < b + 2 ^ k \<longrightarrow> f j = FRAME_FREE_PART)"

definition alloc_tile :: "(nat \<Rightarrow> int) \<Rightarrow> nat \<Rightarrow> nat \<Rightarrow> bool" where
  "alloc_tile f b k \<longleftrightarrow> (\<forall>j\<in>frames_of b k. f j = ALLOC_TAG b k)"

definition is_block :: "nat \<Rightarrow> (nat \<Rightarrow> int) \<Rightarrow> nat \<Rightarrow> nat \<Rightarrow> bool" where
  "is_block n f b k \<longleftrightarrow> block_ok n b k \<and> (free_tile f b k \<or> alloc_tile f b k)"

definition tiled_off :: "nat \<Rightarrow> (nat \<Rightarrow> int) \<Rightarrow> nat set \<Rightarrow> bool" where
  "tiled_off n f R \<longleftrightarrow>
     (\<forall>i<n. i \<notin> R \<longrightarrow> (\<exists>b k. is_block n f b k \<and> i \<in> frames_of b k \<and> frames_of b k \<inter> R = {}))"

lemma block_head [simp]: "b \<in> frames_of b k"
  by (simp add: frames_of_def)

lemma block_bound: "block_ok n b k \<Longrightarrow> i \<in> frames_of b k \<Longrightarrow> i < n"
  by (auto simp: block_ok_def frames_of_def)

lemma order_small: "block_ok n b k \<Longrightarrow> k \<le> 16"
  by (simp add: block_ok_def MAX_ORDER_def)

lemma tag_not_free: "idx < 2 ^ 22 \<Longrightarrow> k \<le> 16 \<Longrightarrow> \<not> is_free (ALLOC_TAG idx k)"
  by (simp add: is_free_def tag_value)

lemma order_is_free: "k \<le> 16 \<Longrightarrow> is_free (int k)" "is_free FRAME_FREE_PART"
  by (auto simp: is_free_def FRAME_FREE_PART_def)

lemma free_tile_free: "free_tile f b k \<Longrightarrow> k \<le> 16 \<Longrightarrow> i \<in> frames_of b k \<Longrightarrow> is_free (f i)"
  using order_is_free by (cases "i = b") (auto simp: free_tile_def frames_of_def)

lemma alloc_tile_alloc:
  "alloc_tile f b k \<Longrightarrow> block_ok n b k \<Longrightarrow> n \<le> 2 ^ 22 \<Longrightarrow> i \<in> frames_of b k \<Longrightarrow>
    f i = ALLOC_TAG b k \<and> \<not> is_free (f i)"
  using tag_not_free [of b k] order_small [of n b k] block_bound [of n b k b]
  by (auto simp: alloc_tile_def)

lemma free_tile_inner: "free_tile f b k \<Longrightarrow> i \<in> frames_of b k \<Longrightarrow> f i = int o' \<Longrightarrow> i = b \<and> k = o'"
  by (cases "i = b") (auto simp: free_tile_def frames_of_def FRAME_FREE_PART_def)

lemma block_unique:
  assumes "is_block n f b k" "is_block n f b' k'" "n \<le> 2 ^ 22"
    and i: "i \<in> frames_of b k" "i \<in> frames_of b' k'"
  shows "b = b' \<and> k = k'"
proof -
  have ok: "block_ok n b k" "block_ok n b' k'" using assms by (auto simp: is_block_def)
  note bnd = order_small [OF ok(1)] order_small [OF ok(2)]
    block_bound [OF ok(1) block_head] block_bound [OF ok(2) block_head]
  consider "free_tile f b k" "free_tile f b' k'" | "alloc_tile f b k" "alloc_tile f b' k'"
    | "free_tile f b k" "alloc_tile f b' k'" | "alloc_tile f b k" "free_tile f b' k'"
    using assms by (auto simp: is_block_def)
  then show ?thesis
  proof cases
    case 1
    have "b \<in> frames_of b' k' \<or> b' \<in> frames_of b k" using i by (auto simp: frames_of_def)
    then show ?thesis
      using 1 free_tile_inner [OF 1(1), of b' k'] free_tile_inner [OF 1(2), of b k]
      by (auto simp: free_tile_def)
  next
    case 2
    then have "ALLOC_TAG b k = ALLOC_TAG b' k'" using i by (auto simp: alloc_tile_def)
    then show ?thesis using bnd assms(3) by (subst (asm) tag_inj) auto
  next
    case 3
    then show ?thesis
      using i free_tile_free [OF 3(1) bnd(1)] alloc_tile_alloc [OF 3(2) ok(2) assms(3)] by auto
  next
    case 4
    then show ?thesis
      using i free_tile_free [OF 4(2) bnd(2)] alloc_tile_alloc [OF 4(1) ok(1) assms(3)] by auto
  qed
qed

lemma tiled_off_head:
  assumes t: "tiled_off n f R" and n: "n \<le> 2 ^ 22" and "i < n" "i \<notin> R" "f i = int k" "k \<le> 16"
  shows "block_ok n i k \<and> free_tile f i k \<and> frames_of i k \<inter> R = {}"
proof -
  obtain b l where bl: "is_block n f b l" "i \<in> frames_of b l" "frames_of b l \<inter> R = {}"
    using assms unfolding tiled_off_def by blast
  then have "\<not> alloc_tile f b l"
    using alloc_tile_alloc [of f b l n i] n order_is_free(1) [of k] assms(5,6)
    by (auto simp: is_block_def)
  then have "free_tile f b l" using bl by (auto simp: is_block_def)
  then show ?thesis using bl free_tile_inner [of f b l i k] assms(5) by (auto simp: is_block_def)
qed

text \<open>The block an allocated frame belongs to is the one its tag names.\<close>

lemma tiled_off_tag:
  assumes t: "tiled_off n f R" and n: "n \<le> 2 ^ 22" and "i < n" "i \<notin> R" "\<not> is_free (f i)"
  shows "\<exists>b k. block_ok n b k \<and> alloc_tile f b k \<and> i \<in> frames_of b k \<and> frames_of b k \<inter> R = {}"
proof -
  obtain b l where bl: "is_block n f b l" "i \<in> frames_of b l" "frames_of b l \<inter> R = {}"
    using assms unfolding tiled_off_def by blast
  then show ?thesis
    using free_tile_free [of f b l i] assms(5) order_small by (fastforce simp: is_block_def)
qed

text \<open>Opening a hole over a block, and closing a part of a hole with a new block.\<close>

lemma tiled_off_grow:
  assumes t: "tiled_off n f R" and n: "n \<le> 2 ^ 22" and b: "is_block n f b k"
  shows "tiled_off n f (R \<union> frames_of b k)"
  unfolding tiled_off_def
proof (intro allI impI)
  fix i assume i: "i < n" "i \<notin> R \<union> frames_of b k"
  then obtain b' l where bl: "is_block n f b' l" "i \<in> frames_of b' l" "frames_of b' l \<inter> R = {}"
    using t unfolding tiled_off_def by blast
  have "frames_of b' l \<inter> frames_of b k = {}"
    using block_unique [OF bl(1) b n] bl(2) i(2) by blast
  with bl show "\<exists>b' l. is_block n f b' l \<and> i \<in> frames_of b' l \<and> frames_of b' l \<inter> (R \<union> frames_of b k) = {}"
    by blast
qed

lemma tile_cong:
  assumes "\<And>i. i \<in> frames_of b k \<Longrightarrow> f' i = f i"
  shows "is_block n f' b k = is_block n f b k"
proof -
  have "free_tile f' b k = free_tile f b k"
    using assms by (auto simp: free_tile_def frames_of_def)
  moreover have "alloc_tile f' b k = alloc_tile f b k"
    using assms by (auto simp: alloc_tile_def)
  ultimately show ?thesis by (simp add: is_block_def)
qed

lemma tiled_off_fill:
  assumes t: "tiled_off n f R" and b: "is_block n f' b k"
    and out: "\<And>i. i \<notin> frames_of b k \<Longrightarrow> f' i = f i" and sub: "frames_of b k \<subseteq> R"
  shows "tiled_off n f' (R - frames_of b k)"
  unfolding tiled_off_def
proof (intro allI impI)
  fix i assume i: "i < n" "i \<notin> R - frames_of b k"
  show "\<exists>b' l. is_block n f' b' l \<and> i \<in> frames_of b' l \<and> frames_of b' l \<inter> (R - frames_of b k) = {}"
  proof (cases "i \<in> frames_of b k")
    case False
    then obtain b' l where bl: "is_block n f b' l" "i \<in> frames_of b' l" "frames_of b' l \<inter> R = {}"
      using t i unfolding tiled_off_def by blast
    then have "is_block n f' b' l" using sub by (subst tile_cong) (auto intro!: out)
    with bl show ?thesis by blast
  qed (use b in blast)
qed

subsection \<open>The invariant\<close>

text \<open>
  A page is safe when it cannot overlap the static array of list heads. Free pages are
  safe: the pages of the kernel image are reserved.
\<close>

definition safe_page :: "'a buddy_state_scheme \<Rightarrow> nat \<Rightarrow> bool" where
  "safe_page s i \<longleftrightarrow> (\<forall>k\<le>MAX_ORDER.
     unat (free_list_head s k) + 16 \<le> 2 ^ 64 \<and> unat (idx_to_addr s i) + 4096 \<le> 2 ^ 64 \<and>
     (unat (free_list_head s k) + 16 \<le> unat (idx_to_addr s i) \<or>
      unat (idx_to_addr s i) + 4096 \<le> unat (free_list_head s k)))"

lemma sep_unat:
  assumes "unat p + 16 \<le> unat q \<or> unat q + 16 \<le> unat p" "unat p + 16 \<le> 2 ^ 64" "unat q + 16 \<le> 2 ^ 64"
  shows "sep p q"
proof -
  have "unat (p + 8) = unat p + 8" "unat (q + 8) = unat q + 8"
    using assms by (simp_all add: unat_add_nowrap)
  then have "unat p \<noteq> unat q" "unat (p + 8) \<noteq> unat q" "unat p \<noteq> unat (q + 8)"
    using assms(1) by linarith+
  then show ?thesis unfolding sep_def by metis
qed

lemma safe_page_sep: "safe_page s i \<Longrightarrow> k \<le> MAX_ORDER \<Longrightarrow> sep (free_list_head s k) (idx_to_addr s i)"
  by (intro sep_unat) (auto simp: safe_page_def)

definition geometry :: "'a buddy_state_scheme \<Rightarrow> bool" where
  "geometry s \<longleftrightarrow> buddy_total_pages s \<le> 2 ^ 22 \<and> 0 < unat (buddy_base_addr s) \<and>
     unat (buddy_base_addr s) + buddy_total_pages s * 4096 < 2 ^ 64 \<and>
     buddy_end_addr s = idx_to_addr s (buddy_total_pages s) \<and> ref_count_ptr s \<noteq> NULL"

definition free_heads :: "'a buddy_state_scheme \<Rightarrow> nat set \<Rightarrow> nat \<Rightarrow> nat set" where
  "free_heads s R k = {i. i < buddy_total_pages s \<and> i \<notin> R \<and> frame_array s i = int k}"

definition lists_ok :: "(nat \<Rightarrow> nat list) \<Rightarrow> nat set \<Rightarrow> 'a buddy_state_scheme \<Rightarrow> bool" where
  "lists_ok fl R s \<longleftrightarrow>
     (\<forall>k\<le>MAX_ORDER. clist (mem s) (free_list_head s k) (map (idx_to_addr s) (fl k)) \<and>
        set (fl k) = free_heads s R k)"

definition pages_safe :: "nat set \<Rightarrow> 'a buddy_state_scheme \<Rightarrow> bool" where
  "pages_safe R s \<longleftrightarrow>
     (\<forall>i<buddy_total_pages s. i \<in> R \<or> is_free (frame_array s i) \<longrightarrow> safe_page s i)"

text \<open>No two free buddies of one order: everything that can be merged is.\<close>

definition coalesced :: "nat set \<Rightarrow> 'a buddy_state_scheme \<Rightarrow> bool" where
  "coalesced R s \<longleftrightarrow>
     (\<forall>k<MAX_ORDER. \<forall>i\<in>free_heads s R k. i XOR 2 ^ k \<notin> free_heads s R k)"

definition refs_ok :: "nat set \<Rightarrow> 'a buddy_state_scheme \<Rightarrow> bool" where
  "refs_ok R s \<longleftrightarrow> (\<forall>b k. block_ok (buddy_total_pages s) b k \<and> b \<notin> R \<and>
     frame_array s b = ALLOC_TAG b k \<longrightarrow> 1 \<le> ref_count s b)"

definition buddy_off :: "(nat \<Rightarrow> nat list) \<Rightarrow> nat set \<Rightarrow> 'a buddy_state_scheme \<Rightarrow> bool" where
  "buddy_off fl R s \<longleftrightarrow> geometry s \<and> tiled_off (buddy_total_pages s) (frame_array s) R \<and>
     lists_ok fl R s \<and> pages_safe R s \<and> coalesced R s \<and> refs_ok R s"

definition buddy_inv :: "'a buddy_state_scheme \<Rightarrow> bool" where
  "buddy_inv s \<longleftrightarrow> (\<exists>fl. buddy_off fl {} s)"


lemmas buddy_off_D =
  buddy_off_def [THEN iffD1, THEN conjunct1]
  buddy_off_def [THEN iffD1, THEN conjunct2, THEN conjunct1]
  buddy_off_def [THEN iffD1, THEN conjunct2, THEN conjunct2, THEN conjunct1]
  buddy_off_def [THEN iffD1, THEN conjunct2, THEN conjunct2, THEN conjunct2, THEN conjunct1]
  buddy_off_def [THEN iffD1, THEN conjunct2, THEN conjunct2, THEN conjunct2, THEN conjunct2, THEN conjunct1]
  buddy_off_def [THEN iffD1, THEN conjunct2, THEN conjunct2, THEN conjunct2, THEN conjunct2, THEN conjunct2]

text \<open>The constants of the address map are not touched by the operations.\<close>

lemma address_map_upd [simp]:
  "idx_to_addr (s\<lparr>mem := m\<rparr>) = idx_to_addr s" "idx_to_addr (s\<lparr>frame_array := f\<rparr>) = idx_to_addr s"
  "idx_to_addr (s\<lparr>ref_count := r\<rparr>) = idx_to_addr s" "idx_to_addr (s\<lparr>sie := e\<rparr>) = idx_to_addr s"
  "free_list_head (s\<lparr>mem := m\<rparr>) = free_list_head s" "free_list_head (s\<lparr>frame_array := f\<rparr>) = free_list_head s"
  "free_list_head (s\<lparr>ref_count := r\<rparr>) = free_list_head s" "free_list_head (s\<lparr>sie := e\<rparr>) = free_list_head s"
  "addr_to_idx (s\<lparr>mem := m\<rparr>) = addr_to_idx s" "addr_to_idx (s\<lparr>frame_array := f\<rparr>) = addr_to_idx s"
  "addr_to_idx (s\<lparr>ref_count := r\<rparr>) = addr_to_idx s" "addr_to_idx (s\<lparr>sie := e\<rparr>) = addr_to_idx s"
  by (auto simp: fun_eq_iff idx_to_addr_def free_list_head_def addr_to_idx_def)

lemma invariant_parts_upd [simp]:
  "safe_page (s\<lparr>mem := m\<rparr>) = safe_page s" "safe_page (s\<lparr>frame_array := f\<rparr>) = safe_page s"
  "safe_page (s\<lparr>ref_count := r\<rparr>) = safe_page s" "safe_page (s\<lparr>sie := e\<rparr>) = safe_page s"
  "geometry (s\<lparr>mem := m\<rparr>) = geometry s" "geometry (s\<lparr>frame_array := f\<rparr>) = geometry s"
  "geometry (s\<lparr>ref_count := r\<rparr>) = geometry s" "geometry (s\<lparr>sie := e\<rparr>) = geometry s"
  "free_heads (s\<lparr>mem := m\<rparr>) = free_heads s" "free_heads (s\<lparr>ref_count := r\<rparr>) = free_heads s"
  "free_heads (s\<lparr>sie := e\<rparr>) = free_heads s"
  by (auto simp: fun_eq_iff safe_page_def geometry_def free_heads_def)

text \<open>Any two list nodes (heads of different lists, safe pages) lie apart.\<close>

definition node_set :: "'a buddy_state_scheme \<Rightarrow> nat \<Rightarrow> nat set \<Rightarrow> u64 set" where
  "node_set s k A = insert (free_list_head s k) (idx_to_addr s ` A)"

lemma nodes_apart:
  assumes "p \<in> node_set s k A" "q \<in> node_set s l B" "k \<le> MAX_ORDER" "l \<le> MAX_ORDER" "k \<noteq> l"
    and "A \<inter> B = {}" "\<And>i. i \<in> A \<union> B \<Longrightarrow> safe_page s i \<and> i < 2 ^ 51"
  shows "sep p q"
proof -
  have "sep (idx_to_addr s i) (idx_to_addr s j)" if "i \<in> A" "j \<in> B" for i j
    using that assms(6,7) by (intro pages_sep) auto
  moreover have "sep (free_list_head s k) (idx_to_addr s i)" "sep (free_list_head s l) (idx_to_addr s i)"
    if "i \<in> A \<union> B" for i
    using assms(3,4,7) that safe_page_sep by blast+
  ultimately show ?thesis
    using assms(1,2) heads_apart [OF assms(3-5)] sep_sym by (auto simp: node_set_def)
qed

lemma free_heads_safe:
  assumes "buddy_off fl R s" "k \<le> MAX_ORDER" "i \<in> free_heads s R k"
  shows "safe_page s i \<and> i < 2 ^ 51"
proof -
  have "safe_page s i"
    using assms order_is_free(1) [of k] buddy_off_D(4) [OF assms(1)]
    by (auto simp: pages_safe_def free_heads_def MAX_ORDER_def)
  then show ?thesis
    using assms buddy_off_D(1) [OF assms(1)] by (auto simp: free_heads_def geometry_def)
qed

lemma hole_safe:
  assumes "buddy_off fl R s" "i \<in> R" "i < buddy_total_pages s"
  shows "safe_page s i \<and> i < 2 ^ 51"
  using assms buddy_off_D(1) [OF assms(1)] buddy_off_D(4) [OF assms(1)]
  by (auto simp: pages_safe_def geometry_def)

lemma list_nodes:
  assumes "buddy_off fl R s" "k \<le> MAX_ORDER"
  shows "set (free_list_head s k # map (idx_to_addr s) (fl k)) = node_set s k (free_heads s R k)"
    and "clist (mem s) (free_list_head s k) (map (idx_to_addr s) (fl k))"
    and "set (fl k) = free_heads s R k"
  using assms buddy_off_D(3) [OF assms(1)] by (auto simp: lists_ok_def node_set_def)

lemma free_heads_disjoint: "k \<noteq> l \<Longrightarrow> free_heads s R k \<inter> free_heads s R l = {}"
  by (auto simp: free_heads_def)

lemma block_push_frames:
  "frame_array (block_push b k s) j =
     (if j = b then int k else if j \<in> frames_of b k then FRAME_FREE_PART else frame_array s j)"
  by (auto simp: block_push_def fill_apply frames_of_def Let_def)

lemma block_push_fields [simp]:
  "idx_to_addr (block_push b k s) = idx_to_addr s" "free_list_head (block_push b k s) = free_list_head s"
  "safe_page (block_push b k s) = safe_page s" "geometry (block_push b k s) = geometry s"
  "buddy_total_pages (block_push b k s) = buddy_total_pages s" "ref_count (block_push b k s) = ref_count s"
  by (auto simp: block_push_def Let_def)

lemma block_push_heads:
  assumes "block_ok (buddy_total_pages s) b k" "frames_of b k \<subseteq> R"
  shows "free_heads (block_push b k s) (R - frames_of b k) l =
     (if l = k then insert b (free_heads s R k) else free_heads s R l)"
  using assms block_bound [OF assms(1), of b] block_head [of b k]
  by (auto simp: free_heads_def block_push_frames FRAME_FREE_PART_def split: if_splits)

lemma block_push_lists:
  assumes inv: "buddy_off fl R s" and ok: "block_ok (buddy_total_pages s) b k" and sub: "frames_of b k \<subseteq> R"
  shows "lists_ok (fl(k := b # fl k)) (R - frames_of b k) (block_push b k s)"
  unfolding lists_ok_def
proof (intro allI impI conjI)
  fix l assume l: "l \<le> MAX_ORDER"
  have k: "k \<le> MAX_ORDER" using ok by (simp add: block_ok_def)
  have bR: "b \<in> R" "b < buddy_total_pages s" using sub block_bound [OF ok] by auto
  have apart: "sep p q" if "p \<in> insert (idx_to_addr s b) (node_set s k (free_heads s R k))"
    "q \<in> node_set s l (free_heads s R l)" "l \<noteq> k" for p q
  proof (rule nodes_apart [of p s k "insert b (free_heads s R k)" q l "free_heads s R l"])
    show "p \<in> node_set s k (insert b (free_heads s R k))" using that by (auto simp: node_set_def)
    show "insert b (free_heads s R k) \<inter> free_heads s R l = {}"
      using bR free_heads_disjoint [of k l s R] that by (auto simp: free_heads_def)
    show "safe_page s i \<and> i < 2 ^ 51" if "i \<in> insert b (free_heads s R k) \<union> free_heads s R l" for i
      using that free_heads_safe [OF inv k] free_heads_safe [OF inv l] hole_safe [OF inv bR] by blast
  qed (use that k l in auto)
  have own: "sep (idx_to_addr s b) q" if "q \<in> node_set s k (free_heads s R k)" for q
  proof -
    have "sep (idx_to_addr s b) (idx_to_addr s i)" if "i \<in> free_heads s R k" for i
      using that bR free_heads_safe [OF inv k] hole_safe [OF inv bR]
      by (intro pages_sep) (auto simp: free_heads_def)
    then show ?thesis
      using that sep_sym [OF safe_page_sep [OF _ k]] hole_safe [OF inv bR] by (auto simp: node_set_def)
  qed
  have memp: "mem (block_push b k s) = list_add (idx_to_addr s b) (free_list_head s k)
      (INIT_LIST_HEAD (idx_to_addr s b) (mem s))"
    by (simp add: block_push_def frame_list_head_def Let_def)
  show "clist (mem (block_push b k s)) (free_list_head (block_push b k s) l)
     (map (idx_to_addr (block_push b k s)) ((fl(k := b # fl k)) l))"
  proof (cases "l = k")
    case True
    then show ?thesis
      using clist_push [OF list_nodes(2) [OF inv k], of "idx_to_addr s b"] own list_nodes(1) [OF inv k]
      by (simp add: memp del: list.set)
  next
    case False
    have "clist (mem (block_push b k s)) (free_list_head s l) (map (idx_to_addr s) (fl l))"
      unfolding memp
    proof (rule clist_push_other [OF list_nodes(2) [OF inv k] list_nodes(2) [OF inv l]])
      show "sep (idx_to_addr s b) q" if "q \<in> set (free_list_head s k # map (idx_to_addr s) (fl k))" for q
        using that own unfolding list_nodes(1) [OF inv k] by blast
      show "sep p q" if "p \<in> set (idx_to_addr s b # free_list_head s k # map (idx_to_addr s) (fl k))"
        "q \<in> set (free_list_head s l # map (idx_to_addr s) (fl l))" for p q
        using that apart False list_nodes(1) [OF inv k] unfolding list_nodes(1) [OF inv l]
        by (simp add: node_set_def) blast
    qed
    with False show ?thesis by simp
  qed
  show "set ((fl(k := b # fl k)) l) = free_heads (block_push b k s) (R - frames_of b k) l"
    using block_push_heads [OF ok sub, of l] list_nodes(3) [OF inv l] list_nodes(3) [OF inv k] by simp
qed

lemma block_push_off:
  assumes inv: "buddy_off fl R s" and ok: "block_ok (buddy_total_pages s) b k" and sub: "frames_of b k \<subseteq> R"
    and partner: "k < MAX_ORDER \<Longrightarrow> b XOR 2 ^ k \<notin> free_heads s R k"
  shows "buddy_off (fl(k := b # fl k)) (R - frames_of b k) (block_push b k s)"
proof -
  let ?s = "block_push b k s" and ?R = "R - frames_of b k" and ?n = "buddy_total_pages s"
  have n: "?n \<le> 2 ^ 22" using buddy_off_D(1) [OF inv] by (simp add: geometry_def)
  have k: "k \<le> 16" using ok by (rule order_small)
  have tile: "free_tile (frame_array ?s) b k"
    by (auto simp: free_tile_def block_push_frames frames_of_def)
  have "tiled_off ?n (frame_array ?s) ?R"
    using ok tile sub by (intro tiled_off_fill [OF buddy_off_D(2) [OF inv]])
      (auto simp: is_block_def block_push_frames)
  moreover have "pages_safe ?R ?s"
    using buddy_off_D(4) [OF inv] sub by (auto simp: pages_safe_def block_push_frames)
  moreover have "coalesced ?R ?s"
  proof -
    have "i XOR 2 ^ l \<notin> free_heads ?s ?R l" if l: "l < MAX_ORDER" and i: "i \<in> free_heads ?s ?R l" for i l
    proof (cases "l = k")
      case True
      have flip: "i XOR 2 ^ k = b \<Longrightarrow> i = b XOR 2 ^ k" by (metis bit.xor_cancel_right xor.assoc xor_self_eq xor.right_neutral)
      have old: "j \<in> free_heads s R k \<Longrightarrow> j XOR 2 ^ k \<notin> free_heads s R k" for j
        using buddy_off_D(5) [OF inv] l True by (auto simp: coalesced_def)
      have "b XOR 2 ^ k \<noteq> b" using xor_buddy [of k b] ok by (auto simp: block_ok_def)
      then show ?thesis
        using i l old partner flip unfolding True block_push_heads [OF ok sub] by auto
    next
      case False
      then show ?thesis
        using i l buddy_off_D(5) [OF inv] unfolding block_push_heads [OF ok sub] by (auto simp: coalesced_def)
    qed
    then show ?thesis by (auto simp: coalesced_def)
  qed
  moreover have "refs_ok ?R ?s"
    unfolding refs_ok_def
  proof (intro allI impI)
    fix b' k' assume a: "block_ok (buddy_total_pages ?s) b' k' \<and> b' \<notin> ?R \<and> frame_array ?s b' = ALLOC_TAG b' k'"
    then have "\<not> is_free (frame_array ?s b')"
      using tag_not_free [of b' k'] order_small [of ?n b' k'] block_bound [of ?n b' k' b'] n by auto
    then have "b' \<notin> frames_of b k" using free_tile_free [OF tile k] by blast
    with a show "1 \<le> ref_count ?s b'"
      using buddy_off_D(6) [OF inv] by (auto simp: refs_ok_def block_push_frames split: if_splits)
  qed
  ultimately show ?thesis
    using buddy_off_D(1) [OF inv] block_push_lists [OF inv ok sub] by (simp add: buddy_off_def)
qed


subsection \<open>Taking a block off its list\<close>

lemma block_pop_fields [simp]:
  "idx_to_addr (block_pop b k s) = idx_to_addr s" "free_list_head (block_pop b k s) = free_list_head s"
  "safe_page (block_pop b k s) = safe_page s" "geometry (block_pop b k s) = geometry s"
  "buddy_total_pages (block_pop b k s) = buddy_total_pages s" "ref_count (block_pop b k s) = ref_count s"
  "frame_array (block_pop b k s) = frame_array s" "free_heads (block_pop b k s) = free_heads s"
  by (auto simp: block_pop_def)

lemma free_head_block:
  assumes inv: "buddy_off fl R s" and k: "k \<le> MAX_ORDER" and b: "b \<in> free_heads s R k"
  shows "block_ok (buddy_total_pages s) b k" "free_tile (frame_array s) b k" "frames_of b k \<inter> R = {}"
  using tiled_off_head [OF buddy_off_D(2) [OF inv], of b k] buddy_off_D(1) [OF inv] b k
  by (auto simp: free_heads_def geometry_def MAX_ORDER_def)

lemma free_heads_grow:
  assumes inv: "buddy_off fl R s" and k: "k \<le> MAX_ORDER" and b: "b \<in> free_heads s R k"
  shows "free_heads s (R \<union> frames_of b k) l = (if l = k then free_heads s R k - {b} else free_heads s R l)"
proof -
  have "free_tile (frame_array s) b k" by (rule free_head_block [OF inv k b])
  then have "i = b \<and> l = k" if "i \<in> frames_of b k" "frame_array s i = int l" for i
    using that free_tile_inner by blast
  moreover have "b \<in> frames_of b k" "frame_array s b = int k" using b by (auto simp: free_heads_def)
  ultimately show ?thesis by (auto simp: free_heads_def)
qed

lemma block_pop_lists:
  assumes inv: "buddy_off fl R s" and k: "k \<le> MAX_ORDER" and b: "b \<in> free_heads s R k"
  shows "lists_ok (fl(k := remove1 b (fl k))) (R \<union> frames_of b k) (block_pop b k s)"
  unfolding lists_ok_def
proof (intro allI impI conjI)
  fix l assume l: "l \<le> MAX_ORDER"
  have small: "i \<in> free_heads s R k \<Longrightarrow> i < 2 ^ 51" for i using free_heads_safe [OF inv k] by blast
  have inj: "inj_on (idx_to_addr s) (set (fl k))"
    using small by (auto simp: inj_on_def list_nodes(3) [OF inv k] idx_to_addr_inj)
  have memp: "mem (block_pop b k s) = list_del (idx_to_addr s b) (mem s)"
    by (simp add: block_pop_def frame_list_head_def)
  have b_in: "b \<in> set (fl k)" using b by (simp add: list_nodes(3) [OF inv k])
  have dist: "distinct (fl k)"
    using clist_all(1) [OF list_nodes(2) [OF inv k]] by (simp add: distinct_map)
  show "clist (mem (block_pop b k s)) (free_list_head (block_pop b k s) l)
     (map (idx_to_addr (block_pop b k s)) ((fl(k := remove1 b (fl k))) l))"
  proof (cases "l = k")
    case True
    then show ?thesis
      using clist_remove1 [OF list_nodes(2) [OF inv k], of "idx_to_addr s b"] b_in map_remove1_inj [OF inj b_in]
      by (simp add: memp)
  next
    case False
    have "clist (mem (block_pop b k s)) (free_list_head s l) (map (idx_to_addr s) (fl l))"
      unfolding memp
    proof (rule clist_del_other [OF list_nodes(2) [OF inv k] _ list_nodes(2) [OF inv l]])
      show "idx_to_addr s b \<in> set (map (idx_to_addr s) (fl k))" using b_in by simp
      show "sep p q" if "p \<in> set (free_list_head s k # map (idx_to_addr s) (fl k))"
        "q \<in> set (free_list_head s l # map (idx_to_addr s) (fl l))" for p q
      proof (rule nodes_apart [of p s k "free_heads s R k" q l "free_heads s R l"])
        show "safe_page s i \<and> i < 2 ^ 51" if "i \<in> free_heads s R k \<union> free_heads s R l" for i
          using that free_heads_safe [OF inv k] free_heads_safe [OF inv l] by blast
        show "free_heads s R k \<inter> free_heads s R l = {}"
          using False by (intro free_heads_disjoint) simp
      qed (use that k l False list_nodes(1) [OF inv k] list_nodes(1) [OF inv l] in auto)
    qed
    with False show ?thesis by simp
  qed
  show "set ((fl(k := remove1 b (fl k))) l) = free_heads (block_pop b k s) (R \<union> frames_of b k) l"
    using free_heads_grow [OF inv k b, of l] list_nodes(3) [OF inv l] list_nodes(3) [OF inv k] dist by simp
qed

lemma block_pop_off:
  assumes inv: "buddy_off fl R s" and k: "k \<le> MAX_ORDER" and b: "b \<in> free_heads s R k"
  shows "buddy_off (fl(k := remove1 b (fl k))) (R \<union> frames_of b k) (block_pop b k s)"
proof -
  let ?s = "block_pop b k s" and ?R = "R \<union> frames_of b k"
  note fb = free_head_block [OF inv k b]
  have "tiled_off (buddy_total_pages s) (frame_array s) ?R"
    using fb buddy_off_D(1) [OF inv]
    by (intro tiled_off_grow [OF buddy_off_D(2) [OF inv]]) (auto simp: is_block_def geometry_def)
  moreover have "is_free (frame_array s i)" if "i \<in> frames_of b k" for i
    using free_tile_free [OF fb(2) _ that] k by (simp add: MAX_ORDER_def)
  then have "pages_safe ?R ?s"
    using buddy_off_D(4) [OF inv] by (auto simp: pages_safe_def)
  moreover have "free_heads s ?R l \<subseteq> free_heads s R l" for l
    by (auto simp: free_heads_def)
  then have "coalesced ?R ?s"
    using buddy_off_D(5) [OF inv] unfolding coalesced_def block_pop_fields by blast
  moreover have "refs_ok ?R ?s"
    using buddy_off_D(6) [OF inv] by (auto simp: refs_ok_def)
  ultimately show ?thesis
    using buddy_off_D(1) [OF inv] block_pop_lists [OF inv k b] by (simp add: buddy_off_def)
qed


subsection \<open>Which memory the lists use\<close>

text \<open>
  The allocator writes only its list heads and the nodes at the start of free pages. The
  contents of allocated pages are out of its reach.
\<close>

definition free_frames :: "'a buddy_state_scheme \<Rightarrow> nat set" where
  "free_frames s = {i. i < buddy_total_pages s \<and> is_free (frame_array s i)}"

definition list_area :: "'a buddy_state_scheme \<Rightarrow> nat set \<Rightarrow> u64 set" where
  "list_area s F = (\<Union>k\<in>{..MAX_ORDER}. cells (free_list_head s k)) \<union> (\<Union>i\<in>F. cells (idx_to_addr s i))"

lemma list_area_upd [simp]:
  "list_area (block_push b k s) = list_area s" "list_area (block_pop b k s) = list_area s"
  "list_area (s\<lparr>sie := e\<rparr>) = list_area s" "list_area (s\<lparr>frame_array := f\<rparr>) = list_area s"
  "list_area (s\<lparr>ref_count := r\<rparr>) = list_area s"
  by (auto simp: list_area_def fun_eq_iff)

lemma list_area_mono: "F \<subseteq> G \<Longrightarrow> c \<notin> list_area s G \<Longrightarrow> c \<notin> list_area s F"
  by (auto simp: list_area_def)

lemma free_heads_frames: "k \<le> MAX_ORDER \<Longrightarrow> free_heads s R k \<subseteq> free_frames s"
  using order_is_free(1) [of k] by (auto simp: free_heads_def free_frames_def MAX_ORDER_def)

lemma node_set_area:
  "k \<le> MAX_ORDER \<Longrightarrow> c \<notin> list_area s (free_frames s \<union> R) \<Longrightarrow>
    c \<notin> (\<Union>q\<in>node_set s k (free_heads s R k). cells q)"
  using free_heads_frames [of k s R] by (auto simp: list_area_def node_set_def)

lemma block_pop_mem:
  assumes inv: "buddy_off fl R s" and k: "k \<le> MAX_ORDER" and b: "b \<in> free_heads s R k"
    and c: "c \<notin> list_area s (free_frames s \<union> R)"
  shows "mem (block_pop b k s) c = mem s c"
  using list_del_frame [OF list_nodes(2) [OF inv k], of "idx_to_addr s b" c] b
    node_set_area [OF k c] list_nodes(3) [OF inv k] unfolding list_nodes(1) [OF inv k]
  by (simp add: block_pop_def frame_list_head_def)

lemma block_push_mem:
  assumes inv: "buddy_off fl R s" and ok: "block_ok (buddy_total_pages s) b k" and sub: "frames_of b k \<subseteq> R"
    and c: "c \<notin> list_area s (free_frames s \<union> R)"
  shows "mem (block_push b k s) c = mem s c"
proof -
  have k: "k \<le> MAX_ORDER" using ok by (simp add: block_ok_def)
  have bR: "b \<in> R" "b < buddy_total_pages s" using sub block_bound [OF ok] by auto
  have own: "sep (idx_to_addr s b) q" if "q \<in> node_set s k (free_heads s R k)" for q
  proof -
    have "sep (idx_to_addr s b) (idx_to_addr s i)" if "i \<in> free_heads s R k" for i
      using that bR free_heads_safe [OF inv k] hole_safe [OF inv bR]
      by (intro pages_sep) (auto simp: free_heads_def)
    then show ?thesis
      using that sep_sym [OF safe_page_sep [OF _ k]] hole_safe [OF inv bR] by (auto simp: node_set_def)
  qed
  have "c \<notin> cells (idx_to_addr s b)" using c bR by (auto simp: list_area_def)
  then show ?thesis
    using push_frame [OF list_nodes(2) [OF inv k], of "idx_to_addr s b" c] own
      node_set_area [OF k c] unfolding list_nodes(1) [OF inv k]
    by (simp add: block_push_def frame_list_head_def Let_def)
qed

subsection \<open>Splitting\<close>

lemma lower_half: "frames_of b (Suc k) = frames_of b k \<union> frames_of (b + 2 ^ k) k"
  "frames_of b k \<inter> frames_of (b + 2 ^ k) k = {}"
  by (auto simp: frames_of_def)

lemma halves_ok:
  assumes "block_ok n b (Suc k)"
  shows "block_ok n b k" "block_ok n (b + 2 ^ k) k" "(b + 2 ^ k) XOR 2 ^ k = b"
proof -
  have d: "2 ^ Suc k dvd b" using assms by (simp add: block_ok_def)
  then have d': "2 ^ k dvd b" by (meson dvd_trans le_imp_power_dvd le_Suc_eq order_refl)
  then show "block_ok n b k" "block_ok n (b + 2 ^ k) k"
    using assms by (auto simp: block_ok_def)
  have "b XOR 2 ^ k = b + 2 ^ k"
  proof (rule ccontr)
    assume "b XOR 2 ^ k \<noteq> b + 2 ^ k"
    then have "b = (b XOR 2 ^ k) + 2 ^ k" "2 ^ Suc k dvd b XOR 2 ^ k" using xor_buddy [OF d'] by auto
    then have "2 ^ Suc k dvd (2::nat) ^ k" using d by (metis dvd_add_right_iff)
    then show False by (auto dest: dvd_imp_le)
  qed
  then show "(b + 2 ^ k) XOR 2 ^ k = b" by (metis xor.assoc xor_self_eq xor.right_neutral)
qed

lemma split_block_off:
  assumes "buddy_off fl (frames_of b k) s" "block_ok (buddy_total_pages s) b k" "t \<le> k"
  shows "(\<exists>fl'. buddy_off fl' (frames_of b t) (split_block b k t s)) \<and>
    (\<forall>i. i \<notin> frames_of b k \<longrightarrow> frame_array (split_block b k t s) i = frame_array s i) \<and>
    (\<forall>i\<in>frames_of b k - frames_of b t. is_free (frame_array (split_block b k t s) i)) \<and>
    (\<forall>c. c \<notin> list_area s (free_frames s \<union> frames_of b k) \<longrightarrow> mem (split_block b k t s) c = mem s c) \<and>
    block_ok (buddy_total_pages s) b t"
  using assms
proof (induction k arbitrary: s fl)
  case 0
  then show ?case by (auto simp: split_block.simps)
next
  case (Suc k)
  show ?case
  proof (cases "t = Suc k")
    case True
    with Suc.prems show ?thesis by (auto simp: split_block.simps)
  next
    case False
    let ?s = "block_push (b + 2 ^ k) k s"
    note h = halves_ok [OF Suc.prems(2)] lower_half [of b k]
    have t: "t \<le> k" using False Suc.prems(3) by simp
    have step: "split_block b (Suc k) t s = split_block b k t ?s"
      using t by (subst split_block.simps) simp
    have "buddy_off (fl(k := (b + 2 ^ k) # fl k)) (frames_of b (Suc k) - frames_of (b + 2 ^ k) k) ?s"
      using Suc.prems(1) h by (intro block_push_off) (auto simp: free_heads_def)
    moreover have "frames_of b (Suc k) - frames_of (b + 2 ^ k) k = frames_of b k" using h by blast
    ultimately have IH: "(\<exists>fl'. buddy_off fl' (frames_of b t) (split_block b k t ?s)) \<and>
      (\<forall>i. i \<notin> frames_of b k \<longrightarrow> frame_array (split_block b k t ?s) i = frame_array ?s i) \<and>
      (\<forall>i\<in>frames_of b k - frames_of b t. is_free (frame_array (split_block b k t ?s) i)) \<and>
      (\<forall>c. c \<notin> list_area ?s (free_frames ?s \<union> frames_of b k) \<longrightarrow> mem (split_block b k t ?s) c = mem ?s c) \<and>
      block_ok (buddy_total_pages ?s) b t"
      using h t by (intro Suc.IH) auto
    have "free_frames ?s \<union> frames_of b k \<subseteq> free_frames s \<union> frames_of b (Suc k)"
      using h by (auto simp: free_frames_def block_push_frames)
    then have mem: "mem (split_block b k t ?s) c = mem s c"
      if "c \<notin> list_area s (free_frames s \<union> frames_of b (Suc k))" for c
      using IH list_area_mono [of _ _ c s] block_push_mem [OF Suc.prems(1), of "b + 2 ^ k" k c] h that by auto
    have "is_free (frame_array ?s i)" if "i \<in> frames_of (b + 2 ^ k) k" for i
      using that order_is_free order_small [OF h(1)] by (auto simp: block_push_frames)
    then show ?thesis unfolding step using IH h mem by (auto simp: block_push_frames)
  qed
qed

lemma split_block_fields [simp]:
  "idx_to_addr (split_block b k t s) = idx_to_addr s" "free_list_head (split_block b k t s) = free_list_head s"
  "safe_page (split_block b k t s) = safe_page s" "geometry (split_block b k t s) = geometry s"
  "buddy_total_pages (split_block b k t s) = buddy_total_pages s" "ref_count (split_block b k t s) = ref_count s"
  by (induction k arbitrary: s; subst split_block.simps; simp)+

subsection \<open>Marking a block allocated\<close>

lemma mark_allocated_off:
  assumes inv: "buddy_off fl (frames_of b k) s" and ok: "block_ok (buddy_total_pages s) b k"
  shows "buddy_off fl {} (mark_allocated b k s)"
proof -
  let ?s = "mark_allocated b k s" and ?n = "buddy_total_pages s"
  have n: "?n \<le> 2 ^ 22" and rc: "ref_count_ptr s \<noteq> NULL"
    using buddy_off_D(1) [OF inv] by (auto simp: geometry_def)
  have fr: "frame_array ?s j = (if j \<in> frames_of b k then ALLOC_TAG b k else frame_array s j)"
    and rf: "ref_count ?s j = (if j \<in> frames_of b k then 1 else ref_count s j)" for j
    using rc by (auto simp: mark_allocated_def fill_apply frames_of_def)
  have geo [simp]: "geometry ?s = geometry s" "idx_to_addr ?s = idx_to_addr s" "mem ?s = mem s"
    "free_list_head ?s = free_list_head s" "safe_page ?s = safe_page s" "buddy_total_pages ?s = ?n"
    by (auto simp: mark_allocated_def)
  have tile: "alloc_tile (frame_array ?s) b k" by (simp add: alloc_tile_def fr)
  have nf: "\<not> is_free (frame_array ?s i)" if "i \<in> frames_of b k" for i
    using alloc_tile_alloc [OF tile ok n that] by blast
  have heads: "free_heads ?s {} l = free_heads s (frames_of b k) l" if "l \<le> MAX_ORDER" for l
    using nf order_is_free(1) [of l] that by (fastforce simp: free_heads_def MAX_ORDER_def fr)
  have "tiled_off ?n (frame_array ?s) (frames_of b k - frames_of b k)"
    using ok tile by (intro tiled_off_fill [OF buddy_off_D(2) [OF inv]]) (auto simp: is_block_def fr)
  moreover have "lists_ok fl {} ?s"
    using buddy_off_D(3) [OF inv] heads by (simp add: lists_ok_def)
  moreover have "pages_safe {} ?s"
    using buddy_off_D(4) [OF inv] nf by (auto simp: pages_safe_def fr)
  moreover have "coalesced {} ?s"
    using buddy_off_D(5) [OF inv] heads by (simp add: coalesced_def)
  moreover have "refs_ok {} ?s"
    using buddy_off_D(6) [OF inv] by (auto simp: refs_ok_def fr rf split: if_splits)
  ultimately show ?thesis using buddy_off_D(1) [OF inv] by (simp add: buddy_off_def)
qed

subsection \<open>Searching a free list\<close>

lemma search_order_least:
  assumes inv: "buddy_off fl {} s"
  shows "t \<le> search_order s t \<and> (\<forall>k. t \<le> k \<and> k < search_order s t \<and> k \<le> MAX_ORDER \<longrightarrow> free_heads s {} k = {}) \<and>
    (search_order s t \<le> MAX_ORDER \<longrightarrow> free_heads s {} (search_order s t) \<noteq> {})"
proof (induction s\<equiv>s t rule: search_order.induct)
  case (1 t)
  have e: "t \<le> MAX_ORDER \<Longrightarrow> list_empty (free_list_head s t) (mem s) \<longleftrightarrow> free_heads s {} t = {}"
    using list_empty_iff [OF list_nodes(2) [OF inv, of t]] list_nodes(3) [OF inv, of t]
    by (metis map_is_Nil_conv set_empty)
  show ?case
  proof (cases "t \<le> MAX_ORDER \<and> list_empty (free_list_head s t) (mem s)")
    case True
    then have "search_order s t = search_order s (t + 1)" by (subst search_order.simps) simp
    moreover have "free_heads s {} k = {}" if "t \<le> k" "k < search_order s (t + 1)" "k \<le> MAX_ORDER" for k
      using that 1 [OF True] True e by (cases "k = t") auto
    ultimately show ?thesis using 1 [OF True] by auto
  next
    case False
    then have "search_order s t = t" by (subst search_order.simps) auto
    then show ?thesis using False e by auto
  qed
qed

lemma first_block:
  assumes inv: "buddy_off fl {} s" and k: "k \<le> MAX_ORDER" and ne: "free_heads s {} k \<noteq> {}"
  shows "list_head_to_idx s (lh_next (mem s) (free_list_head s k)) \<in> free_heads s {} k"
proof -
  obtain b bs where b: "fl k = b # bs" using ne list_nodes(3) [OF inv k] by (cases "fl k") auto
  then have "lh_next (mem s) (free_list_head s k) = idx_to_addr s b"
    using clist_first [of "mem s"] list_nodes(2) [OF inv k] by simp
  moreover have "b \<in> free_heads s {} k" using b list_nodes(3) [OF inv k] by auto
  ultimately show ?thesis
    using free_heads_safe [OF inv k, of b] by (simp add: list_head_to_idx_def addr_to_idx_inverse)
qed


subsection \<open>Coalescing\<close>

lemma merge_ok:
  assumes "block_ok n b k" "(b XOR 2 ^ k) + 2 ^ k \<le> n" "k < MAX_ORDER"
  shows "b XOR 2 ^ k \<notin> frames_of b k"
    "frames_of (if b XOR 2 ^ k < b then b XOR 2 ^ k else b) (Suc k) = frames_of b k \<union> frames_of (b XOR 2 ^ k) k"
    "block_ok n (if b XOR 2 ^ k < b then b XOR 2 ^ k else b) (Suc k)"
proof -
  have p: "0 < (2::nat) ^ k" by simp
  consider "b XOR 2 ^ k = b + 2 ^ k" "2 ^ Suc k dvd b"
    | "b = (b XOR 2 ^ k) + 2 ^ k" "2 ^ Suc k dvd (b XOR 2 ^ k)"
    using xor_buddy [of k b] assms(1) by (auto simp: block_ok_def)
  then have "b XOR 2 ^ k \<notin> frames_of b k \<and>
    frames_of (if b XOR 2 ^ k < b then b XOR 2 ^ k else b) (Suc k) = frames_of b k \<union> frames_of (b XOR 2 ^ k) k \<and>
    block_ok n (if b XOR 2 ^ k < b then b XOR 2 ^ k else b) (Suc k)"
  proof cases
    case 1
    with assms p show ?thesis by (auto simp: frames_of_def block_ok_def)
  next
    case 2
    define x where "x = b XOR 2 ^ k"
    have b: "b = x + 2 ^ k" "2 ^ Suc k dvd x" using 2 unfolding x_def by auto
    with assms p show ?thesis unfolding x_def [symmetric] by (auto simp: frames_of_def block_ok_def)
  qed
  then show "b XOR 2 ^ k \<notin> frames_of b k"
    "frames_of (if b XOR 2 ^ k < b then b XOR 2 ^ k else b) (Suc k) = frames_of b k \<union> frames_of (b XOR 2 ^ k) k"
    "block_ok n (if b XOR 2 ^ k < b then b XOR 2 ^ k else b) (Suc k)"
    by blast+
qed

definition coalesce_post :: "nat \<Rightarrow> nat \<Rightarrow> 'a buddy_state_scheme \<Rightarrow> nat \<Rightarrow> nat \<Rightarrow> 'a buddy_state_scheme \<Rightarrow> bool" where
  "coalesce_post b k s b' k' s' \<longleftrightarrow>
     (\<exists>fl'. buddy_off fl' (frames_of b' k') s') \<and> block_ok (buddy_total_pages s) b' k' \<and>
     frames_of b k \<subseteq> frames_of b' k' \<and> s' = s\<lparr>mem := mem s'\<rparr> \<and>
     (\<forall>i\<in>frames_of b' k' - frames_of b k. is_free (frame_array s i)) \<and>
     (k' < MAX_ORDER \<longrightarrow> b' XOR 2 ^ k' \<notin> free_heads s' (frames_of b' k') k') \<and>
     (\<forall>c. c \<notin> list_area s (free_frames s \<union> frames_of b k) \<longrightarrow> mem s' c = mem s c)"

lemma coalesce_off:
  assumes "buddy_off fl (frames_of b k) s" "block_ok (buddy_total_pages s) b k" "coalesce b k s = (b', k', s')"
  shows "coalesce_post b k s b' k' s'"
  using assms
proof (induction b k s arbitrary: fl rule: coalesce.induct)
  case (1 b k s)
  let ?x = "b XOR 2 ^ k" and ?n = "buddy_total_pages s"
  let ?R = "frames_of b k"
  show ?case
  proof (cases "k < MAX_ORDER \<and> ?x < ?n \<and> frame_array s ?x = int k")
    case False
    then have "coalesce b k s = (b, k, s)" by (subst coalesce.simps) (auto simp: Let_def)
    moreover have "k < MAX_ORDER \<Longrightarrow> ?x \<notin> free_heads s ?R k" using False by (auto simp: free_heads_def)
    ultimately show ?thesis using 1 by (auto simp: coalesce_post_def)
  next
    case True
    let ?b = "if ?x < b then ?x else b" and ?s = "block_pop ?x k s"
    have k: "k \<le> MAX_ORDER" using True by simp
    have "?x \<noteq> b + 2 ^ k \<Longrightarrow> b = ?x + 2 ^ k"
      using xor_buddy [of k b] "1.prems"(2) by (auto simp: block_ok_def)
    then have "?x \<notin> ?R" by (cases "?x = b + 2 ^ k") (auto simp: frames_of_def)
    then have x: "?x \<in> free_heads s ?R k" using True by (simp add: free_heads_def)
    note fb = free_head_block [OF "1.prems"(1) k x]
    have m: "frames_of ?b (Suc k) = ?R \<union> frames_of ?x k" "block_ok ?n ?b (Suc k)"
      using merge_ok [OF "1.prems"(2)] fb(1) True by (auto simp: block_ok_def)
    have eq: "coalesce ?b (k + 1) ?s = (b', k', s')"
      using "1.prems"(3) True by (subst (asm) coalesce.simps) (auto simp: Let_def)
    have "buddy_off (fl(k := remove1 ?x (fl k))) (frames_of ?b (k + 1)) ?s"
      using block_pop_off [OF "1.prems"(1) k x] m(1) by simp
    then have post: "coalesce_post ?b (k + 1) ?s b' k' s'"
      using "1.IH" [OF _ refl] True eq m(2) by auto
    have free: "is_free (frame_array s i)" if "i \<in> frames_of ?x k" for i
      using free_tile_free [OF fb(2) order_small [OF fb(1)] that] .
    then have sub: "free_frames s \<union> frames_of ?b (k + 1) \<subseteq> free_frames s \<union> ?R"
      using m(1) block_bound [OF fb(1)] by (auto simp: free_frames_def)
    have ff: "free_frames ?s = free_frames s" by (simp add: free_frames_def)
    have "mem s' c = mem s c" if c: "c \<notin> list_area s (free_frames s \<union> ?R)" for c
    proof -
      have "c \<notin> list_area ?s (free_frames ?s \<union> frames_of ?b (k + 1))"
        unfolding ff list_area_upd by (rule list_area_mono [OF sub c])
      then show ?thesis
        using post block_pop_mem [OF "1.prems"(1) k x c] unfolding coalesce_post_def by metis
    qed
    moreover have "s' = s\<lparr>mem := mem s'\<rparr>"
    proof -
      have "s' = ?s\<lparr>mem := mem s'\<rparr>" using post unfolding coalesce_post_def by blast
      also have "?s\<lparr>mem := mem s'\<rparr> = s\<lparr>mem := mem s'\<rparr>" by (simp add: block_pop_def)
      finally show ?thesis .
    qed
    moreover have "frames_of b k \<subseteq> frames_of b' k'"
      "\<forall>i\<in>frames_of b' k' - frames_of b k. is_free (frame_array s i)"
      using post m(1) free unfolding coalesce_post_def block_pop_fields by auto
    ultimately show ?thesis using post unfolding coalesce_post_def block_pop_fields by blast
  qed
qed

end
