(* ===== verification/Buddy_Correct.thy ===== *)
theory Buddy_Correct
  imports Buddy_Inv
begin

text \<open>
  What the page-frame allocator promises: the effect of \<^verbatim>\<open>buddy_alloc\<close>, \<^verbatim>\<open>buddy_free\<close> and the
  reference counters on free frames, tags, counters and memory, and that each keeps the
  invariant.
\<close>

subsection \<open>Orders\<close>

lemma pages_to_order_from_spec:
  assumes "block = 2 ^ order" "\<And>j. j < order \<Longrightarrow> 2 ^ j < pages"
  shows "pages \<le> 2 ^ pages_to_order_from block order pages \<and>
    (\<forall>j<pages_to_order_from block order pages. 2 ^ j < pages)"
  using assms
proof (induction block order pages rule: pages_to_order_from.induct)
  case (1 block order pages)
  show ?case
  proof (cases "block < pages")
    case True
    then have "pages_to_order_from block order pages = pages_to_order_from (2 * block) (order + 1) pages"
      using 1(2) by (subst pages_to_order_from.simps) simp
    moreover have "pages \<le> 2 ^ pages_to_order_from (2 * block) (order + 1) pages \<and>
      (\<forall>j<pages_to_order_from (2 * block) (order + 1) pages. 2 ^ j < pages)"
      using True 1 by (intro "1.IH") (auto simp: less_Suc_eq)
    ultimately show ?thesis by simp
  next
    case False
    then have "pages_to_order_from block order pages = order" by (subst pages_to_order_from.simps) simp
    then show ?thesis using False 1 by auto
  qed
qed

lemma pages_to_order_fits: "pages \<le> 2 ^ pages_to_order pages"
  using pages_to_order_from_spec [of 1 0 pages] by (simp add: pages_to_order_def)

lemma pages_to_order_least: "pages \<le> 2 ^ j \<Longrightarrow> pages_to_order pages \<le> j"
  using pages_to_order_from_spec [of 1 0 pages] by (fastforce simp: pages_to_order_def not_less [symmetric])

subsection \<open>Interrupt bit\<close>

lemma buddy_off_sie [simp]: "buddy_off fl R (s\<lparr>sie := e\<rparr>) = buddy_off fl R s"
  by (simp add: buddy_off_def lists_ok_def pages_safe_def coalesced_def refs_ok_def)

lemma buddy_inv_sie [simp]: "buddy_inv (s\<lparr>sie := e\<rparr>) = buddy_inv s"
  by (simp add: buddy_inv_def)

lemma free_frames_sie [simp]: "free_frames (s\<lparr>sie := e\<rparr>) = free_frames s"
  by (simp add: free_frames_def)

subsection \<open>Ownership\<close>

text \<open>The client owns an allocated block that does not hold the allocator's list heads.\<close>

definition owned :: "'a buddy_state_scheme \<Rightarrow> nat \<Rightarrow> nat \<Rightarrow> bool" where
  "owned s b k \<longleftrightarrow> block_ok (buddy_total_pages s) b k \<and> alloc_tile (frame_array s) b k \<and>
     (\<forall>i\<in>frames_of b k. safe_page s i)"

lemma owned_sie [simp]: "owned (s\<lparr>sie := e\<rparr>) = owned s"
  by (auto simp: owned_def fun_eq_iff)

lemma addr_unat:
  assumes "geometry s" "i \<le> buddy_total_pages s"
  shows "unat (idx_to_addr s i) = unat (buddy_base_addr s) + i * 4096"
proof -
  have "i * 4096 < 2 ^ 64" using assms by (auto simp: geometry_def)
  then have "unat (of_nat (i * 4096) :: u64) = i * 4096" by (rule unat_of_nat_small)
  moreover have "unat (buddy_base_addr s) + i * 4096 < 2 ^ 64"
    using assms by (auto simp: geometry_def intro: le_less_trans [rotated])
  ultimately show ?thesis
    unfolding idx_to_addr_of_nat by (subst unat_add_nowrap) auto
qed

lemma addr_in_range:
  assumes "geometry s" "i < buddy_total_pages s"
  shows "idx_to_addr s i \<noteq> NULL" "buddy_base_addr s \<le> idx_to_addr s i" "idx_to_addr s i < buddy_end_addr s"
proof -
  have e: "buddy_end_addr s = idx_to_addr s (buddy_total_pages s)" using assms by (simp add: geometry_def)
  note u = addr_unat [OF assms(1), of i] addr_unat [OF assms(1), of "buddy_total_pages s"]
  have "unat (idx_to_addr s i) \<noteq> unat NULL"
    using u(1) assms by (auto simp: geometry_def)
  then show "idx_to_addr s i \<noteq> NULL" by metis
  show "buddy_base_addr s \<le> idx_to_addr s i" using u(1) assms by (simp add: word_le_nat_alt)
  show "idx_to_addr s i < buddy_end_addr s"
    unfolding e using u assms by (simp add: word_less_nat_alt)
qed

text \<open>The memory of a safe page that is not on a list is not used by the allocator.\<close>

lemma page_not_list:
  assumes g: "geometry s" and i: "i < buddy_total_pages s" "i \<notin> A" "safe_page s i"
    and A: "A \<subseteq> {..<buddy_total_pages s}"
    and c: "unat (idx_to_addr s i) \<le> unat c" "unat c < unat (idx_to_addr s i) + 4096"
  shows "c \<notin> list_area s A"
proof
  assume "c \<in> list_area s A"
  then consider k where "k \<le> MAX_ORDER" "c \<in> cells (free_list_head s k)" | j where "j \<in> A" "c \<in> cells (idx_to_addr s j)"
    by (auto simp: list_area_def)
  then show False
  proof cases
    case 1
    then have "unat (free_list_head s k) + 16 \<le> 2 ^ 64" "unat (free_list_head s k) + 16 \<le> unat (idx_to_addr s i) \<or>
        unat (idx_to_addr s i) + 4096 \<le> unat (free_list_head s k)"
      using i(3) by (auto simp: safe_page_def)
    moreover then have "unat (free_list_head s k + 8) = unat (free_list_head s k) + 8"
      by (simp add: unat_add_nowrap)
    ultimately show ?thesis using 1 c by (auto simp: cells_def)
  next
    case 2
    then have j: "j < buddy_total_pages s" "j \<noteq> i" using A i by auto
    then have a: "unat (idx_to_addr s j) = unat (buddy_base_addr s) + j * 4096"
      "unat (idx_to_addr s i) = unat (buddy_base_addr s) + i * 4096"
      using addr_unat [OF g] i by simp_all
    then have "unat (idx_to_addr s j + 8) = unat (idx_to_addr s j) + 8"
      using g j by (simp add: unat_add_nowrap geometry_def)
    then have "unat c = unat (buddy_base_addr s) + j * 4096 \<or> unat c = unat (buddy_base_addr s) + j * 4096 + 8"
      using 2 a by (auto simp: cells_def)
    moreover have "i * 4096 + 4096 \<le> j * 4096 \<or> j * 4096 + 4096 \<le> i * 4096" using pages_apart [of i j] j(2) by blast
    ultimately show ?thesis using c unfolding a by linarith
  qed
qed

subsection \<open>Allocation\<close>

definition alloc_order :: "u64 \<Rightarrow> nat" where
  "alloc_order sz = pages_to_order (unat ((sz + PAGE_SIZE - 1) div PAGE_SIZE))"

text \<open>A request can be served when some free block is large enough.\<close>

definition can_serve :: "'a buddy_state_scheme \<Rightarrow> u64 \<Rightarrow> bool" where
  "can_serve s sz \<longleftrightarrow> sz \<noteq> 0 \<and> (\<exists>k. alloc_order sz \<le> k \<and> k \<le> MAX_ORDER \<and> free_heads s {} k \<noteq> {})"

definition alloc_effect :: "'a buddy_state_scheme \<Rightarrow> nat \<Rightarrow> nat \<Rightarrow> 'a buddy_state_scheme \<Rightarrow> bool" where
  "alloc_effect s b k s' \<longleftrightarrow>
     buddy_inv s' \<and> owned s' b k \<and> frames_of b k \<subseteq> free_frames s \<and>
     free_frames s' = free_frames s - frames_of b k \<and>
     (\<forall>i\<in>frames_of b k. ref_count s' i = 1) \<and>
     (\<forall>i. i \<notin> frames_of b k \<longrightarrow> ref_count s' i = ref_count s i) \<and>
     (\<forall>i<buddy_total_pages s. i \<notin> free_frames s \<longrightarrow> frame_array s' i = frame_array s i) \<and>
     (\<forall>c. c \<notin> list_area s (free_frames s) \<longrightarrow> mem s' c = mem s c)"

lemma steps_fields [simp]:
  "buddy_total_pages (mark_allocated b k s) = buddy_total_pages s" "safe_page (mark_allocated b k s) = safe_page s"
  "geometry (mark_allocated b k s) = geometry s" "free_list_head (mark_allocated b k s) = free_list_head s"
  "buddy_base_addr (block_push b k s) = buddy_base_addr s" "buddy_base_addr (block_pop b k s) = buddy_base_addr s"
  "buddy_base_addr (mark_allocated b k s) = buddy_base_addr s" "sie (block_push b k s) = sie s"
  "sie (block_pop b k s) = sie s" "sie (mark_allocated b k s) = sie s"
  "idx_to_addr (mark_allocated b k s) = idx_to_addr s"
  by (simp_all add: block_push_def block_pop_def mark_allocated_def Let_def)

lemma split_block_sie [simp]: "sie (split_block b k t s) = sie s"
  by (induction k arbitrary: s; subst split_block.simps; simp)

lemma take_block_effect:
  assumes inv: "buddy_off fl {} s" and k: "k \<le> MAX_ORDER" and b: "b \<in> free_heads s {} k" and t: "t \<le> k"
  shows "alloc_effect s b t (mark_allocated b t (split_block b k t (block_pop b k s)))"
proof -
  let ?s1 = "block_pop b k s" let ?s2 = "split_block b k t ?s1" let ?s = "mark_allocated b t ?s2"
  note fb = free_head_block [OF inv k b]
  have o1: "buddy_off (fl(k := remove1 b (fl k))) (frames_of b k) ?s1"
    using block_pop_off [OF inv k b] by simp
  note sp = split_block_off [OF o1 _ t, unfolded block_pop_fields, OF fb(1)]
  then obtain fl2 where o2: "buddy_off fl2 (frames_of b t) ?s2" by blast
  have ok: "block_ok (buddy_total_pages ?s2) b t" using sp by simp
  have o3: "buddy_off fl2 {} ?s" by (rule mark_allocated_off [OF o2 ok])
  have n: "buddy_total_pages s \<le> 2 ^ 22" using buddy_off_D(1) [OF inv] by (simp add: geometry_def)
  have free: "is_free (frame_array s i) \<and> i < buddy_total_pages s" if "i \<in> frames_of b k" for i
    using free_tile_free [OF fb(2) order_small [OF fb(1)] that] block_bound [OF fb(1) that] by blast
  have tk: "frames_of b t \<subseteq> frames_of b k"
    using t by (auto simp: frames_of_def intro: less_le_trans power_increasing)
  have fr: "frame_array ?s i = (if i \<in> frames_of b t then ALLOC_TAG b t else frame_array ?s2 i)" for i
    by (auto simp: mark_allocated_def fill_apply frames_of_def)
  have out: "frame_array ?s i = frame_array s i" if "i \<notin> frames_of b k" for i
    using that sp tk by (auto simp: fr)
  have "mem ?s c = mem s c" if c: "c \<notin> list_area s (free_frames s)" for c
  proof -
    have "free_frames ?s1 \<union> frames_of b k = free_frames s" using free by (auto simp: free_frames_def)
    then have "mem ?s2 c = mem ?s1 c" using sp c by simp
    then show ?thesis using block_pop_mem [OF inv k b] c by (simp add: mark_allocated_def)
  qed
  moreover have tile: "alloc_tile (frame_array ?s) b t" by (simp add: alloc_tile_def fr)
  moreover have "safe_page s i" if "i \<in> frames_of b t" for i
    using buddy_off_D(4) [OF inv] free that tk by (auto simp: pages_safe_def)
  moreover have rest: "is_free (frame_array ?s i)" if "i \<in> frames_of b k" "i \<notin> frames_of b t" for i
    using that sp by (simp add: fr)
  moreover have "\<not> is_free (frame_array ?s i)" if "i \<in> frames_of b t" for i
    using alloc_tile_alloc [OF tile _ n that] ok unfolding block_pop_fields split_block_fields by blast
  then have "free_frames ?s = free_frames s - frames_of b t"
    using rest out free by (fastforce simp: free_frames_def mark_allocated_def)
  moreover have "ref_count_ptr ?s2 \<noteq> NULL" using buddy_off_D(1) [OF o2] by (simp add: geometry_def)
  then have "ref_count ?s i = (if i \<in> frames_of b t then 1 else ref_count s i)" for i
    by (simp add: mark_allocated_def fill_apply frames_of_def)
  moreover have "frames_of b t \<subseteq> free_frames s" using free tk by (auto simp: free_frames_def)
  moreover have "frame_array ?s i = frame_array s i" if "i < buddy_total_pages s" "i \<notin> free_frames s" for i
    using that free out by (auto simp: free_frames_def)
  ultimately show ?thesis
    using o3 ok by (auto simp: alloc_effect_def buddy_inv_def owned_def)
qed


lemma alloc_effect_sie [simp]:
  "alloc_effect (s\<lparr>sie := e\<rparr>) b k s' = alloc_effect s b k s'"
  "alloc_effect s b k (s'\<lparr>sie := e\<rparr>) = alloc_effect s b k s'"
  by (simp_all add: alloc_effect_def)

lemma alloc_order_bound: "free_heads s {} k \<noteq> {} \<Longrightarrow> k \<le> MAX_ORDER \<Longrightarrow> alloc_order sz \<le> k \<Longrightarrow> alloc_order sz \<le> MAX_ORDER"
  by simp

lemma buddy_alloc_cases:
  assumes inv: "buddy_inv s"
  shows "if can_serve s sz
    then \<exists>b. fst (buddy_alloc sz s) = idx_to_addr s b \<and>
             alloc_effect s b (alloc_order sz) (snd (buddy_alloc sz s)) \<and> sie (snd (buddy_alloc sz s)) = sie s
    else buddy_alloc sz s = (NULL, s)"
proof -
  obtain fl where "buddy_off fl {} s" using inv by (auto simp: buddy_inv_def)
  then have off: "buddy_off fl {} (s\<lparr>sie := False\<rparr>)" (is "buddy_off fl {} ?s") by simp
  let ?t = "alloc_order sz"
  let ?k = "search_order ?s ?t"
  note srch = search_order_least [OF off, of ?t]
  have ser: "can_serve s sz \<longleftrightarrow> sz \<noteq> 0 \<and> ?t \<le> MAX_ORDER \<and> ?k \<le> MAX_ORDER"
  proof
    assume "can_serve s sz"
    then obtain k where k: "sz \<noteq> 0" "?t \<le> k" "k \<le> MAX_ORDER" "free_heads s {} k \<noteq> {}"
      by (auto simp: can_serve_def)
    then have "\<not> k < ?k" using srch by auto
    with k show "sz \<noteq> 0 \<and> ?t \<le> MAX_ORDER \<and> ?k \<le> MAX_ORDER" by simp
  next
    assume "sz \<noteq> 0 \<and> ?t \<le> MAX_ORDER \<and> ?k \<le> MAX_ORDER"
    then show "can_serve s sz" using srch by (auto simp: can_serve_def)
  qed
  show ?thesis
  proof (cases "can_serve s sz")
    case True
    then have k: "sz \<noteq> 0" "?t \<le> MAX_ORDER" "?k \<le> MAX_ORDER" using ser by auto
    define b where "b = list_head_to_idx ?s (lh_next (mem ?s) (free_list_head ?s ?k))"
    have b: "b \<in> free_heads ?s {} ?k"
      unfolding b_def using srch k by (intro first_block [OF off]) auto
    let ?s' = "mark_allocated b ?t (split_block b ?k ?t (block_pop b ?k ?s))"
    have "alloc_effect ?s b ?t ?s'"
      using srch by (intro take_block_effect [OF off k(3) b]) blast
    moreover have "buddy_alloc sz s = (idx_to_addr s b, ?s'\<lparr>sie := sie s\<rparr>)"
      using k by (simp add: buddy_alloc_def irq_defs Let_def alloc_order_def b_def)
    ultimately show ?thesis using True by auto
  next
    case False
    then show ?thesis
      using ser by (auto simp: buddy_alloc_def irq_defs Let_def alloc_order_def split: prod.splits)
  qed
qed

subsection \<open>Freeing\<close>

lemma tiled_off_cong:
  assumes "\<And>i. i \<notin> R \<Longrightarrow> f' i = f i" and "tiled_off n f R"
  shows "tiled_off n f' R"
  unfolding tiled_off_def
proof (intro allI impI)
  fix i assume "i < n" "i \<notin> R"
  then obtain b k where "is_block n f b k" "i \<in> frames_of b k" "frames_of b k \<inter> R = {}"
    using assms(2) unfolding tiled_off_def by blast
  moreover then have "is_block n f' b k" by (subst tile_cong) (auto intro!: assms(1))
  ultimately show "\<exists>b k. is_block n f' b k \<and> i \<in> frames_of b k \<and> frames_of b k \<inter> R = {}" by blast
qed

text \<open>Erasing the tag of an owned block opens a hole.\<close>

lemma open_block:
  assumes inv: "buddy_off fl {} s" and own: "owned s b k"
    and r: "\<And>i. i \<notin> frames_of b k \<Longrightarrow> r i = ref_count s i"
    and f: "\<And>i. i \<notin> frames_of b k \<Longrightarrow> f i = frame_array s i"
  shows "buddy_off fl (frames_of b k) (s\<lparr>ref_count := r, frame_array := f\<rparr>)" (is "buddy_off fl ?R ?s")
proof -
  have n: "buddy_total_pages s \<le> 2 ^ 22" using buddy_off_D(1) [OF inv] by (simp add: geometry_def)
  have ok: "block_ok (buddy_total_pages s) b k" and tile: "alloc_tile (frame_array s) b k"
    and safe: "\<forall>i\<in>?R. safe_page s i"
    using own by (auto simp: owned_def)
  have nf: "\<not> is_free (frame_array s i)" if "i \<in> ?R" for i
    using alloc_tile_alloc [OF tile ok n that] by blast
  have heads: "free_heads ?s ?R l = free_heads s {} l" if "l \<le> MAX_ORDER" for l
  proof (rule set_eqI)
    fix i
    have "is_free (int l)" using order_is_free(1) [of l] that by (simp add: MAX_ORDER_def)
    then have "frame_array s i = int l \<Longrightarrow> i \<notin> ?R" using nf [of i] by metis
    then show "i \<in> free_heads ?s ?R l \<longleftrightarrow> i \<in> free_heads s {} l"
      using f [of i] by (cases "i \<in> ?R") (simp_all add: free_heads_def, blast)
  qed
  have "tiled_off (buddy_total_pages s) (frame_array s) ({} \<union> ?R)"
    using ok tile by (intro tiled_off_grow [OF buddy_off_D(2) [OF inv] n]) (simp add: is_block_def)
  then have "tiled_off (buddy_total_pages s) (frame_array s) ?R" by simp
  then have "tiled_off (buddy_total_pages s) f ?R" by (rule tiled_off_cong [rotated]) (rule f)
  moreover have "lists_ok fl ?R ?s"
    using buddy_off_D(3) [OF inv] heads by (simp add: lists_ok_def)
  moreover have "pages_safe ?R ?s"
    using buddy_off_D(4) [OF inv] f safe by (auto simp: pages_safe_def)
  moreover have "coalesced ?R ?s"
    using buddy_off_D(5) [OF inv] heads by (simp add: coalesced_def)
  moreover have "refs_ok ?R ?s"
    unfolding refs_ok_def
  proof (intro allI impI)
    fix c l assume "block_ok (buddy_total_pages ?s) c l \<and> c \<notin> ?R \<and> frame_array ?s c = ALLOC_TAG c l"
    then show "1 \<le> ref_count ?s c"
      using buddy_off_D(6) [OF inv] f [of c] r [of c] by (simp add: refs_ok_def) metis
  qed
  ultimately show ?thesis using buddy_off_D(1) [OF inv] by (simp add: buddy_off_def)
qed

definition free_effect :: "'a buddy_state_scheme \<Rightarrow> nat \<Rightarrow> nat \<Rightarrow> 'a buddy_state_scheme \<Rightarrow> bool" where
  "free_effect s b k s' \<longleftrightarrow>
     buddy_inv s' \<and> free_frames s' = free_frames s \<union> frames_of b k \<and>
     (\<forall>i<buddy_total_pages s. i \<notin> free_frames s \<union> frames_of b k \<longrightarrow> frame_array s' i = frame_array s i) \<and>
     (\<forall>i. i \<notin> frames_of b k \<longrightarrow> ref_count s' i = ref_count s i) \<and>
     (\<forall>c. c \<notin> list_area s (free_frames s \<union> frames_of b k) \<longrightarrow> mem s' c = mem s c)"

lemma release_block_effect:
  assumes inv: "buddy_off fl {} s" and own: "owned s b k"
    and r: "\<And>i. i \<notin> frames_of b k \<Longrightarrow> r i = ref_count s i"
  shows "free_effect s b k (release_block b (s\<lparr>ref_count := r\<rparr>))"
proof -
  let ?n = "buddy_total_pages s" and ?R = "frames_of b k"
  let ?f = "fill b 0 (2 ^ k) FRAME_FREE_PART (frame_array s)"
  let ?s1 = "s\<lparr>ref_count := r, frame_array := ?f\<rparr>"
  have n: "?n \<le> 2 ^ 22" using buddy_off_D(1) [OF inv] by (simp add: geometry_def)
  have ok: "block_ok ?n b k" and tile: "alloc_tile (frame_array s) b k" using own by (auto simp: owned_def)
  have tag: "GET_ALLOC_ORDER (frame_array s b) = k"
    using tag_order [of b k] order_small [OF ok] block_bound [OF ok block_head] n tile
    by (auto simp: alloc_tile_def)
  have f: "?f i = (if i \<in> ?R then FRAME_FREE_PART else frame_array s i)" for i
    by (auto simp: fill_apply frames_of_def)
  have o1: "buddy_off fl ?R ?s1" using f r by (intro open_block [OF inv own]) auto
  obtain b' k' s2 where co: "coalesce b k ?s1 = (b', k', s2)" by (metis surj_pair)
  have post: "coalesce_post b k ?s1 b' k' s2" using coalesce_off [OF o1 _ co] ok by simp
  then obtain fl2 where o2: "buddy_off fl2 (frames_of b' k') s2" unfolding coalesce_post_def by blast
  let ?s = "block_push b' k' s2"
  have rel: "release_block b (s\<lparr>ref_count := r\<rparr>) = ?s"
    using tag co by (simp add: release_block_def Let_def)
  have s2: "s2 = ?s1\<lparr>mem := mem s2\<rparr>" using post unfolding coalesce_post_def by blast
  have flds: "buddy_total_pages s2 = ?n" "frame_array s2 = ?f" "ref_count s2 = r"
    "idx_to_addr s2 = idx_to_addr s" "free_list_head s2 = free_list_head s"
    by (rule trans [OF arg_cong [OF s2]], simp)+
  have la: "list_area s2 = list_area s" by (simp add: fun_eq_iff list_area_def flds)
  have ok2: "block_ok (buddy_total_pages s2) b' k'" using post flds by (simp add: coalesce_post_def)
  have o3: "buddy_off (fl2(k' := b' # fl2 k')) (frames_of b' k' - frames_of b' k') ?s"
    using post by (intro block_push_off [OF o2 ok2]) (auto simp: coalesce_post_def)
  have sub: "?R \<subseteq> frames_of b' k'"
    and merged: "\<forall>i\<in>frames_of b' k' - ?R. is_free (frame_array s i)"
    using post f by (auto simp: coalesce_post_def)
  have mf: "free_frames s2 \<union> frames_of b' k' = free_frames s \<union> ?R"
    using block_bound [OF ok2] block_bound [OF ok] sub merged order_is_free(2)
    by (auto simp: free_frames_def flds f)
  have push_free: "is_free (frame_array ?s i)" if "i \<in> frames_of b' k'" for i
    using that order_is_free order_small [OF ok2] by (auto simp: block_push_frames)
  have "b' \<in> frames_of b' k'" by simp
  then have push_out: "frame_array ?s i = frame_array s2 i" if "i \<notin> frames_of b' k'" for i
    using that by (auto simp: block_push_frames)
  have "free_frames ?s = free_frames s2 \<union> frames_of b' k'"
  proof (rule set_eqI)
    fix i
    show "i \<in> free_frames ?s \<longleftrightarrow> i \<in> free_frames s2 \<union> frames_of b' k'"
      using push_free [of i] push_out [of i] block_bound [OF ok2, of i]
      by (cases "i \<in> frames_of b' k'") (simp_all add: free_frames_def)
  qed
  then have ff: "free_frames ?s = free_frames s \<union> ?R" by (simp only: mf)
  have "mem ?s c = mem s c" if c: "c \<notin> list_area s (free_frames s \<union> ?R)" for c
  proof -
    have "mem ?s c = mem s2 c"
      using c mf la by (intro block_push_mem [OF o2 ok2]) auto
    moreover have "free_frames ?s1 \<union> ?R = free_frames s \<union> ?R" by (auto simp: free_frames_def f)
    then have "mem s2 c = mem s c" using post c by (simp add: coalesce_post_def)
    ultimately show ?thesis by simp
  qed
  moreover have "frame_array ?s i = frame_array s i" if "i < ?n" "i \<notin> free_frames s \<union> ?R" for i
  proof -
    have "i \<notin> frames_of b' k'" "i \<notin> ?R" using that mf by blast+
    then show ?thesis using push_out [of i] f [of i] by (simp add: flds)
  qed
  ultimately show ?thesis
    using o3 ff r by (auto simp: rel free_effect_def buddy_inv_def flds)
qed

lemma release_block_self: "release_block b s = release_block b (s\<lparr>ref_count := ref_count s\<rparr>)"
  by simp

lemma free_effect_sie [simp]:
  "free_effect (s\<lparr>sie := e\<rparr>) b k s' = free_effect s b k s'"
  "free_effect s b k (s'\<lparr>sie := e\<rparr>) = free_effect s b k s'"
  by (simp_all add: free_effect_def)

lemma owned_addr:
  assumes inv: "buddy_inv s" and own: "owned s b k" and i: "i \<in> frames_of b k"
  shows "idx_to_addr s i \<noteq> NULL" "buddy_base_addr s \<le> idx_to_addr s i" "idx_to_addr s i < buddy_end_addr s"
    "addr_to_idx s (idx_to_addr s i) = i" "ref_count_ptr s \<noteq> NULL"
proof -
  have g: "geometry s" using inv by (auto simp: buddy_inv_def buddy_off_def)
  have "block_ok (buddy_total_pages s) b k" using own by (simp add: owned_def)
  then have l: "i < buddy_total_pages s" using i by (rule block_bound)
  then show "idx_to_addr s i \<noteq> NULL" "buddy_base_addr s \<le> idx_to_addr s i" "idx_to_addr s i < buddy_end_addr s"
    by (rule addr_in_range [OF g])+
  show "addr_to_idx s (idx_to_addr s i) = i"
    using l g by (intro addr_to_idx_inverse) (simp add: geometry_def)
  show "ref_count_ptr s \<noteq> NULL" using g by (simp add: geometry_def)
qed

lemma coalesce_sie [simp]: "sie (snd (snd (coalesce b k s))) = sie s"
proof (induction b k s rule: coalesce.induct)
  case (1 b k s)
  then show ?case by (subst coalesce.simps) (auto simp: Let_def)
qed

lemma release_block_sie [simp]: "sie (release_block b s) = sie s"
  using coalesce_sie [of b "GET_ALLOC_ORDER (frame_array s b)"
    "s\<lparr>frame_array := fill b 0 (2 ^ GET_ALLOC_ORDER (frame_array s b)) FRAME_FREE_PART (frame_array s)\<rparr>"]
  by (auto simp: release_block_def Let_def simp del: coalesce_sie split: prod.split)

text \<open>Dropping one of several references only decrements the counter.\<close>

lemma buddy_free_shared:
  assumes inv: "buddy_inv s" and own: "owned s b k" and i: "i \<in> frames_of b k" and r: "1 < ref_count s i"
  shows "buddy_free (idx_to_addr s i) s = s\<lparr>ref_count := (ref_count s)(i := ref_count s i - 1)\<rparr>"
  using owned_addr [OF inv own i] r
  by (simp add: buddy_free_def irq_defs Let_def not_less not_le)

lemma buddy_free_last:
  assumes inv: "buddy_inv s" and own: "owned s b k" and r: "ref_count s b \<le> 1"
  shows "free_effect s b k (buddy_free (idx_to_addr s b) s)"
    and "sie (buddy_free (idx_to_addr s b) s) = sie s"
proof -
  obtain fl where "buddy_off fl {} s" using inv by (auto simp: buddy_inv_def)
  then have off: "buddy_off fl {} (s\<lparr>sie := False\<rparr>)" (is "buddy_off fl {} ?s") by simp
  let ?r = "(ref_count s)(b := ref_count s b - 1)"
  have e: "buddy_free (idx_to_addr s b) s =
      (release_block b (?s\<lparr>ref_count := ?r\<rparr>))\<lparr>sie := sie s\<rparr>"
    using owned_addr [OF inv own block_head] r
    by (simp add: buddy_free_def irq_defs Let_def not_less not_le)
  have "free_effect ?s b k (release_block b (?s\<lparr>ref_count := ?r\<rparr>))"
    using own by (intro release_block_effect [OF off]) (auto simp: frames_of_def)
  then show "free_effect s b k (buddy_free (idx_to_addr s b) s)" by (simp add: e)
  show "sie (buddy_free (idx_to_addr s b) s) = sie s" by (simp add: e)
qed

subsection \<open>The address map is constant\<close>

definition address_map :: "'a buddy_state_scheme \<Rightarrow> u64 \<times> u64 \<times> nat \<times> u64 \<times> u64" where
  "address_map s = (buddy_base_addr s, buddy_end_addr s, buddy_total_pages s, free_list s, ref_count_ptr s)"

lemma address_map_steps [simp]:
  "address_map (block_push b k s) = address_map s" "address_map (block_pop b k s) = address_map s"
  "address_map (mark_allocated b k s) = address_map s" "address_map (s\<lparr>sie := e\<rparr>) = address_map s"
  "address_map (s\<lparr>ref_count := r\<rparr>) = address_map s" "address_map (s\<lparr>frame_array := f\<rparr>) = address_map s"
  "address_map (s\<lparr>mem := m\<rparr>) = address_map s"
  by (simp_all add: address_map_def block_push_def block_pop_def mark_allocated_def Let_def)

lemma address_map_split [simp]: "address_map (split_block b k t s) = address_map s"
  by (induction k arbitrary: s; subst split_block.simps; simp)

lemma address_map_coalesce [simp]: "address_map (snd (snd (coalesce b k s))) = address_map s"
proof (induction b k s rule: coalesce.induct)
  case (1 b k s)
  then show ?case by (subst coalesce.simps) (auto simp: Let_def)
qed

lemma address_map_release [simp]: "address_map (release_block b s) = address_map s"
  using address_map_coalesce [of b "GET_ALLOC_ORDER (frame_array s b)"
    "s\<lparr>frame_array := fill b 0 (2 ^ GET_ALLOC_ORDER (frame_array s b)) FRAME_FREE_PART (frame_array s)\<rparr>"]
  by (auto simp: release_block_def Let_def simp del: address_map_coalesce split: prod.split)

lemma address_map_alloc [simp]: "address_map (snd (buddy_alloc sz s)) = address_map s"
  by (auto simp: buddy_alloc_def irq_defs Let_def)

lemma address_map_free [simp]: "address_map (buddy_free p s) = address_map s"
  by (auto simp: buddy_free_def irq_defs Let_def)

lemma address_map_eqD:
  assumes "address_map s' = address_map s"
  shows "idx_to_addr s' = idx_to_addr s" "safe_page s' = safe_page s" "list_area s' = list_area s"
    "buddy_total_pages s' = buddy_total_pages s"
  using assms by (auto simp: address_map_def fun_eq_iff idx_to_addr_def safe_page_def list_area_def free_list_head_def)

lemma owned_cong:
  assumes "address_map s' = address_map s" "\<And>i. i \<in> frames_of b k \<Longrightarrow> frame_array s' i = frame_array s i"
  shows "owned s' b k = owned s b k"
  using assms(2) address_map_eqD [OF assms(1)] by (auto simp: owned_def alloc_tile_def)

lemma owned_not_free:
  assumes "buddy_inv s" "owned s b k"
  shows "frames_of b k \<inter> free_frames s = {}"
  using assms alloc_tile_alloc [of "frame_array s" b k "buddy_total_pages s"]
  by (auto simp: buddy_inv_def buddy_off_def geometry_def owned_def free_frames_def)

lemma owned_disjoint:
  assumes inv: "buddy_inv s" and "owned s b k" "owned s c l" "(b, k) \<noteq> (c, l)"
  shows "frames_of b k \<inter> frames_of c l = {}"
proof -
  have n: "buddy_total_pages s \<le> 2 ^ 22" using inv by (auto simp: buddy_inv_def buddy_off_def geometry_def)
  have "is_block (buddy_total_pages s) (frame_array s) b k" "is_block (buddy_total_pages s) (frame_array s) c l"
    using assms by (auto simp: owned_def is_block_def)
  then show ?thesis using block_unique [OF _ _ n] assms(4) by blast
qed

end
