(* ===== verification/Buddy_Init.thy ===== *)
theory Buddy_Init
  imports Buddy_Correct
begin

text \<open>
  \<^verbatim>\<open>buddy_init\<close> establishes the invariant of the allocator, and every frame of a reserved region
  stays allocated. \<^verbatim>\<open>startup_alloc\<close> returns pages outside every reserved region.
\<close>

subsection \<open>The greedy construction of the free blocks\<close>

text \<open>The frames still to be put in a block.\<close>

definition unbuilt :: "nat \<Rightarrow> 'a buddy_state_scheme \<Rightarrow> nat set" where
  "unbuilt idx s = {i. idx \<le> i \<and> i < buddy_total_pages s \<and> frame_array s i = FRAME_FREE_PART}"

text \<open>A free head of order \<open>k\<close> could not have been a head of order \<open>k + 1\<close>.\<close>

definition maximal_heads :: "nat \<Rightarrow> 'a buddy_state_scheme \<Rightarrow> bool" where
  "maximal_heads idx s \<longleftrightarrow>
     (\<forall>k<MAX_ORDER. \<forall>x\<in>free_heads s (unbuilt idx s) k. block_ok (buddy_total_pages s) x (Suc k) \<longrightarrow>
        (\<exists>j\<in>frames_of x (Suc k). \<not> is_free (frame_array s j)))"

definition built :: "nat \<Rightarrow> 'a buddy_state_scheme \<Rightarrow> bool" where
  "built idx s \<longleftrightarrow> (\<exists>fl. buddy_off fl (unbuilt idx s) s) \<and> maximal_heads idx s \<and>
     (\<forall>k\<le>MAX_ORDER. \<forall>x\<in>free_heads s (unbuilt idx s) k. x < idx)"

definition fits :: "'a buddy_state_scheme \<Rightarrow> nat \<Rightarrow> nat \<Rightarrow> bool" where
  "fits s idx k \<longleftrightarrow> block_ok (buddy_total_pages s) idx k \<and>
     (\<forall>j\<in>frames_of idx k. frame_array s j = FRAME_FREE_PART)"

lemma aligned_and: "(idx::nat) AND (2 ^ k - 1) = 0 \<longleftrightarrow> 2 ^ k dvd idx"
proof -
  have "idx AND (2 ^ k - 1) = idx mod 2 ^ k"
    by (simp only: mask_eq_exp_minus_1 [symmetric] take_bit_eq_mask [symmetric] take_bit_eq_mod)
  then show ?thesis by (simp only: mod_eq_0_iff_dvd)
qed

lemma fits_test:
  "k \<le> MAX_ORDER \<Longrightarrow>
   idx AND (2 ^ k - 1) = 0 \<and> idx + 2 ^ k \<le> buddy_total_pages s \<and>
     (\<forall>j\<in>set [0..<2 ^ k]. frame_array s (idx + j) = FRAME_FREE_PART) \<longleftrightarrow> fits s idx k"
proof -
  have "(\<forall>j\<in>set [0..<2 ^ k]. frame_array s (idx + j) = FRAME_FREE_PART) \<longleftrightarrow>
    (\<forall>j\<in>frames_of idx k. frame_array s j = FRAME_FREE_PART)"
    unfolding frames_of_def by (auto dest: bspec [where x = "j - idx" for j] simp: le_iff_add)
  then show "k \<le> MAX_ORDER \<Longrightarrow> ?thesis" by (simp only: fits_def block_ok_def aligned_and) blast
qed

lemma best_order_fits:
  assumes "fits s idx 0" "order \<le> MAX_ORDER"
  shows "fits s idx (best_order s idx order) \<and> best_order s idx order \<le> order \<and>
    (\<forall>k. best_order s idx order < k \<and> k \<le> order \<longrightarrow> \<not> fits s idx k)"
  using assms(2)
proof (induction order)
  case 0
  have "best_order s idx 0 = 0" by (subst best_order.simps) simp
  then show ?case using assms(1) by auto
next
  case (Suc k)
  have step: "best_order s idx (Suc k) = (if fits s idx (Suc k) then Suc k else best_order s idx k)"
    using fits_test [OF Suc.prems, of idx s] by (subst best_order.simps) (simp add: Let_def)
  show ?case
  proof (cases "fits s idx (Suc k)")
    case True
    then show ?thesis unfolding step by auto
  next
    case False
    have "\<not> fits s idx l" if "best_order s idx k < l" "l \<le> Suc k" for l
      using that False Suc by (cases "l = Suc k") auto
    then show ?thesis using False Suc unfolding step by auto
  qed
qed


lemma push_unbuilt:
  assumes "fits s idx k"
  shows "unbuilt (idx + 2 ^ k) (block_push idx k s) = unbuilt idx s - frames_of idx k"
    and "frames_of idx k \<subseteq> unbuilt idx s"
  using assms block_bound [of "buddy_total_pages s" idx k]
  by (auto simp: unbuilt_def fits_def block_push_frames frames_of_def FRAME_FREE_PART_def)

lemma built_push:
  assumes b: "built idx s" and f: "fits s idx k" and max: "k < MAX_ORDER \<longrightarrow> \<not> fits s idx (Suc k)"
    and tags: "\<And>j. idx \<le> j \<Longrightarrow> j < buddy_total_pages s \<Longrightarrow> frame_array s j \<noteq> FRAME_FREE_PART \<Longrightarrow> \<not> is_free (frame_array s j)"
  shows "built (idx + 2 ^ k) (block_push idx k s)"
proof -
  let ?R = "unbuilt idx s" and ?s = "block_push idx k s" and ?n = "buddy_total_pages s"
  let ?R' = "?R - frames_of idx k"
  obtain fl where off: "buddy_off fl ?R s" using b by (auto simp: built_def)
  have low: "l \<le> MAX_ORDER \<Longrightarrow> x \<in> free_heads s ?R l \<Longrightarrow> x < idx" for l x
    using b unfolding built_def by blast
  have ok: "block_ok ?n idx k" and unused: "\<And>j. j \<in> frames_of idx k \<Longrightarrow> frame_array s j = FRAME_FREE_PART"
    using f by (auto simp: fits_def)
  note sub = push_unbuilt(2) [OF f]
  have unbuilt': "unbuilt (idx + 2 ^ k) ?s = ?R'" by (rule push_unbuilt(1) [OF f])
  have partner: "idx XOR 2 ^ k \<notin> free_heads s ?R k" if k: "k < MAX_ORDER"
  proof
    let ?x = "idx XOR 2 ^ k"
    assume x: "?x \<in> free_heads s ?R k"
    then have below: "?x < idx" using low [of k] k by simp
    note fb = free_head_block [OF off _ x]
    have "idx = ?x + 2 ^ k \<and> 2 ^ Suc k dvd ?x" using xor_buddy [of k idx] ok below by (auto simp: block_ok_def)
    then have e: "idx = ?x + 2 ^ k" and "block_ok ?n ?x (Suc k)"
      using ok k by (auto simp: block_ok_def)
    then obtain j where j: "j \<in> frames_of ?x (Suc k)" "\<not> is_free (frame_array s j)"
      using b x k unfolding built_def maximal_heads_def by blast
    have "frames_of ?x (Suc k) = frames_of ?x k \<union> frames_of idx k"
      unfolding lower_half(1) by (simp only: e [symmetric])
    moreover have "is_free (frame_array s j)" if "j \<in> frames_of ?x k" for j
      using free_tile_free [OF fb(2) order_small [OF fb(1)] that] k by simp
    ultimately show False using j unused order_is_free(2) by fastforce
  qed
  have off': "buddy_off (fl(k := idx # fl k)) ?R' ?s" by (rule block_push_off [OF off ok sub partner])
  have heads: "free_heads ?s ?R' l = (if l = k then insert idx (free_heads s ?R k) else free_heads s ?R l)" for l
    by (rule block_push_heads [OF ok sub])
  have keep: "\<not> is_free (frame_array ?s j) \<longleftrightarrow> \<not> is_free (frame_array s j)" for j
    using unused [of j] order_is_free order_small [OF ok] by (auto simp: block_push_frames)
  have new: "\<exists>j\<in>frames_of idx (Suc k). \<not> is_free (frame_array s j)" if up: "k < MAX_ORDER" "block_ok ?n idx (Suc k)"
  proof -
    obtain j where "j \<in> frames_of idx (Suc k)" "frame_array s j \<noteq> FRAME_FREE_PART"
      using max up by (auto simp: fits_def)
    moreover then have "\<not> is_free (frame_array s j)"
      using block_bound [OF up(2)] by (intro tags) (auto simp: frames_of_def)
    ultimately show ?thesis by blast
  qed
  have "maximal_heads (idx + 2 ^ k) ?s"
    using b new unfolding built_def maximal_heads_def unbuilt' heads keep by auto
  moreover have "x < idx + 2 ^ k" if "l \<le> MAX_ORDER" "x \<in> free_heads ?s ?R' l" for x l
    using that low [of l x] unfolding heads by (auto split: if_splits intro: trans_less_add1)
  ultimately show ?thesis using off' by (auto simp: built_def unbuilt')
qed

lemma built_done: "built idx s \<Longrightarrow> buddy_total_pages s \<le> idx \<Longrightarrow> buddy_inv s"
proof -
  assume b: "built idx s" "buddy_total_pages s \<le> idx"
  then have "unbuilt idx s = {}" by (auto simp: unbuilt_def)
  then show "buddy_inv s" using b by (auto simp: built_def buddy_inv_def)
qed

lemma build_free_blocks_built:
  assumes "built idx s"
    and "\<And>j. idx \<le> j \<Longrightarrow> j < buddy_total_pages s \<Longrightarrow> frame_array s j \<noteq> FRAME_FREE_PART \<Longrightarrow> \<not> is_free (frame_array s j)"
  shows "buddy_inv (build_free_blocks idx s) \<and> free_frames (build_free_blocks idx s) = free_frames s"
  using assms
proof (induction idx s rule: build_free_blocks.induct)
  case (1 idx s)
  let ?n = "buddy_total_pages s"
  consider "?n \<le> idx" | "idx < ?n" "frame_array s idx \<noteq> FRAME_FREE_PART" | "idx < ?n" "frame_array s idx = FRAME_FREE_PART"
    by linarith
  then show ?case
  proof cases
    case 1
    then show ?thesis using built_done "1.prems" by (subst (1 2) build_free_blocks.simps) simp
  next
    case 2
    then have step: "build_free_blocks idx s = build_free_blocks (idx + 1) s"
      by (subst build_free_blocks.simps) simp
    have "unbuilt (idx + 1) s = unbuilt idx s"
      using 2 by (auto simp: unbuilt_def) (metis Suc_leI le_neq_implies_less)
    then have "built (idx + 1) s"
      using "1.prems"(1) by (fastforce simp: built_def maximal_heads_def)
    then show ?thesis unfolding step using 2 "1.prems"(2) by (intro "1.IH"(1)) auto
  next
    case 3
    let ?k = "best_order s idx MAX_ORDER"
    let ?s = "block_push idx ?k s"
    have "fits s idx 0" using 3 by (simp add: fits_def block_ok_def frames_of_def)
    note best = best_order_fits [OF this order_refl]
    have f: "fits s idx ?k" and m: "?k < MAX_ORDER \<longrightarrow> \<not> fits s idx (Suc ?k)" using best by auto
    have step: "build_free_blocks idx s = build_free_blocks (idx + 2 ^ ?k) ?s"
      using 3 by (subst build_free_blocks.simps) (simp add: Let_def)
    have b: "built (idx + 2 ^ ?k) ?s" by (rule built_push [OF "1.prems"(1) f m "1.prems"(2)])
    have out: "frame_array ?s j = frame_array s j" if "idx + 2 ^ ?k \<le> j" for j
      using that by (auto simp: block_push_frames frames_of_def)
    have "is_free (frame_array ?s j) \<longleftrightarrow> is_free (frame_array s j)" for j
      using f order_is_free order_small [of ?n idx ?k] by (auto simp: block_push_frames fits_def)
    then have ff: "free_frames ?s = free_frames s" by (simp add: free_frames_def)
    show ?thesis unfolding step ff [symmetric]
      using 3 b "1.prems"(2) out by (intro "1.IH"(2)) auto
  qed
qed


subsection \<open>Before the free blocks\<close>

lemma clist_init_other: "clist m h [] \<Longrightarrow> sep h h' \<Longrightarrow> clist (INIT_LIST_HEAD h' m) h []"
  by (subst clist_frame) (auto intro!: init_frame simp: sep_def cells_def)

lemma init_heads_fold:
  assumes "n \<le> MAX_ORDER + 1" "j < n"
  shows "clist (fold (\<lambda>i. INIT_LIST_HEAD (free_list_head s i)) [0..<n] m) (free_list_head s j) []"
  using assms
proof (induction n)
  case (Suc n)
  have e: "fold (\<lambda>i. INIT_LIST_HEAD (free_list_head s i)) [0..<Suc n] m =
    INIT_LIST_HEAD (free_list_head s n) (fold (\<lambda>i. INIT_LIST_HEAD (free_list_head s i)) [0..<n] m)"
    by simp
  show ?case
  proof (cases "j = n")
    case True
    then show ?thesis unfolding e by (simp add: clist_init)
  next
    case False
    then have "sep (free_list_head s j) (free_list_head s n)"
      using Suc.prems by (intro heads_apart) auto
    then show ?thesis unfolding e using Suc False by (intro clist_init_other) auto
  qed
qed simp

text \<open>The frames that a list of regions pins, in the way \<^verbatim>\<open>buddy_init\<close> rounds them.\<close>

definition pins :: "'a buddy_state_scheme \<Rightarrow> mem_region \<Rightarrow> nat \<Rightarrow> bool" where
  "pins s r j \<longleftrightarrow> region_first s r \<le> j \<and> j < region_last s r \<and> j < buddy_total_pages s"

lemma pin_frames_fold:
  "fold pin_frame js s =
     s\<lparr>frame_array := (\<lambda>j. if j \<in> set js then ALLOC_TAG j 0 else frame_array s j),
       ref_count := (\<lambda>j. if j \<in> set js then 1 else ref_count s j)\<rparr>"
proof (induction js arbitrary: s)
  case (Cons x js)
  show ?case unfolding fold_Cons o_apply Cons.IH by (auto simp: pin_frame_def fun_eq_iff)
qed simp

lemma pin_region_eq:
  "pin_region r s =
     s\<lparr>frame_array := (\<lambda>j. if pins s r j then ALLOC_TAG j 0 else frame_array s j),
       ref_count := (\<lambda>j. if pins s r j then 1 else ref_count s j)\<rparr>"
proof -
  have "j \<in> set [region_first s r ..< min (region_last s r) (buddy_total_pages s)] \<longleftrightarrow> pins s r j" for j
    by (auto simp: pins_def)
  moreover have "\<not> region_first s r < buddy_total_pages s \<Longrightarrow> \<not> pins s r j" for j
    by (auto simp: pins_def)
  ultimately show ?thesis by (simp add: pin_region_def pin_frames_fold del: set_upt)
qed

lemma pin_regions_fold:
  "fold pin_region rs s =
     s\<lparr>frame_array := (\<lambda>j. if \<exists>r\<in>set rs. pins s r j then ALLOC_TAG j 0 else frame_array s j),
       ref_count := (\<lambda>j. if \<exists>r\<in>set rs. pins s r j then 1 else ref_count s j)\<rparr>"
proof (induction rs arbitrary: s)
  case (Cons r rs)
  have "pins (pin_region r s) = pins s"
    by (auto simp: fun_eq_iff pin_region_eq pins_def region_first_def region_last_def)
  then show ?case by (simp add: Cons.IH) (auto simp: pin_region_eq fun_eq_iff)
qed simp

text \<open>
  What initialisation needs of the machine: the geometry, and that every page the array of
  list heads can touch is in a reserved region.
\<close>

definition heads_reserved :: "'a buddy_state_scheme \<Rightarrow> bool" where
  "heads_reserved s \<longleftrightarrow>
     (\<forall>j<buddy_total_pages s. safe_page s j \<or> (\<exists>r\<in>set (reserved_regions s). pins s r j))"

lemma init_frames_inv:
  assumes g: "geometry s" and h: "heads_reserved s"
  shows "buddy_inv (init_frames s) \<and>
    free_frames (init_frames s) = {j. j < buddy_total_pages s \<and> (\<forall>r\<in>set (reserved_regions s). \<not> pins s r j)}"
proof -
  let ?n = "buddy_total_pages s"
  let ?pin = "\<lambda>j. \<exists>r\<in>set (reserved_regions s). pins s r j"
  let ?m = "fold (\<lambda>i. INIT_LIST_HEAD (free_list_head s i)) [0..<MAX_ORDER + 1] (mem s)"
  let ?f = "\<lambda>j. if ?pin j then ALLOC_TAG j 0 else if j < ?n then FRAME_FREE_PART else frame_array s j"
  let ?r = "\<lambda>j. if ?pin j then 1 else if j < ?n then 0 else ref_count s j"
  let ?s = "s\<lparr>mem := ?m, frame_array := ?f, ref_count := ?r\<rparr>"
  have pins: "pins (s\<lparr>mem := m, frame_array := f, ref_count := r\<rparr>) = pins s" for m f r
    by (simp add: fun_eq_iff pins_def region_first_def region_last_def)
  have eq: "init_frames s = build_free_blocks 0 ?s"
    by (simp add: init_frames_def Let_def pin_regions_fold pins fill_apply cong: if_cong)
  have n: "?n \<le> 2 ^ 22" using g by (simp add: geometry_def)
  have tag: "\<not> is_free (ALLOC_TAG j 0)" if "j < ?n" for j using that n by (intro tag_not_free) auto
  have neq: "ALLOC_TAG j 0 \<noteq> FRAME_FREE_PART" if "j < ?n" for j
    using tag [OF that] order_is_free(2) by metis
  have R: "unbuilt 0 ?s = {j. j < ?n \<and> \<not> ?pin j}" using neq by (auto simp: unbuilt_def)
  have none: "free_heads ?s (unbuilt 0 ?s) k = {}" if "k \<le> MAX_ORDER" for k
    using that tag order_is_free(1) [of k] unfolding R
    by (auto simp: free_heads_def MAX_ORDER_def) metis
  have "tiled_off ?n ?f (unbuilt 0 ?s)"
    unfolding tiled_off_def R
  proof (intro allI impI)
    fix i assume i: "i < ?n" "i \<notin> {j. j < ?n \<and> \<not> ?pin j}"
    then have "is_block ?n ?f i 0 \<and> i \<in> frames_of i 0 \<and> frames_of i 0 \<inter> {j. j < ?n \<and> \<not> ?pin j} = {}"
      by (auto simp: is_block_def block_ok_def alloc_tile_def frames_of_def MAX_ORDER_def)
    then show "\<exists>b k. is_block ?n ?f b k \<and> i \<in> frames_of b k \<and> frames_of b k \<inter> {j. j < ?n \<and> \<not> ?pin j} = {}"
      by blast
  qed
  moreover have "lists_ok (\<lambda>_. []) (unbuilt 0 ?s) ?s"
    using init_heads_fold [of "MAX_ORDER + 1" _ s "mem s"] none by (simp add: lists_ok_def)
  moreover have "pages_safe (unbuilt 0 ?s) ?s"
    using h tag unfolding R by (auto simp: pages_safe_def heads_reserved_def)
  moreover have "coalesced (unbuilt 0 ?s) ?s" using none by (simp add: coalesced_def)
  moreover have "refs_ok (unbuilt 0 ?s) ?s"
    unfolding R by (auto simp: refs_ok_def dest: block_bound [OF _ block_head])
  ultimately have "buddy_off (\<lambda>_. []) (unbuilt 0 ?s) ?s" using g by (simp add: buddy_off_def)
  then have built: "built 0 ?s" using none by (auto simp: built_def maximal_heads_def)
  have ff: "free_frames ?s = {j. j < ?n \<and> \<not> ?pin j}"
    using tag order_is_free(2) by (auto simp: free_frames_def)
  have "buddy_inv (build_free_blocks 0 ?s) \<and> free_frames (build_free_blocks 0 ?s) = free_frames ?s"
  proof (rule build_free_blocks_built [OF built])
    fix j assume "j < buddy_total_pages ?s" "frame_array ?s j \<noteq> FRAME_FREE_PART"
    then show "\<not> is_free (frame_array ?s j)" using tag by (auto split: if_splits)
  qed
  then show ?thesis unfolding eq ff by simp
qed


subsection \<open>Reserved regions\<close>

text \<open>A page that shares a byte with a reserved region is pinned.\<close>

lemma pins_byte:
  assumes g: "geometry s" and j: "j < buddy_total_pages s"
    and page: "unat (idx_to_addr s j) \<le> x" "x < unat (idx_to_addr s j) + 4096"
    and reg: "unat (rg_start r) \<le> x" "x < unat (rg_end r)" "unat (rg_end r) + 4096 \<le> 2 ^ 64"
  shows "pins s r j"
proof -
  let ?b = "unat (buddy_base_addr s)"
  have a: "unat (idx_to_addr s j) = ?b + j * 4096" using addr_unat [OF g] j by simp
  have first: "region_first s r \<le> j"
  proof (cases "rg_start r > buddy_base_addr s")
    case True
    then have "unat (rg_start r - buddy_base_addr s) = unat (rg_start r) - ?b"
      by (intro unat_sub) (simp add: order_less_imp_le)
    then have "region_first s r = (unat (rg_start r) - ?b) div 4096"
      using True by (simp add: region_first_def unat_div)
    also have "\<dots> \<le> j" using page reg a by (simp add: less_mult_imp_div_less less_Suc_eq_le [symmetric])
    finally show ?thesis .
  qed (simp add: region_first_def)
  have e: "buddy_base_addr s < rg_end r" using page reg a by (simp add: word_less_nat_alt)
  then have d: "unat (rg_end r - buddy_base_addr s) = unat (rg_end r) - ?b"
    by (intro unat_sub) (simp add: order_less_imp_le)
  have "unat (rg_end r - buddy_base_addr s + PAGE_SIZE - 1) = unat (rg_end r) - ?b + 4095"
  proof -
    have "rg_end r - buddy_base_addr s + PAGE_SIZE - 1 = (rg_end r - buddy_base_addr s) + 4095" by simp
    moreover have "unat ((rg_end r - buddy_base_addr s) + 4095) = unat (rg_end r) - ?b + 4095"
      using reg(3) d by (subst unat_add_nowrap) auto
    ultimately show ?thesis by (simp only:)
  qed
  then have "region_last s r = (unat (rg_end r) - ?b + 4095) div 4096"
    using e by (simp add: region_last_def unat_div)
  moreover have "j * 4096 + 4096 \<le> unat (rg_end r) - ?b + 4095" using page reg a by simp
  then have "j + 1 \<le> (unat (rg_end r) - ?b + 4095) div 4096" by simp
  ultimately show ?thesis using first j by (simp add: pins_def)
qed

lemma heads_in_image:
  assumes g: "geometry s" and r: "r \<in> set (reserved_regions s)"
    and img: "unat (rg_start r) \<le> unat (free_list s)" "unat (free_list s) + 272 \<le> unat (rg_end r)"
      "unat (rg_end r) + 4096 \<le> 2 ^ 64"
  shows "heads_reserved s"
  unfolding heads_reserved_def
proof (intro allI impI)
  fix j assume j: "j < buddy_total_pages s"
  let ?a = "unat (idx_to_addr s j)"
  have lim: "?a + 4096 < 2 ^ 64" using addr_unat [OF g, of j] g j by (auto simp: geometry_def)
  show "safe_page s j \<or> (\<exists>r\<in>set (reserved_regions s). pins s r j)"
  proof (cases "safe_page s j")
    case False
    have "unat (of_nat (16 * k) :: u64) = 16 * k" if "k \<le> MAX_ORDER" for k
      using that by (intro unat_of_nat_small) (simp add: MAX_ORDER_def)
    then have h: "unat (free_list_head s k) = unat (free_list s) + 16 * k" if "k \<le> MAX_ORDER" for k
      using that img unfolding free_list_head_def by (simp add: unat_add_nowrap MAX_ORDER_def)
    obtain k where k: "k \<le> MAX_ORDER" and ov: "\<not> (unat (free_list_head s k) + 16 \<le> 2 ^ 64 \<and> ?a + 4096 \<le> 2 ^ 64 \<and>
      (unat (free_list_head s k) + 16 \<le> ?a \<or> ?a + 4096 \<le> unat (free_list_head s k)))"
      using False by (auto simp: safe_page_def)
    let ?h = "unat (free_list_head s k)"
    have "\<not> (?h + 16 \<le> ?a \<or> ?a + 4096 \<le> ?h)"
      using ov lim h [OF k] img k by (auto simp: MAX_ORDER_def)
    then have "\<exists>x. ?a \<le> x \<and> x < ?a + 4096 \<and> ?h \<le> x \<and> x < ?h + 16"
      by (intro exI [of _ "max ?a ?h"]) auto
    then obtain x where "?a \<le> x" "x < ?a + 4096" "?h \<le> x" "x < ?h + 16" by blast
    then have "pins s r j"
      using k h [OF k] img by (intro pins_byte [OF g j, of x]) (auto simp: MAX_ORDER_def)
    with r show ?thesis by blast
  qed simp
qed

subsection \<open>The early bump allocator\<close>

lemma startup_alloc_from_spec:
  "startup_alloc_from pages idx s = (p, s') \<Longrightarrow> p \<noteq> NULL \<Longrightarrow>
    \<exists>i\<ge>idx. i + pages \<le> buddy_total_pages s \<and> p = idx_to_addr s i \<and>
      (\<forall>r\<in>set (reserved_regions s). \<not> clashes p (p + of_nat pages * PAGE_SIZE) r) \<and>
      s' = memory_reserve p (of_nat pages * PAGE_SIZE) s"
proof (induction pages idx s rule: startup_alloc_from.induct)
  case (1 pages idx s)
  let ?p = "idx_to_addr s idx"
  let ?c = "find (clashes ?p (?p + of_nat pages * PAGE_SIZE)) (reserved_regions s)"
  have fit: "idx + pages \<le> buddy_total_pages s"
    using "1.prems" by (subst (asm) startup_alloc_from.simps) (auto split: if_splits)
  show ?case
  proof (cases ?c)
    case None
    then have "startup_alloc_from pages idx s = (?p, memory_reserve ?p (of_nat pages * PAGE_SIZE) s)"
      using fit by (subst startup_alloc_from.simps) (simp add: Let_def idx_to_addr_def)
    then show ?thesis using None fit "1.prems" by (auto simp: find_None_iff)
  next
    case (Some r)
    let ?e = "unat ((rg_end r - buddy_base_addr s + PAGE_SIZE - 1) div PAGE_SIZE)"
    let ?i = "if ?e > idx then ?e else idx + 1"
    have "startup_alloc_from pages ?i s = (p, s')"
      using fit "1.prems"(1) Some
      by (subst (asm) startup_alloc_from.simps) (simp add: Let_def idx_to_addr_def cong: if_cong split: if_splits)
    then obtain i where i: "?i \<le> i" and r: "i + pages \<le> buddy_total_pages s \<and> p = idx_to_addr s i \<and>
      (\<forall>r\<in>set (reserved_regions s). \<not> clashes p (p + of_nat pages * PAGE_SIZE) r) \<and>
      s' = memory_reserve p (of_nat pages * PAGE_SIZE) s"
      using "1.IH" [OF fit refl refl _ refl] Some "1.prems"(2) by (auto simp: idx_to_addr_def)
    from i have "idx \<le> i" by (simp split: if_splits)
    with r show ?thesis by blast
  qed
qed

lemma startup_alloc_from_grow:
  "startup_alloc_from pages idx s = (p, s') \<Longrightarrow>
    \<exists>rs. s' = s\<lparr>reserved_regions := reserved_regions s @ rs\<rparr>"
proof (induction pages idx s rule: startup_alloc_from.induct)
  case (1 pages idx s)
  show ?case
    using "1.prems" "1.IH"
    by (subst (asm) startup_alloc_from.simps)
      (auto simp: Let_def memory_reserve_def split: if_splits option.splits intro: exI [of _ "[]"])
qed

lemma memory_reserve_grow: "\<exists>rs. memory_reserve a n s = s\<lparr>reserved_regions := reserved_regions s @ rs\<rparr>"
  by (auto simp: memory_reserve_def intro: exI [of _ "[]"])


subsection \<open>The whole initialisation\<close>

definition boot_fields :: "'a buddy_state_scheme \<Rightarrow> u64 \<times> u64 \<times> nat \<times> u64" where
  "boot_fields s = (buddy_base_addr s, buddy_end_addr s, buddy_total_pages s, free_list s)"

lemma boot_fields_D:
  assumes "boot_fields s' = boot_fields s"
  shows "buddy_base_addr s' = buddy_base_addr s" "buddy_end_addr s' = buddy_end_addr s"
    "buddy_total_pages s' = buddy_total_pages s" "free_list s' = free_list s"
  using assms by (auto simp: boot_fields_def)

lemma boot_fields_upd [simp]:
  "boot_fields (s\<lparr>mem := m\<rparr>) = boot_fields s" "boot_fields (s\<lparr>frame_array := f\<rparr>) = boot_fields s"
  "boot_fields (s\<lparr>ref_count := r\<rparr>) = boot_fields s" "boot_fields (s\<lparr>reserved_regions := rs\<rparr>) = boot_fields s"
  "boot_fields (s\<lparr>frame_array_ptr := p\<rparr>) = boot_fields s" "boot_fields (s\<lparr>ref_count_ptr := p\<rparr>) = boot_fields s"
  by (simp_all add: boot_fields_def)

lemma build_free_blocks_fields:
  "boot_fields (build_free_blocks idx s) = boot_fields s \<and>
   frame_array_ptr (build_free_blocks idx s) = frame_array_ptr s \<and>
   ref_count_ptr (build_free_blocks idx s) = ref_count_ptr s \<and>
   reserved_regions (build_free_blocks idx s) = reserved_regions s"
proof (induction idx s rule: build_free_blocks.induct)
  case (1 idx s)
  have p: "boot_fields (block_push b k s) = boot_fields s \<and> frame_array_ptr (block_push b k s) = frame_array_ptr s \<and>
    ref_count_ptr (block_push b k s) = ref_count_ptr s \<and> reserved_regions (block_push b k s) = reserved_regions s" for b k
    by (simp add: block_push_def Let_def boot_fields_def)
  show ?case using 1 p by (subst (1 2 3 4) build_free_blocks.simps) (simp add: Let_def)
qed

lemma init_frames_fields:
  "boot_fields (init_frames s) = boot_fields s" "frame_array_ptr (init_frames s) = frame_array_ptr s"
  "ref_count_ptr (init_frames s) = ref_count_ptr s" "reserved_regions (init_frames s) = reserved_regions s"
  by (simp_all add: init_frames_def Let_def build_free_blocks_fields pin_regions_fold)

lemma reserve_fold_grow:
  "\<exists>rs. fold (\<lambda>(a, n). memory_reserve a n) xs s = s\<lparr>reserved_regions := reserved_regions s @ rs\<rparr>"
proof (induction xs arbitrary: s)
  case Nil
  show ?case by (auto intro: exI [of _ "[]"])
next
  case (Cons x xs)
  obtain rs where "memory_reserve (fst x) (snd x) s = s\<lparr>reserved_regions := reserved_regions s @ rs\<rparr>"
    using memory_reserve_grow by blast
  moreover obtain rs' where "fold (\<lambda>(a, n). memory_reserve a n) xs (s\<lparr>reserved_regions := reserved_regions s @ rs\<rparr>) =
    s\<lparr>reserved_regions := (reserved_regions s @ rs) @ rs'\<rparr>"
    using Cons.IH [of "s\<lparr>reserved_regions := reserved_regions s @ rs\<rparr>"] by auto
  ultimately show ?case by (auto simp: case_prod_unfold)
qed

lemma reserve_boot_regions_grow:
  "\<exists>rs. reserve_boot_regions bi s =
     (memory_reserve (bi_start bi) (bi_end bi - bi_start bi) s)\<lparr>reserved_regions :=
        reserved_regions (memory_reserve (bi_start bi) (bi_end bi - bi_start bi) s) @ rs\<rparr>"
proof -
  have cond: "\<exists>rs. (if c then memory_reserve a n t else t) = t\<lparr>reserved_regions := reserved_regions t @ rs\<rparr>"
    for c a n and t :: "'a buddy_state_scheme"
    using memory_reserve_grow [of a n t] by (auto intro: exI [of _ "[]"])
  let ?s1 = "memory_reserve (bi_start bi) (bi_end bi - bi_start bi) s"
  define s2 where "s2 = (if bi_start bi > buddy_base_addr ?s1
    then memory_reserve (buddy_base_addr ?s1) (bi_start bi - buddy_base_addr ?s1) ?s1 else ?s1)"
  define s3 where "s3 = (if bi_dtb_addr bi \<noteq> NULL then memory_reserve (bi_dtb_addr bi) (bi_dtb_totalsize bi) s2 else s2)"
  define s4 where "s4 = (if bi_cpio_addr bi \<noteq> NULL then memory_reserve (bi_cpio_addr bi) 0x1000000 s3 else s3)"
  obtain r2 where r2: "s2 = ?s1\<lparr>reserved_regions := reserved_regions ?s1 @ r2\<rparr>"
    unfolding s2_def using cond by blast
  obtain r3 where r3: "s3 = s2\<lparr>reserved_regions := reserved_regions s2 @ r3\<rparr>"
    unfolding s3_def using cond by blast
  obtain r4 where r4: "s4 = s3\<lparr>reserved_regions := reserved_regions s3 @ r4\<rparr>"
    unfolding s4_def using cond by blast
  obtain r5 where "fold (\<lambda>(a, n). memory_reserve a n) (bi_dtb_reserved bi) s4 = s4\<lparr>reserved_regions := reserved_regions s4 @ r5\<rparr>"
    using reserve_fold_grow by blast
  moreover have "reserve_boot_regions bi s = fold (\<lambda>(a, n). memory_reserve a n) (bi_dtb_reserved bi) s4"
    by (simp add: reserve_boot_regions_def Let_def s2_def s3_def s4_def)
  ultimately show ?thesis by (intro exI [of _ "r2 @ r3 @ r4 @ r5"]) (simp add: r4 r3 r2)
qed

text \<open>What the machine must provide.\<close>

definition sane_boot :: "bool \<Rightarrow> boot_info \<Rightarrow> 'a buddy_state_scheme \<Rightarrow> bool" where
  "sane_boot qemu bi s \<longleftrightarrow>
     (let t = set_memory_range qemu bi s
      in 0 < unat (buddy_base_addr t) \<and> unat (buddy_base_addr t) + buddy_total_pages t * 4096 < 2 ^ 64 \<and>
         buddy_end_addr t = idx_to_addr t (buddy_total_pages t)) \<and>
     length (reserved_regions s) < MAX_RESERVED_REGIONS \<and> unat (bi_start bi) \<le> unat (free_list s) \<and>
     unat (free_list s) + 272 \<le> unat (bi_end bi) \<and> unat (bi_end bi) + 4096 \<le> 2 ^ 64"

lemma set_memory_range_pages: "buddy_total_pages (set_memory_range qemu bi s) \<le> 2 ^ 19"
proof -
  have "unat (sz div PAGE_SIZE) \<le> 2 ^ 19" if "sz \<le> 0x80000000" for sz :: u64
    using that by (simp add: unat_div word_le_nat_alt)
  then show ?thesis by (auto simp: set_memory_range_def Let_def)
qed

lemma buddy_init_frames:
  assumes "frame_array_ptr (buddy_init qemu bi s) \<noteq> NULL" "ref_count_ptr (buddy_init qemu bi s) \<noteq> NULL"
    and s: "length (reserved_regions s) < MAX_RESERVED_REGIONS"
  shows "\<exists>t. buddy_init qemu bi s = init_frames t \<and> boot_fields t = boot_fields (set_memory_range qemu bi s) \<and>
    \<lparr>rg_start = bi_start bi, rg_end = bi_end bi\<rparr> \<in> set (reserved_regions t)"
proof -
  let ?r = "\<lparr>rg_start = bi_start bi, rg_end = bi_end bi\<rparr>"
  let ?s0 = "set_memory_range qemu bi s"
  define s1 where "s1 = reserve_boot_regions bi ?s0"
  have "reserved_regions ?s0 = reserved_regions s" by (simp add: set_memory_range_def Let_def)
  then have "reserved_regions (memory_reserve (bi_start bi) (bi_end bi - bi_start bi) ?s0) = reserved_regions s @ [?r]"
    "boot_fields (memory_reserve (bi_start bi) (bi_end bi - bi_start bi) ?s0) = boot_fields ?s0"
    using s by (simp_all add: memory_reserve_def boot_fields_def)
  then have f1: "?r \<in> set (reserved_regions s1)" "boot_fields s1 = boot_fields ?s0"
    using reserve_boot_regions_grow [of bi ?s0] unfolding s1_def by (auto simp: boot_fields_def)
  let ?bytes = "of_nat (buddy_total_pages s1) * 4 :: u64"
  obtain p s2 where a2: "startup_alloc ?bytes s1 = (p, s2)" by fastforce
  then obtain r2 where s2: "s2 = s1\<lparr>reserved_regions := reserved_regions s1 @ r2\<rparr>"
    using startup_alloc_from_grow unfolding startup_alloc_def by blast
  let ?s3 = "s2\<lparr>frame_array_ptr := p\<rparr>"
  obtain q s4 where a4: "startup_alloc ?bytes ?s3 = (q, s4)" by fastforce
  then obtain r4 where s4: "s4 = ?s3\<lparr>reserved_regions := reserved_regions ?s3 @ r4\<rparr>"
    using startup_alloc_from_grow unfolding startup_alloc_def by blast
  have e: "buddy_init qemu bi s = (if p = NULL then ?s3 else if q = NULL then s4\<lparr>ref_count_ptr := q\<rparr>
    else init_frames (s4\<lparr>ref_count_ptr := q\<rparr>))"
    using a2 a4 by (simp add: buddy_init_def Let_def s1_def [symmetric])
  then have "p \<noteq> NULL" "q \<noteq> NULL" using assms by (auto split: if_splits)
  then have "buddy_init qemu bi s = init_frames (s4\<lparr>ref_count_ptr := q\<rparr>)" using e by simp
  moreover have "boot_fields (s4\<lparr>ref_count_ptr := q\<rparr>) = boot_fields ?s0"
    "?r \<in> set (reserved_regions (s4\<lparr>ref_count_ptr := q\<rparr>))"
    using f1 by (simp_all add: s4 s2 boot_fields_def)
  ultimately show ?thesis by blast
qed

lemma buddy_init_establishes:
  assumes sane: "sane_boot qemu bi s"
    and ok: "frame_array_ptr (buddy_init qemu bi s) \<noteq> NULL" "ref_count_ptr (buddy_init qemu bi s) \<noteq> NULL"
  shows "buddy_inv (buddy_init qemu bi s) \<and>
    free_frames (buddy_init qemu bi s) =
      {j. j < buddy_total_pages (buddy_init qemu bi s) \<and>
          (\<forall>r\<in>set (reserved_regions (buddy_init qemu bi s)). \<not> pins (buddy_init qemu bi s) r j)}"
proof -
  let ?s0 = "set_memory_range qemu bi s"
  have "length (reserved_regions s) < MAX_RESERVED_REGIONS" using sane by (simp add: sane_boot_def)
  then obtain t where t: "buddy_init qemu bi s = init_frames t" "boot_fields t = boot_fields ?s0"
    "\<lparr>rg_start = bi_start bi, rg_end = bi_end bi\<rparr> \<in> set (reserved_regions t)"
    using buddy_init_frames [OF ok] by blast
  note f = boot_fields_D [OF t(2)]
  have "ref_count_ptr t \<noteq> NULL" using ok unfolding t(1) by (simp add: init_frames_fields)
  moreover have "buddy_total_pages ?s0 \<le> 2 ^ 22"
    using set_memory_range_pages by (rule le_trans) simp
  ultimately have g: "geometry t"
    using sane unfolding geometry_def f by (auto simp: sane_boot_def Let_def idx_to_addr_def f)
  have "free_list t = free_list s" using f by (simp add: set_memory_range_def Let_def)
  then have "heads_reserved t"
    using sane by (intro heads_in_image [OF g t(3)]) (auto simp: sane_boot_def)
  note inv = init_frames_inv [OF g this]
  have same: "pins (init_frames t) = pins t" "buddy_total_pages (init_frames t) = buddy_total_pages t"
    using boot_fields_D [OF init_frames_fields(1) [of t]]
    by (simp_all add: fun_eq_iff pins_def region_first_def region_last_def)
  show ?thesis using inv unfolding t(1) same init_frames_fields(4) .
qed

end
