(* ===== verification/Buddy_Spec.thy ===== *)
theory Buddy_Spec
  imports Buddy_Init "HOL-Library.Multiset"
begin

text \<open>
  The contract of the page-frame allocator: its properties, the interface its clients rely on,
  and the canonical form of the free lists, from which the round trip follows.
\<close>

subsection \<open>Canonical form\<close>

lemma frames_div: "2 ^ k dvd b \<Longrightarrow> i \<in> frames_of b k \<longleftrightarrow> i div 2 ^ k = b div 2 ^ k"
proof -
  assume "2 ^ k dvd b"
  then obtain q where q: "b = q * 2 ^ k" by (metis dvd_def mult.commute)
  have "i div 2 ^ k = q \<longleftrightarrow> q * 2 ^ k \<le> i \<and> i < Suc q * 2 ^ k"
    by (metis div_nat_eqI dividend_less_times_div less_mult_imp_div_less div_times_less_eq_dividend
        mult.commute le_eq_less_or_eq zero_less_power zero_less_numeral dividend_less_div_times mult_Suc add.commute)
  then show ?thesis by (simp add: q frames_of_def add.commute)
qed

lemma frames_nested:
  assumes "2 ^ k dvd b" "2 ^ k' dvd b'" "k \<le> k'" "i \<in> frames_of b k" "i \<in> frames_of b' k'"
  shows "frames_of b k \<subseteq> frames_of b' k'"
proof
  fix j assume "j \<in> frames_of b k"
  then have "j div 2 ^ k = i div 2 ^ k" using assms by (simp add: frames_div)
  then have "j div 2 ^ k div 2 ^ (k' - k) = i div 2 ^ k div 2 ^ (k' - k)" by simp
  then have "j div 2 ^ k' = i div 2 ^ k'"
    using assms(3) by (simp add: div_mult2_eq [symmetric] power_add [symmetric])
  then show "j \<in> frames_of b' k'" using assms by (simp add: frames_div)
qed

text \<open>In an aligned range of free frames no block is smaller than the range.\<close>

lemma no_small_block:
  assumes inv: "buddy_off fl {} s" and reg: "block_ok (buddy_total_pages s) B K"
    and free: "\<And>i. i \<in> frames_of B K \<Longrightarrow> is_free (frame_array s i)"
    and blk: "is_block (buddy_total_pages s) (frame_array s) b k" and i: "i \<in> frames_of b k" "i \<in> frames_of B K"
  shows "K \<le> k"
proof (rule ccontr)
  let ?n = "buddy_total_pages s" and ?f = "frame_array s"
  assume "\<not> K \<le> k"
  define P where "P l \<longleftrightarrow> l < K \<and> (\<exists>c. is_block ?n ?f c l \<and> frames_of c l \<inter> frames_of B K \<noteq> {})" for l
  have n: "?n \<le> 2 ^ 22" using buddy_off_D(1) [OF inv] by (simp add: geometry_def)
  have "P k" using \<open>\<not> K \<le> k\<close> blk i by (auto simp: P_def)
  define l where "l = (LEAST l. P l)"
  have l: "P l" and least: "\<And>m. P m \<Longrightarrow> l \<le> m" unfolding l_def using \<open>P k\<close> by (auto intro: LeastI Least_le)
  obtain c j where c: "l < K" "is_block ?n ?f c l" "j \<in> frames_of c l" "j \<in> frames_of B K"
    using l by (auto simp: P_def)
  have al: "2 ^ l dvd c" "2 ^ K dvd B" "K \<le> MAX_ORDER" using c(2) reg by (auto simp: is_block_def block_ok_def)
  have cB: "frames_of c l \<subseteq> frames_of B K" using frames_nested [OF al(1,2) _ c(3,4)] c(1) by simp
  then have "c \<in> frames_of B K" using block_head [of c l] by blast
  then have cfree: "c \<in> free_heads s {} l"
    using c(2) free [of c] block_bound [of ?n c l c] alloc_tile_alloc [of ?f c l ?n c] n
    by (auto simp: is_block_def free_heads_def free_tile_def)
  let ?x = "c XOR 2 ^ l"
  define p where "p = (if ?x < c then ?x else c)"
  have p: "2 ^ Suc l dvd p" "frames_of p (Suc l) = frames_of c l \<union> frames_of ?x l"
    using xor_buddy [OF al(1)] lower_half(1) [of c l] lower_half(1) [of ?x l]
    by (auto simp: p_def frames_of_def)
  have "c \<in> frames_of p (Suc l)" "c \<in> frames_of B K" using p(2) cB block_head [of c l] by blast+
  then have pB: "frames_of p (Suc l) \<subseteq> frames_of B K"
    using frames_nested [OF p(1) al(2)] c(1) by simp
  then have xB: "?x \<in> frames_of B K" using p(2) block_head [of ?x l] by blast
  then have "?x < ?n" using block_bound [OF reg] by blast
  then obtain d m where d: "is_block ?n ?f d m" "?x \<in> frames_of d m"
    using buddy_off_D(2) [OF inv] unfolding tiled_off_def by blast
  have "l \<le> m"
  proof (cases "m < K")
    case True
    then show ?thesis using d xB by (intro least) (auto simp: P_def)
  qed (use c(1) in simp)
  have "m = l"
  proof (rule ccontr)
    assume "m \<noteq> l"
    then have "Suc l \<le> m" using \<open>l \<le> m\<close> by simp
    moreover have "2 ^ m dvd d" using d(1) by (simp add: is_block_def block_ok_def)
    moreover have "?x \<in> frames_of p (Suc l)" using p(2) block_head [of ?x l] by blast
    ultimately have "frames_of p (Suc l) \<subseteq> frames_of d m"
      using frames_nested [OF p(1), of m d ?x] d(2) by blast
    then have "c \<in> frames_of d m" using p(2) block_head [of c l] by blast
    then have "d = c \<and> m = l" using block_unique [OF d(1) c(2) n] by simp
    with \<open>m \<noteq> l\<close> show False by simp
  qed
  then have dm: "2 ^ l dvd d" "is_block ?n ?f d l" using d(1) by (auto simp: is_block_def block_ok_def)
  have "2 ^ l dvd ?x" using xor_buddy [OF al(1)] al(1) by (metis dvd_add_right_iff dvd_add_triv_right_iff dvd_add_triv_left_iff dvd_add dvd_refl)
  then have "?x div 2 ^ l = d div 2 ^ l" using d(2) dm(1) \<open>m = l\<close> by (simp add: frames_div)
  then have "?x = d" using dm(1) \<open>2 ^ l dvd ?x\<close> by (metis dvd_div_mult_self)
  then have "?x \<in> free_heads s {} l"
    using dm(2) free [OF xB] \<open>?x < ?n\<close> alloc_tile_alloc [of ?f d l ?n d] n
    by (auto simp: is_block_def free_heads_def free_tile_def)
  then show False using buddy_off_D(5) [OF inv] cfree c(1) al(3) by (auto simp: coalesced_def)
qed

lemma canonical_heads:
  assumes inv: "buddy_off fl {} s" "buddy_off fl' {} s'" and n: "buddy_total_pages s' = buddy_total_pages s"
    and ff: "free_frames s' = free_frames s" and k: "k \<le> MAX_ORDER" and b: "b \<in> free_heads s {} k"
  shows "b \<in> free_heads s' {} k"
proof -
  let ?n = "buddy_total_pages s"
  note fb = free_head_block [OF inv(1) k b]
  have n22: "?n \<le> 2 ^ 22" using buddy_off_D(1) [OF inv(1)] by (simp add: geometry_def)
  have eq: "is_free (frame_array s i) \<longleftrightarrow> is_free (frame_array s' i)" if "i < ?n" for i
    using ff that n by (auto simp: free_frames_def)
  have free: "is_free (frame_array s i)" if "i \<in> frames_of b k" for i
    using free_tile_free [OF fb(2) order_small [OF fb(1)] that] .
  have bn: "b < ?n" using block_bound [OF fb(1)] by simp
  then obtain c l where c: "is_block ?n (frame_array s') c l" "b \<in> frames_of c l"
    using buddy_off_D(2) [OF inv(2)] n unfolding tiled_off_def by auto
  have c_ok: "block_ok ?n c l" using c by (simp add: is_block_def)
  have "is_free (frame_array s' b)" using free [of b] eq [OF bn] by simp
  then have ct: "free_tile (frame_array s') c l"
    using c alloc_tile_alloc [OF _ c_ok n22] by (auto simp: is_block_def)
  have "k \<le> l"
    using free eq block_bound [OF fb(1)] c fb(1) n
    by (intro no_small_block [OF inv(2), of b k c l b]) auto
  moreover have "l \<le> k"
  proof (rule no_small_block [OF inv(1) c_ok])
    fix i assume "i \<in> frames_of c l"
    then show "is_free (frame_array s i)"
      using free_tile_free [OF ct order_small [OF c_ok]] eq block_bound [OF c_ok] by blast
  qed (use fb c in \<open>auto simp: is_block_def\<close>)
  ultimately have "k = l" by simp
  then have "b div 2 ^ k = c div 2 ^ k" using c(2) c_ok by (simp add: frames_div block_ok_def)
  then have "b = c" using fb(1) c_ok \<open>k = l\<close> by (metis block_ok_def dvd_div_mult_self)
  then show ?thesis using ct \<open>k = l\<close> bn n by (simp add: free_heads_def free_tile_def)
qed

lemma canonical_form:
  assumes "buddy_inv s" "buddy_inv s'" "buddy_total_pages s' = buddy_total_pages s"
    "free_frames s' = free_frames s" "k \<le> MAX_ORDER"
  shows "free_heads s' {} k = free_heads s {} k"
  using assms canonical_heads [of _ s _ s' k] canonical_heads [of _ s' _ s k]
  by (fastforce simp: buddy_inv_def)


subsection \<open>Counters\<close>

lemma buddy_inv_refs:
  assumes inv: "buddy_inv s" and r: "\<And>b. 1 \<le> ref_count s b \<Longrightarrow> 1 \<le> r b"
  shows "buddy_inv (s\<lparr>ref_count := r\<rparr>)"
proof -
  obtain fl where "buddy_off fl {} s" using inv by (auto simp: buddy_inv_def)
  then have "buddy_off fl {} (s\<lparr>ref_count := r\<rparr>)"
    using r by (auto simp: buddy_off_def lists_ok_def pages_safe_def coalesced_def refs_ok_def)
  then show ?thesis by (auto simp: buddy_inv_def)
qed

lemma owned_refs [simp]: "owned (s\<lparr>ref_count := r\<rparr>) b k = owned s b k"
  by (simp add: owned_def)

lemma get_page_ref_owned:
  assumes inv: "buddy_inv s" and own: "owned s b k" and i: "i \<in> frames_of b k"
  shows "get_page_ref (idx_to_addr s i) s = s\<lparr>ref_count := (ref_count s)(i := ref_count s i + 1)\<rparr>"
  using owned_addr [OF inv own i] by (simp add: get_page_ref_def irq_defs Let_def)

lemma get_page_ref_count_owned:
  assumes inv: "buddy_inv s" and own: "owned s b k" and i: "i \<in> frames_of b k"
  shows "get_page_ref_count (idx_to_addr s i) s = (ref_count s i, s)"
  using owned_addr [OF inv own i] by (simp add: get_page_ref_count_def irq_defs Let_def)

subsection \<open>The interface of an allocator\<close>

text \<open>
  What the clients of the allocator (\<^verbatim>\<open>kmalloc\<close>, the page tables, the task structures) rely on.
\<close>

locale allocator =
  fixes alloc :: "u64 \<Rightarrow> 's \<Rightarrow> u64 \<times> 's"
    and release :: "u64 \<Rightarrow> 's \<Rightarrow> 's"
    and inv :: "'s \<Rightarrow> bool"
    and owns :: "'s \<Rightarrow> u64 \<Rightarrow> bool"
  assumes alloc_inv: "inv s \<Longrightarrow> inv (snd (alloc n s))"
    and alloc_owns: "inv s \<Longrightarrow> fst (alloc n s) \<noteq> NULL \<Longrightarrow> owns (snd (alloc n s)) (fst (alloc n s))"
    and alloc_fresh: "inv s \<Longrightarrow> fst (alloc n s) \<noteq> NULL \<Longrightarrow> \<not> owns s (fst (alloc n s))"
    and alloc_keeps: "inv s \<Longrightarrow> owns s p \<Longrightarrow> owns (snd (alloc n s)) p"
    and release_inv: "inv s \<Longrightarrow> owns s p \<Longrightarrow> inv (release p s)"
    and release_keeps: "inv s \<Longrightarrow> owns s p \<Longrightarrow> owns s q \<Longrightarrow> p \<noteq> q \<Longrightarrow> owns (release p s) q"

text \<open>A client that makes several requests and returns the pointers it got, then gives them back.\<close>

primrec alloc_many :: "(u64 \<Rightarrow> 's \<Rightarrow> u64 \<times> 's) \<Rightarrow> u64 list \<Rightarrow> 's \<Rightarrow> u64 list \<times> 's" where
  "alloc_many alloc [] s = ([], s)"
| "alloc_many alloc (n # ns) s =
     (let (p, s1) = alloc n s; (ps, s2) = alloc_many alloc ns s1
      in (if p = NULL then ps else p # ps, s2))"

definition release_many :: "(u64 \<Rightarrow> 's \<Rightarrow> 's) \<Rightarrow> u64 list \<Rightarrow> 's \<Rightarrow> 's" where
  "release_many release ps s = fold release ps s"

context allocator
begin

lemma alloc_many_ok:
  "inv s \<Longrightarrow> alloc_many alloc ns s = (ps, s') \<Longrightarrow>
    inv s' \<and> distinct ps \<and> (\<forall>p\<in>set ps. owns s' p \<and> \<not> owns s p) \<and> (\<forall>q. owns s q \<longrightarrow> owns s' q)"
proof (induction ns arbitrary: s ps s')
  case (Cons n ns)
  obtain p s1 where a: "alloc n s = (p, s1)" by fastforce
  obtain qs where m: "alloc_many alloc ns s1 = (qs, s')" and ps: "ps = (if p = NULL then qs else p # qs)"
    using Cons.prems(2) a by (auto simp: Let_def split: prod.splits)
  have IH: "inv s' \<and> distinct qs \<and> (\<forall>p\<in>set qs. owns s' p \<and> \<not> owns s1 p) \<and> (\<forall>q. owns s1 q \<longrightarrow> owns s' q)"
    using Cons.IH [OF _ m] alloc_inv [OF Cons.prems(1), of n] a by simp
  have keep: "owns s q \<Longrightarrow> owns s1 q" for q using alloc_keeps [OF Cons.prems(1), of q n] a by simp
  show ?case
    using IH keep alloc_owns [OF Cons.prems(1), of n] alloc_fresh [OF Cons.prems(1), of n] a
    by (auto simp: ps)
qed simp

lemma release_many_ok:
  "inv s \<Longrightarrow> distinct ps \<Longrightarrow> (\<forall>p\<in>set ps. owns s p) \<Longrightarrow>
    inv (release_many release ps s) \<and>
    (\<forall>q. owns s q \<and> q \<notin> set ps \<longrightarrow> owns (release_many release ps s) q)"
proof (induction ps arbitrary: s)
  case (Cons p ps)
  have "inv (release p s)" "\<forall>q\<in>set ps. owns (release p s) q"
    "\<And>q. owns s q \<Longrightarrow> q \<noteq> p \<Longrightarrow> owns (release p s) q"
    using Cons.prems release_inv [of s p] release_keeps [of s p] by auto
  then show ?case using Cons.IH [of "release p s"] Cons.prems by (auto simp: release_many_def)
qed (simp add: release_many_def)

end

definition owns_block :: "'a buddy_state_scheme \<Rightarrow> u64 \<Rightarrow> bool" where
  "owns_block s p \<longleftrightarrow> (\<exists>b k. p = idx_to_addr s b \<and> owned s b k)"

lemma owned_small: "buddy_inv s \<Longrightarrow> owned s b k \<Longrightarrow> b < 2 ^ 51"
  using block_bound [of "buddy_total_pages s" b k b]
  by (auto simp: owned_def buddy_inv_def buddy_off_def geometry_def)

lemma alloc_keeps_owned:
  assumes inv: "buddy_inv s" and own: "owned s b k"
  shows "owned (snd (buddy_alloc sz s)) b k"
proof (cases "can_serve s sz")
  case True
  then obtain c where "alloc_effect s c (alloc_order sz) (snd (buddy_alloc sz s))"
    using buddy_alloc_cases [OF inv, of sz] by auto
  moreover have "i < buddy_total_pages s \<and> i \<notin> free_frames s" if "i \<in> frames_of b k" for i
    using that owned_not_free [OF inv own] own block_bound by (auto simp: owned_def)
  ultimately show ?thesis
    using own by (subst owned_cong [OF address_map_alloc]) (auto simp: alloc_effect_def)
next
  case False
  then show ?thesis using buddy_alloc_cases [OF inv, of sz] own by simp
qed

lemma free_keeps_owned:
  assumes inv: "buddy_inv s" and own: "owned s b k" and other: "owned s c l" "(c, l) \<noteq> (b, k)"
  shows "owned (buddy_free (idx_to_addr s b) s) c l"
proof (cases "1 < ref_count s b")
  case True
  then show ?thesis using buddy_free_shared [OF inv own block_head] other by simp
next
  case False
  then have e: "free_effect s b k (buddy_free (idx_to_addr s b) s)"
    using buddy_free_last [OF inv own] by simp
  have "i < buddy_total_pages s \<and> i \<notin> free_frames s \<union> frames_of b k" if "i \<in> frames_of c l" for i
    using that owned_not_free [OF inv other(1)] owned_disjoint [OF inv other(1) own] other block_bound
    by (auto simp: owned_def)
  then show ?thesis
    using e other(1) by (subst owned_cong [OF address_map_free]) (auto simp: free_effect_def)
qed

lemma free_keeps_inv:
  assumes inv: "buddy_inv s" and own: "owned s b k"
  shows "buddy_inv (buddy_free (idx_to_addr s b) s)"
proof (cases "1 < ref_count s b")
  case True
  then show ?thesis
    unfolding buddy_free_shared [OF inv own block_head True] by (intro buddy_inv_refs [OF inv]) auto
next
  case False
  then show ?thesis using buddy_free_last [OF inv own] by (simp add: free_effect_def)
qed

lemma idx_eq_owned:
  "buddy_inv s \<Longrightarrow> owned s b k \<Longrightarrow> c < buddy_total_pages s \<Longrightarrow> idx_to_addr s b = idx_to_addr s c \<Longrightarrow> b = c"
  using idx_to_addr_inj [of b c s] owned_small [of s b k]
  by (auto simp: buddy_inv_def buddy_off_def geometry_def)

interpretation buddy: allocator buddy_alloc buddy_free buddy_inv owns_block
proof
  fix s :: "'a buddy_state_scheme" and n p q
  assume inv: "buddy_inv s"
  note cases = buddy_alloc_cases [OF inv, of n]
  note map = address_map_eqD [OF address_map_alloc [of n s]]
  show "buddy_inv (snd (buddy_alloc n s))"
    using cases inv by (auto simp: alloc_effect_def split: if_splits)
  show "owns_block (snd (buddy_alloc n s)) (fst (buddy_alloc n s))" if "fst (buddy_alloc n s) \<noteq> NULL"
    using cases that by (auto simp: alloc_effect_def owns_block_def map split: if_splits)
  show "\<not> owns_block s (fst (buddy_alloc n s))" if served: "fst (buddy_alloc n s) \<noteq> NULL"
  proof
    assume "owns_block s (fst (buddy_alloc n s))"
    then obtain b k where b: "fst (buddy_alloc n s) = idx_to_addr s b" "owned s b k"
      by (auto simp: owns_block_def)
    obtain c where c: "fst (buddy_alloc n s) = idx_to_addr s c" "alloc_effect s c (alloc_order n) (snd (buddy_alloc n s))"
      using cases served by (auto split: if_splits)
    then have "c \<in> free_frames s" by (auto simp: alloc_effect_def)
    moreover then have "b = c" using b c by (intro idx_eq_owned [OF inv b(2)]) (auto simp: free_frames_def)
    ultimately show False using owned_not_free [OF inv b(2)] block_head [of b k] by blast
  qed
  show "owns_block (snd (buddy_alloc n s)) p" if "owns_block s p"
    using that alloc_keeps_owned [OF inv] unfolding owns_block_def map by blast
  show "buddy_inv (buddy_free p s)" if "owns_block s p"
    using that free_keeps_inv [OF inv] by (auto simp: owns_block_def)
  show "owns_block (buddy_free p s) q" if p: "owns_block s p" and q: "owns_block s q" and neq: "p \<noteq> q"
  proof -
    obtain b k where "p = idx_to_addr s b" "owned s b k" using p by (auto simp: owns_block_def)
    moreover obtain c l where "q = idx_to_addr s c" "owned s c l" using q by (auto simp: owns_block_def)
    ultimately show ?thesis
      using neq free_keeps_owned [OF inv] address_map_eqD [OF address_map_free [of p s]]
      unfolding owns_block_def by (metis prod.inject)
  qed
qed


subsection \<open>Two concrete states\<close>

text \<open>
  A range of two pages at \<open>0x80000000\<close> whose list heads lie at \<open>0x1000\<close>: as one free block, and
  as one allocated block. Empty heads point to themselves (\<open>c AND NOT 15\<close>).
\<close>

definition two_pages :: "(nat \<Rightarrow> int) \<Rightarrow> mem \<Rightarrow> buddy_state" where
  "two_pages f m =
     \<lparr>sie = True, mem = m, buddy_base_addr = 0x80000000, buddy_end_addr = 0x80002000, buddy_total_pages = 2,
      frame_array = f, ref_count = (\<lambda>_. 1), frame_array_ptr = 0x2000, ref_count_ptr = 0x3000,
      free_list = 0x1000, reserved_regions = []\<rparr>"

definition free_pair :: buddy_state where
  "free_pair = two_pages (\<lambda>i. if i = 0 then 1 else - 1)
     (\<lambda>c. if c = 0x1010 \<or> c = 0x1018 then 0x80000000
          else if c = 0x80000000 \<or> c = 0x80000008 then 0x1010 else c AND NOT 15)"

definition taken_pair :: buddy_state where
  "taken_pair = two_pages (\<lambda>i. ALLOC_TAG 0 1) (\<lambda>c. c AND NOT 15)"

lemma head_addr: "free_list_head (two_pages f m) k = 0x1000 + of_nat (16 * k)"
  by (simp add: free_list_head_def two_pages_def)

lemma page_addr: "idx_to_addr (two_pages f m) i = 0x80000000 + of_nat (i * 4096)"
  by (simp add: idx_to_addr_def two_pages_def)

lemma order_cases: "(\<forall>k\<le>MAX_ORDER. P k) \<longleftrightarrow>
    P 0 \<and> P 1 \<and> P 2 \<and> P 3 \<and> P 4 \<and> P 5 \<and> P 6 \<and> P 7 \<and> P 8 \<and> P 9 \<and> P 10 \<and> P 11 \<and> P 12 \<and> P 13 \<and> P 14 \<and> P 15 \<and> P 16"
proof -
  have "(\<forall>k\<le>MAX_ORDER. P k) \<longleftrightarrow> (\<forall>k\<in>set [0..<17]. P k)" by (auto simp: MAX_ORDER_def)
  moreover have "[0..<17] = [0, 1, 2, 3, 4, 5, 6, 7, 8, 9, 10, 11, 12, 13, 14, 15, 16]" by (simp add: upt_rec)
  ultimately show ?thesis by (simp only: list.set) simp
qed

lemma two_pages_basic:
  "geometry (two_pages f m)" "safe_page (two_pages f m) 0" "safe_page (two_pages f m) 1"
  unfolding geometry_def safe_page_def order_cases head_addr page_addr sep_def
  by (simp_all add: two_pages_def idx_to_addr_def)

lemma two_pages_fields [simp]:
  "buddy_total_pages (two_pages f m) = 2" "frame_array (two_pages f m) = f" "mem (two_pages f m) = m"
  "ref_count (two_pages f m) = (\<lambda>_. 1)" "sie (two_pages f m) = True"
  by (simp_all add: two_pages_def)

lemma two_pages_safe: "i < 2 \<Longrightarrow> safe_page (two_pages f m) i"
  using two_pages_basic by (cases i) auto

lemma free_pair_inv: "buddy_inv free_pair" and free_pair_heads: "free_heads free_pair {} 1 = {0}"
proof -
  let ?f = "\<lambda>i::nat. if i = 0 then 1 else - 1 :: int"
  have h: "free_heads free_pair {} k = (if k = 1 then {0} else {})" for k
    by (auto simp: free_heads_def free_pair_def)
  then show "free_heads free_pair {} 1 = {0}" by simp
  have "is_block 2 ?f 0 1" by (auto simp: is_block_def block_ok_def free_tile_def MAX_ORDER_def FRAME_FREE_PART_def)
  then have "tiled_off 2 ?f {}"
    unfolding tiled_off_def by (intro allI impI exI [of _ "0::nat"] exI [of _ "1::nat"]) (simp add: frames_of_def)
  moreover have "lists_ok (\<lambda>k. if k = 1 then [0] else []) {} free_pair"
    unfolding lists_ok_def order_cases h
    unfolding free_pair_def head_addr page_addr
    by (simp add: page_addr) (simp add: clist_def sep_def)
  moreover have "refs_ok {} free_pair" by (simp add: refs_ok_def free_pair_def)
  ultimately have "buddy_off (\<lambda>k. if k = 1 then [0] else []) {} free_pair"
    using two_pages_basic h
    by (auto simp: buddy_off_def pages_safe_def coalesced_def free_pair_def two_pages_safe)
  then show "buddy_inv free_pair" by (auto simp: buddy_inv_def)
qed

lemma taken_pair_inv: "buddy_inv taken_pair" and taken_pair_owned: "owned taken_pair 0 1"
proof -
  let ?f = "\<lambda>i::nat. ALLOC_TAG 0 1"
  have v: "ALLOC_TAG 0 (Suc 0) = 2 ^ 30 + 1" by (simp add: tag_value)
  have h: "free_heads taken_pair {} k = {}" if "k \<le> MAX_ORDER" for k
    using that by (auto simp: free_heads_def taken_pair_def v MAX_ORDER_def)
  have ok: "block_ok 2 0 1" by (simp add: block_ok_def MAX_ORDER_def)
  have tile: "alloc_tile ?f 0 1" by (simp add: alloc_tile_def)
  show "owned taken_pair 0 1"
    using ok tile two_pages_basic by (auto simp: owned_def taken_pair_def frames_of_def two_pages_safe)
  have "tiled_off 2 ?f {}"
    using ok tile unfolding tiled_off_def is_block_def
    by (intro allI impI exI [of _ "0::nat"] exI [of _ "1::nat"]) (simp add: frames_of_def)
  moreover have "lists_ok (\<lambda>k. []) {} taken_pair"
    using h unfolding lists_ok_def order_cases
    unfolding taken_pair_def head_addr page_addr
    by (simp add: MAX_ORDER_def) (simp add: clist_def)
  moreover have "refs_ok {} taken_pair" by (simp add: refs_ok_def taken_pair_def)
  ultimately have "buddy_off (\<lambda>k. []) {} taken_pair"
    using two_pages_basic h
    by (auto simp: buddy_off_def pages_safe_def coalesced_def taken_pair_def two_pages_safe)
  then show "buddy_inv taken_pair" by (auto simp: buddy_inv_def)
qed


lemma order_of_one: "alloc_order 1 = 0"
  by (simp add: alloc_order_def pages_to_order_def pages_to_order_from.simps)

lemma free_pair_serves: "can_serve free_pair 1"
proof -
  have "alloc_order 1 \<le> 1 \<and> 1 \<le> MAX_ORDER \<and> free_heads free_pair {} 1 \<noteq> {}"
    unfolding free_pair_heads order_of_one by (simp add: MAX_ORDER_def)
  then show ?thesis unfolding can_serve_def by (metis zero_neq_one)
qed

lemma order_of_page: "alloc_order PAGE_SIZE = 0"
  by (simp add: alloc_order_def pages_to_order_def pages_to_order_from.simps)

lemma page_served:
  assumes inv: "buddy_inv s"
  shows "can_serve s PAGE_SIZE \<longleftrightarrow> free_frames s \<noteq> {}"
proof
  assume "can_serve s PAGE_SIZE"
  then show "free_frames s \<noteq> {}" using free_heads_frames by (fastforce simp: can_serve_def)
next
  assume "free_frames s \<noteq> {}"
  then obtain j where j: "j < buddy_total_pages s" "is_free (frame_array s j)" by (auto simp: free_frames_def)
  obtain fl where off: "buddy_off fl {} s" using inv by (auto simp: buddy_inv_def)
  have n: "buddy_total_pages s \<le> 2 ^ 22" using buddy_off_D(1) [OF off] by (simp add: geometry_def)
  obtain b k where b: "is_block (buddy_total_pages s) (frame_array s) b k" "j \<in> frames_of b k"
    using buddy_off_D(2) [OF off] j(1) unfolding tiled_off_def by blast
  then have ok: "block_ok (buddy_total_pages s) b k" by (simp add: is_block_def)
  then have "free_tile (frame_array s) b k"
    using b j(2) alloc_tile_alloc [OF _ ok n b(2)] by (auto simp: is_block_def)
  then have "b \<in> free_heads s {} k" using block_bound [OF ok block_head] by (simp add: free_heads_def free_tile_def)
  moreover have "k \<le> MAX_ORDER" using ok by (simp add: block_ok_def)
  ultimately have "0 \<le> k \<and> k \<le> MAX_ORDER \<and> free_heads s {} k \<noteq> {}" by auto
  then show "can_serve s PAGE_SIZE" unfolding can_serve_def order_of_page by auto
qed

lemma buddy_alloc_nonnull:
  assumes inv: "buddy_inv s" and "can_serve s sz"
  shows "fst (buddy_alloc sz s) \<noteq> NULL"
proof -
  obtain b where b: "fst (buddy_alloc sz s) = idx_to_addr s b" "alloc_effect s b (alloc_order sz) (snd (buddy_alloc sz s))"
    using buddy_alloc_cases [OF inv, of sz] assms(2) by auto
  moreover have "b \<in> frames_of b (alloc_order sz)" by simp
  ultimately have "b \<in> free_frames s" unfolding alloc_effect_def by blast
  then have "b < buddy_total_pages s" by (simp add: free_frames_def)
  then show ?thesis using b(1) addr_in_range(1) inv by (auto simp: buddy_inv_def buddy_off_def)
qed

subsection \<open>Properties\<close>

text \<open>C1: \<^verbatim>\<open>buddy_alloc\<close> on a state with the invariant. If some free block is large enough it returns
  the non-null address of a block of the requested order: all frames of the block were free, the
  caller owns it, its counters are 1, exactly its frames leave the free set, other tags, counters
  and all memory but list nodes are unchanged, and the invariant holds again. Otherwise it returns
  NULL and changes nothing. The interrupt bit is restored.\<close>

theorem buddy_alloc_correct:
  assumes "buddy_inv s"
  shows "case buddy_alloc sz s of (p, s') \<Rightarrow>
    if can_serve s sz
    then \<exists>b. p = idx_to_addr s b \<and> p \<noteq> NULL \<and> alloc_effect s b (alloc_order sz) s' \<and> sie s' = sie s
    else p = NULL \<and> s' = s"
proof (cases "can_serve s sz")
  case True
  then obtain b where b: "fst (buddy_alloc sz s) = idx_to_addr s b"
    "alloc_effect s b (alloc_order sz) (snd (buddy_alloc sz s))" "sie (snd (buddy_alloc sz s)) = sie s"
    using buddy_alloc_cases [OF assms, of sz] by auto
  moreover have "fst (buddy_alloc sz s) \<noteq> NULL" by (rule buddy_alloc_nonnull [OF assms True])
  ultimately show ?thesis using True by (auto simp: case_prod_unfold)
qed (use buddy_alloc_cases [OF assms, of sz] in simp)

theorem buddy_alloc_correct_witness:
  "can_serve free_pair 1 \<and> (\<exists>b. fst (buddy_alloc 1 free_pair) = idx_to_addr free_pair b \<and>
     alloc_effect free_pair b 0 (snd (buddy_alloc 1 free_pair)))"
proof -
  note o = order_of_one and c = free_pair_serves
  show ?thesis
    using buddy_alloc_correct [OF free_pair_inv, of 1] o c by (auto simp: case_prod_unfold)
qed

text \<open>The order \<^verbatim>\<open>buddy_alloc\<close> requests is the least whose block holds the bytes asked for, for
  every size that does not wrap around when rounded up to pages.\<close>

theorem alloc_order_least:
  assumes "unat sz \<le> 2 ^ 64 - 4096"
  shows "unat sz \<le> 4096 * 2 ^ alloc_order sz \<and> (\<forall>j<alloc_order sz. 4096 * 2 ^ j < unat sz)"
proof -
  let ?n = "unat ((sz + PAGE_SIZE - 1) div PAGE_SIZE)"
  have "sz + PAGE_SIZE - 1 = sz + 4095" by simp
  then have n: "?n = (unat sz + 4095) div 4096"
    using assms by (simp add: unat_div unat_add_nowrap)
  have "unat sz \<le> 4096 * 2 ^ pages_to_order ?n"
    using pages_to_order_fits [of ?n] n by linarith
  moreover have "4096 * 2 ^ j < unat sz" if "j < pages_to_order ?n" for j
  proof -
    have "\<not> ?n \<le> 2 ^ j" using pages_to_order_least [of ?n j] that by auto
    then show ?thesis using n by linarith
  qed
  ultimately show ?thesis by (simp add: alloc_order_def)
qed

text \<open>A size within a page of \<open>2 ^ 64\<close> wraps around in the rounding of \<^verbatim>\<open>buddy_alloc\<close>: the request
  is answered like a request for one byte, with a single page.\<close>

theorem buddy_alloc_size_wraps:
  assumes "2 ^ 64 - 4096 < unat sz"
  shows "buddy_alloc sz s = buddy_alloc 1 s"
proof -
  have z: "sz \<noteq> 0" using assms by auto
  have a: "sz + PAGE_SIZE - 1 = sz + 4095" by simp
  have "unat (sz + 4095) = unat sz + 4095 - 2 ^ 64"
    using assms unat_u64_bound [of sz] by (simp add: unat_word_ariths le_mod_geq)
  moreover have "unat sz < 2 ^ 64" by (rule unat_u64_bound)
  ultimately have "unat (sz + 4095) < 4096" using assms by simp
  then have "unat ((sz + PAGE_SIZE - 1) div PAGE_SIZE) = 0" unfolding a by (simp add: unat_div)
  moreover have "unat ((1 + PAGE_SIZE - 1 :: u64) div PAGE_SIZE) = 1" by simp
  moreover have "pages_to_order 0 = pages_to_order 1"
    by (simp add: pages_to_order_def pages_to_order_from.simps)
  ultimately show ?thesis using z by (simp add: buddy_alloc_def)
qed

text \<open>A request for one page fails only when no frame is free: fragmentation cannot make it fail.\<close>

theorem page_request_complete:
  assumes "buddy_inv s"
  shows "fst (buddy_alloc PAGE_SIZE s) = NULL \<longleftrightarrow> free_frames s = {}"
proof (cases "can_serve s PAGE_SIZE")
  case True
  then obtain b where "fst (buddy_alloc PAGE_SIZE s) = idx_to_addr s b" "frames_of b 0 \<subseteq> free_frames s"
    using buddy_alloc_cases [OF assms, of PAGE_SIZE] by (auto simp: order_of_page alloc_effect_def)
  moreover then have "b \<in> free_frames s" using block_head [of b 0] by blast
  then have "b < buddy_total_pages s" by (simp add: free_frames_def)
  moreover have "geometry s" using assms by (auto simp: buddy_inv_def buddy_off_def)
  ultimately show ?thesis using True page_served [OF assms] addr_in_range(1) [of s b] by simp
qed (use buddy_alloc_cases [OF assms, of PAGE_SIZE] page_served [OF assms] in simp)

text \<open>C10: a list of requests to \<^verbatim>\<open>buddy_alloc\<close> gives pairwise distinct pointers, none of which was
  owned before and all of which are owned afterwards together with all earlier ones; giving them
  back in any order with \<^verbatim>\<open>buddy_free\<close> keeps the invariant and every other owner.\<close>

theorem buddy_requests_disjoint:
  assumes "buddy_inv s" "alloc_many buddy_alloc szs s = (ps, s')" "mset qs = mset ps"
  shows "distinct ps \<and> (\<forall>p\<in>set ps. owns_block s' p \<and> \<not> owns_block s p) \<and>
    (\<forall>q. owns_block s q \<longrightarrow> owns_block (release_many buddy_free qs s') q) \<and>
    buddy_inv (release_many buddy_free qs s')"
proof -
  note a = buddy.alloc_many_ok [OF assms(1,2)]
  have qs: "set qs = set ps" "distinct qs \<longleftrightarrow> distinct ps"
    using assms(3) by (metis set_mset_mset, metis mset_eq_imp_distinct_iff)
  have "buddy_inv (release_many buddy_free qs s') \<and>
    (\<forall>q. owns_block s' q \<and> q \<notin> set qs \<longrightarrow> owns_block (release_many buddy_free qs s') q)"
    using a qs by (intro buddy.release_many_ok) auto
  then show ?thesis using a qs by blast
qed

theorem buddy_requests_disjoint_witness:
  "distinct (fst (alloc_many buddy_alloc [1, 4096] free_pair)) \<and>
   buddy_inv (release_many buddy_free (rev (fst (alloc_many buddy_alloc [1, 4096] free_pair)))
     (snd (alloc_many buddy_alloc [1, 4096] free_pair)))"
  using buddy_requests_disjoint [OF free_pair_inv, of "[1, 4096]" "fst (alloc_many buddy_alloc [1, 4096] free_pair)"
    "snd (alloc_many buddy_alloc [1, 4096] free_pair)" "rev (fst (alloc_many buddy_alloc [1, 4096] free_pair))"]
  by simp

text \<open>An owned block stays owned, with its tags, its counters and the contents of its pages, when
  any other request is served.\<close>

theorem buddy_alloc_keeps_owners:
  assumes "buddy_inv s" "owned s b k"
  shows "owned (snd (buddy_alloc sz s)) b k \<and>
    (\<forall>i\<in>frames_of b k. ref_count (snd (buddy_alloc sz s)) i = ref_count s i \<and>
       (\<forall>c. unat (idx_to_addr s i) \<le> unat c \<and> unat c < unat (idx_to_addr s i) + 4096 \<longrightarrow>
          mem (snd (buddy_alloc sz s)) c = mem s c))"
proof (cases "can_serve s sz")
  case True
  then obtain c where c: "alloc_effect s c (alloc_order sz) (snd (buddy_alloc sz s))"
    using buddy_alloc_cases [OF assms(1), of sz] by auto
  then have "i \<notin> frames_of c (alloc_order sz)" if "i \<in> frames_of b k" for i
    using owned_not_free [OF assms] that by (auto simp: alloc_effect_def)
  moreover have "c \<notin> list_area s (free_frames s)"
    if "i \<in> frames_of b k" "unat (idx_to_addr s i) \<le> unat c" "unat c < unat (idx_to_addr s i) + 4096" for i c
    using that assms owned_not_free [OF assms] block_bound [of "buddy_total_pages s" b k i]
    by (intro page_not_list [of s i]) (auto simp: buddy_inv_def buddy_off_def owned_def free_frames_def)
  ultimately show ?thesis using c alloc_keeps_owned [OF assms] by (simp add: alloc_effect_def)
next
  case False
  then show ?thesis using buddy_alloc_cases [OF assms(1), of sz] assms(2) by simp
qed

text \<open>C6: \<^verbatim>\<open>buddy_free\<close> of an owned block with one reference left gives exactly its frames back,
  merged with free buddies as far as possible (no two free buddies remain), touches no other tag
  or counter and no memory but list nodes, keeps the invariant and restores the interrupt bit.\<close>

theorem buddy_free_last_reference:
  assumes "buddy_inv s" "owned s b k" "ref_count s b \<le> 1"
  shows "free_effect s b k (buddy_free (idx_to_addr s b) s) \<and> sie (buddy_free (idx_to_addr s b) s) = sie s"
  using buddy_free_last [OF assms] by simp

theorem buddy_free_last_reference_witness:
  "free_frames (buddy_free 0x80000000 taken_pair) = free_frames taken_pair \<union> {0, 1}"
proof -
  have "idx_to_addr taken_pair 0 = 0x80000000" by (simp add: taken_pair_def page_addr)
  moreover have "frames_of 0 1 = {0, 1}" by (auto simp: frames_of_def)
  moreover have "ref_count taken_pair 0 \<le> 1" by (simp add: taken_pair_def)
  ultimately show ?thesis
    using buddy_free_last_reference [OF taken_pair_inv taken_pair_owned] by (simp add: free_effect_def)
qed

text \<open>\<^verbatim>\<open>buddy_free\<close> of a page with more references only decrements its counter; the block stays
  owned. So \<^verbatim>\<open>get_page_ref\<close> followed by \<^verbatim>\<open>buddy_free\<close> is the identity, and
  \<^verbatim>\<open>get_page_ref_count\<close> sees one reference more in between.\<close>

theorem get_page_ref_free:
  assumes "buddy_inv s" "owned s b k" "i \<in> frames_of b k" "1 \<le> ref_count s i"
  defines "p \<equiv> idx_to_addr s i"
  shows "buddy_free p (get_page_ref p s) = s \<and> get_page_ref_count p (get_page_ref p s) = (ref_count s i + 1, get_page_ref p s) \<and>
    buddy_inv (get_page_ref p s) \<and> owned (get_page_ref p s) b k"
proof -
  let ?s = "s\<lparr>ref_count := (ref_count s)(i := ref_count s i + 1)\<rparr>"
  have e: "get_page_ref (idx_to_addr s i) s = ?s" by (rule get_page_ref_owned [OF assms(1-3)])
  have inv: "buddy_inv ?s" by (intro buddy_inv_refs [OF assms(1)]) auto
  have own: "owned ?s b k" using assms(2) by simp
  have "buddy_free (idx_to_addr ?s i) ?s = s"
    using buddy_free_shared [OF inv own assms(3)] assms(4) by simp
  then show ?thesis
    using inv own get_page_ref_count_owned [OF inv own assms(3)] unfolding p_def e by simp
qed

text \<open>C2: allocating a block and freeing it restores the allocator: the same frames are free and the
  same blocks are on the list of every order.\<close>

theorem buddy_alloc_free_roundtrip:
  assumes "buddy_inv s" "can_serve s sz" "k \<le> MAX_ORDER"
  defines "s' \<equiv> buddy_free (fst (buddy_alloc sz s)) (snd (buddy_alloc sz s))"
  shows "buddy_inv s' \<and> free_frames s' = free_frames s \<and> free_heads s' {} k = free_heads s {} k"
proof -
  let ?s1 = "snd (buddy_alloc sz s)"
  obtain b where b: "fst (buddy_alloc sz s) = idx_to_addr s b" "alloc_effect s b (alloc_order sz) ?s1"
    using buddy_alloc_cases [OF assms(1), of sz] assms(2) by auto
  then have inv: "buddy_inv ?s1" and own: "owned ?s1 b (alloc_order sz)" and one: "ref_count ?s1 b \<le> 1"
    by (auto simp: alloc_effect_def)
  have "idx_to_addr ?s1 b = idx_to_addr s b" by (simp add: address_map_eqD [OF address_map_alloc])
  then have e: "free_effect ?s1 b (alloc_order sz) s'"
    using buddy_free_last(1) [OF inv own one] by (simp add: s'_def b(1))
  have ff: "free_frames s' = free_frames s"
    using e b(2) by (auto simp: free_effect_def alloc_effect_def)
  have "buddy_total_pages s' = buddy_total_pages s"
    unfolding s'_def by (intro address_map_eqD(4)) simp
  then show ?thesis
    using canonical_form [OF assms(1) _ _ ff assms(3)] e ff by (simp add: free_effect_def)
qed

theorem buddy_alloc_free_roundtrip_witness:
  "free_heads (buddy_free (fst (buddy_alloc 1 free_pair)) (snd (buddy_alloc 1 free_pair))) {} 1 = {0}"
  using buddy_alloc_free_roundtrip [OF free_pair_inv free_pair_serves, of 1] free_pair_heads
  by (simp add: MAX_ORDER_def)


subsection \<open>Initialisation\<close>

text \<open>A 64 KiB machine whose kernel image takes the third and fourth page.\<close>

definition small_boot :: boot_info where
  "small_boot = \<lparr>bi_start = va 0x80002000, bi_end = va 0x80004000, bi_mem_start = 0x80000000, bi_mem_size = 0x10000,
     bi_dtb_addr = NULL, bi_dtb_totalsize = 0, bi_cpio_addr = NULL, bi_dtb_reserved = []\<rparr>"

definition power_on :: buddy_state where
  "power_on = \<lparr>sie = False, mem = (\<lambda>_. 0), buddy_base_addr = 0, buddy_end_addr = 0, buddy_total_pages = 0,
     frame_array = (\<lambda>_. 0), ref_count = (\<lambda>_. 0), frame_array_ptr = NULL, ref_count_ptr = NULL,
     free_list = va 0x80003000, reserved_regions = []\<rparr>"

lemma small_boot_sane: "sane_boot True small_boot power_on"
  by (simp add: sane_boot_def set_memory_range_def small_boot_def power_on_def va_def Let_def idx_to_addr_def MAX_RESERVED_REGIONS_def)

lemma small_boot_arrays:
  "frame_array_ptr (buddy_init True small_boot power_on) = va 0x80004000"
  "ref_count_ptr (buddy_init True small_boot power_on) = va 0x80005000"
  by (simp_all add: buddy_init_def set_memory_range_def reserve_boot_regions_def memory_reserve_def small_boot_def
      power_on_def va_def Let_def startup_alloc_def startup_alloc_from.simps clashes_def MAX_RESERVED_REGIONS_def
      init_frames_fields)



text \<open>The early allocator returns pages of the managed range that clash with no region reserved
  so far, and reserves them while the table of regions has room.\<close>

theorem startup_alloc_fresh:
  assumes "startup_alloc sz s = (p, s')" "p \<noteq> NULL"
  defines "pages \<equiv> unat ((sz + PAGE_SIZE - 1) div PAGE_SIZE)"
  shows "(\<exists>i. i + pages \<le> buddy_total_pages s \<and> p = idx_to_addr s i) \<and>
    (\<forall>r\<in>set (reserved_regions s). \<not> clashes p (p + of_nat pages * PAGE_SIZE) r) \<and>
    (length (reserved_regions s) < MAX_RESERVED_REGIONS \<longrightarrow>
       reserved_regions s' = reserved_regions s @ [\<lparr>rg_start = p, rg_end = p + of_nat pages * PAGE_SIZE\<rparr>])"
  using startup_alloc_from_spec [of pages 0 s p s'] assms
  by (auto simp: startup_alloc_def memory_reserve_def)

text \<open>A reserved region given below the managed range, as every region given by a physical
  address is, pins no frame.\<close>

theorem low_region_not_pinned:
  assumes "rg_end r \<le> buddy_base_addr s"
  shows "pin_region r s = s"
  using assms by (simp add: pin_region_eq pins_def region_last_def)

end
