(* ===== verification/Kmalloc.thy ===== *)
theory Kmalloc
  imports Buddy_Spec
begin

text \<open>
  The chunk allocator \<^verbatim>\<open>kernel/src/kmalloc.c\<close> over the page-frame allocator: state, operations,
  invariant and effect. The array \<^verbatim>\<open>page_pool_idx\<close> is a function from frame indices; the free
  chunks of a pool are a NULL-terminated list whose links are the first cells of the chunks.
\<close>

subsection \<open>State and operations\<close>

definition NUM_POOLS :: nat where "NUM_POOLS = 8"

definition pool_sizes :: "u64 list" where
  "pool_sizes = [16, 32, 64, 128, 256, 512, 1024, 2048]"

record pool =
  chunk_size :: u64
  pool_free_list :: u64

record kmalloc_state = buddy_state +
  pools :: "nat \<Rightarrow> pool"
  page_pool_idx_ptr :: u64
  page_pool_idx :: "nat \<Rightarrow> int"

function find_pool_from :: "nat \<Rightarrow> u64 \<Rightarrow> int" where
  "find_pool_from i sz =
     (if i < NUM_POOLS then (if sz \<le> pool_sizes ! i then int i else find_pool_from (i + 1) sz) else - 1)"
  by pat_completeness auto
termination
  by (relation "measure (\<lambda>(i, sz). NUM_POOLS - i)") auto

declare find_pool_from.simps [simp del]

definition find_pool :: "u64 \<Rightarrow> int" where "find_pool sz = find_pool_from 0 sz"

definition addr_to_page_idx :: "'a buddy_state_scheme \<Rightarrow> u64 \<Rightarrow> nat" where
  "addr_to_page_idx s addr = unat ((addr - buddy_base_addr s) div PAGE_SIZE)"

definition kmalloc_init :: "'a kmalloc_state_scheme \<Rightarrow> 'a kmalloc_state_scheme" where
  "kmalloc_init s0 =
     (let s1 = fold (\<lambda>i s. s\<lparr>pools := (pools s)(i := \<lparr>chunk_size = pool_sizes ! i, pool_free_list = NULL\<rparr>)\<rparr>)
                 [0..<NUM_POOLS] s0;
          (p, s2) = buddy_alloc (of_nat (buddy_total_pages s1)) s1;
          s3 = s2\<lparr>page_pool_idx_ptr := p\<rparr>
      in if p \<noteq> NULL
         then s3\<lparr>page_pool_idx := fill 0 0 (buddy_total_pages s3) (- 1) (page_pool_idx s3)\<rparr> else s3)"

text \<open>Push the chunk at \<open>node\<close> onto pool \<open>i\<close>; the body of the slicing loop and the end of \<^verbatim>\<open>kfree\<close>.\<close>

definition push_chunk :: "nat \<Rightarrow> u64 \<Rightarrow> 'a kmalloc_state_scheme \<Rightarrow> 'a kmalloc_state_scheme" where
  "push_chunk i node s =
     s\<lparr>mem := (mem s)(node := pool_free_list (pools s i)),
       pools := (pools s)(i := (pools s i)\<lparr>pool_free_list := node\<rparr>)\<rparr>"

definition slice_page :: "nat \<Rightarrow> u64 \<Rightarrow> 'a kmalloc_state_scheme \<Rightarrow> 'a kmalloc_state_scheme" where
  "slice_page pidx page s =
     (let chunk_sz = chunk_size (pools s pidx);
          num_chunks = unat (PAGE_SIZE div chunk_sz)
      in fold (\<lambda>i. push_chunk pidx (page + of_nat i * chunk_sz)) [0..<num_chunks] s)"

definition pop_chunk :: "nat \<Rightarrow> 'a kmalloc_state_scheme \<Rightarrow> u64 \<times> 'a kmalloc_state_scheme" where
  "pop_chunk pidx s =
     (let chunk = pool_free_list (pools s pidx)
      in (chunk, s\<lparr>pools := (pools s)(pidx := (pools s pidx)\<lparr>pool_free_list := mem s chunk\<rparr>)\<rparr>))"

definition kmalloc_large :: "u64 \<Rightarrow> 'a kmalloc_state_scheme \<Rightarrow> u64 \<times> 'a kmalloc_state_scheme" where
  "kmalloc_large sz s =
     (let (ptr, s1) = buddy_alloc sz s
      in (ptr, if ptr \<noteq> NULL
               then let pages = unat ((sz + PAGE_SIZE - 1) div PAGE_SIZE);
                        base = addr_to_page_idx s1 ptr
                    in s1\<lparr>page_pool_idx := fill base 0 pages (- 1) (page_pool_idx s1)\<rparr>
               else s1))"

definition kmalloc_small :: "nat \<Rightarrow> 'a kmalloc_state_scheme \<Rightarrow> u64 \<times> 'a kmalloc_state_scheme" where
  "kmalloc_small pidx s =
     (if pool_free_list (pools s pidx) = NULL
      then let (page, s1) = buddy_alloc PAGE_SIZE s
           in if page = NULL then (NULL, s1)
              else let pg_idx = addr_to_page_idx s1 page;
                       s2 = s1\<lparr>page_pool_idx := (page_pool_idx s1)(pg_idx := int pidx)\<rparr>
                   in pop_chunk pidx (slice_page pidx page s2)
      else pop_chunk pidx s)"

definition kmalloc :: "u64 \<Rightarrow> 'a kmalloc_state_scheme \<Rightarrow> u64 \<times> 'a kmalloc_state_scheme" where
  "kmalloc sz s0 =
     (let (saved, s) = csrrci s0;
          (ret, s') = (if sz = 0 then (NULL, s)
                       else let pidx = find_pool sz
                            in if pidx < 0 then kmalloc_large sz s else kmalloc_small (nat pidx) s)
      in (ret, csrs saved s'))"

definition kfree :: "u64 \<Rightarrow> 'a kmalloc_state_scheme \<Rightarrow> 'a kmalloc_state_scheme" where
  "kfree ptr s0 =
     (let (saved, s) = csrrci s0;
          s' = (if ptr = NULL then s
                else let page_base = ptr AND NOT (PAGE_SIZE - 1);
                         pidx = page_pool_idx s (addr_to_page_idx s page_base)
                     in if pidx < 0 then buddy_free ptr s else push_chunk (nat pidx) ptr s)
      in csrs saved s')"

subsection \<open>Pools\<close>

lemma pool_cases: "i < NUM_POOLS \<longleftrightarrow> i = 0 \<or> i = 1 \<or> i = 2 \<or> i = 3 \<or> i = 4 \<or> i = 5 \<or> i = 6 \<or> i = 7"
  by (auto simp: NUM_POOLS_def)

text \<open>The byte size of the chunks of pool \<open>i\<close>.\<close>

abbreviation psize :: "nat \<Rightarrow> nat" where "psize i \<equiv> 2 ^ (i + 4)"

lemma pool_size: "i < NUM_POOLS \<Longrightarrow> unat (pool_sizes ! i) = psize i"
  by (auto simp: pool_cases pool_sizes_def)

lemma psize_le: "i < NUM_POOLS \<Longrightarrow> psize i \<le> 2048 \<and> 16 \<le> psize i"
  by (auto simp: pool_cases)

lemma find_pool_from_spec:
  "i \<le> NUM_POOLS \<Longrightarrow>
   if \<exists>j. i \<le> j \<and> j < NUM_POOLS \<and> sz \<le> pool_sizes ! j
   then \<exists>j. find_pool_from i sz = int j \<and> i \<le> j \<and> j < NUM_POOLS \<and> sz \<le> pool_sizes ! j \<and>
            (\<forall>l. i \<le> l \<and> l < j \<longrightarrow> pool_sizes ! l < sz)
   else find_pool_from i sz = - 1"
proof (induction i sz rule: find_pool_from.induct)
  case (1 i sz)
  show ?case
  proof (cases "i < NUM_POOLS \<and> \<not> sz \<le> pool_sizes ! i")
    case False
    then show ?thesis by (subst (1 2) find_pool_from.simps) auto
  next
    case True
    then have step: "find_pool_from i sz = find_pool_from (i + 1) sz" by (subst find_pool_from.simps) simp
    have ge: "j = i \<or> i + 1 \<le> j \<longleftrightarrow> i \<le> j" for j by auto
    have IH: "if \<exists>j. i + 1 \<le> j \<and> j < NUM_POOLS \<and> sz \<le> pool_sizes ! j
      then \<exists>j. find_pool_from (i + 1) sz = int j \<and> i + 1 \<le> j \<and> j < NUM_POOLS \<and> sz \<le> pool_sizes ! j \<and>
              (\<forall>l. i + 1 \<le> l \<and> l < j \<longrightarrow> pool_sizes ! l < sz)
      else find_pool_from (i + 1) sz = - 1"
      using True by (intro "1.IH") auto
    show ?thesis
    proof (cases "\<exists>j. i \<le> j \<and> j < NUM_POOLS \<and> sz \<le> pool_sizes ! j")
      case False
      then show ?thesis using IH unfolding step by (auto split: if_splits)
    next
      case ex: True
      then have "\<exists>j. i + 1 \<le> j \<and> j < NUM_POOLS \<and> sz \<le> pool_sizes ! j" using True ge by metis
      then obtain j where j: "find_pool_from (i + 1) sz = int j" "i + 1 \<le> j" "j < NUM_POOLS" "sz \<le> pool_sizes ! j"
        "\<And>l. i + 1 \<le> l \<Longrightarrow> l < j \<Longrightarrow> pool_sizes ! l < sz" using IH by auto
      have "pool_sizes ! l < sz" if "i \<le> l" "l < j" for l
        using that True j(5) ge [of l] by (metis not_le)
      then show ?thesis using ex j unfolding step by auto
    qed
  qed
qed

lemma find_pool_small:
  assumes "sz \<le> 2048"
  obtains i where "find_pool sz = int i" "i < NUM_POOLS" "unat sz \<le> psize i" "\<And>l. l < i \<Longrightarrow> psize l < unat sz"
proof -
  have "\<exists>j. 0 \<le> j \<and> j < NUM_POOLS \<and> sz \<le> pool_sizes ! j"
    using assms by (intro exI [of _ 7]) (simp add: NUM_POOLS_def pool_sizes_def)
  then obtain j where j: "find_pool_from 0 sz = int j" "j < NUM_POOLS" "sz \<le> pool_sizes ! j"
    "\<And>l. l < j \<Longrightarrow> pool_sizes ! l < sz"
    using find_pool_from_spec [of 0 sz] by auto
  show thesis
  proof (rule that)
    show "find_pool sz = int j" using j(1) by (simp add: find_pool_def)
    show "unat sz \<le> psize j" using j pool_size [of j] by (simp add: word_le_nat_alt)
    show "psize l < unat sz" if "l < j" for l
      using j(2) j(4) [OF that] that pool_size [of l] by (simp add: word_less_nat_alt)
  qed (rule j(2))
qed

lemma find_pool_large: "2048 < sz \<Longrightarrow> find_pool sz = - 1"
proof -
  assume "2048 < sz"
  then have "\<not> sz \<le> pool_sizes ! j" if "j < NUM_POOLS" for j
    using pool_size [OF that] psize_le [OF that] by (simp add: word_le_nat_alt word_less_nat_alt)
  then show ?thesis using find_pool_from_spec [of 0 sz] by (auto simp: find_pool_def)
qed


subsection \<open>The page allocator does not touch the state of its client\<close>

lemma more_steps [simp]:
  "buddy_state.more (block_push b k s) = buddy_state.more s"
  "buddy_state.more (block_pop b k s) = buddy_state.more s"
  "buddy_state.more (mark_allocated b k s) = buddy_state.more s"
  by (simp_all add: block_push_def block_pop_def mark_allocated_def Let_def)

lemma more_split [simp]: "buddy_state.more (split_block b k t s) = buddy_state.more s"
  by (induction k arbitrary: s; subst split_block.simps; simp)

lemma more_coalesce [simp]: "buddy_state.more (snd (snd (coalesce b k s))) = buddy_state.more s"
proof (induction b k s rule: coalesce.induct)
  case (1 b k s)
  then show ?case by (subst coalesce.simps) (auto simp: Let_def)
qed

lemma more_release [simp]: "buddy_state.more (release_block b s) = buddy_state.more s"
  using more_coalesce [of b "GET_ALLOC_ORDER (frame_array s b)"
    "s\<lparr>frame_array := fill b 0 (2 ^ GET_ALLOC_ORDER (frame_array s b)) FRAME_FREE_PART (frame_array s)\<rparr>"]
  by (auto simp: release_block_def Let_def simp del: more_coalesce split: prod.split)

lemma more_alloc [simp]: "buddy_state.more (snd (buddy_alloc sz s)) = buddy_state.more s"
  by (auto simp: buddy_alloc_def irq_defs Let_def)

lemma more_free [simp]: "buddy_state.more (buddy_free p s) = buddy_state.more s"
  by (auto simp: buddy_free_def irq_defs Let_def)

lemma more_fields:
  fixes s s' :: "'a kmalloc_state_scheme"
  assumes "buddy_state.more s' = buddy_state.more s"
  shows "pools s' = pools s" "page_pool_idx s' = page_pool_idx s"
  using assms by (cases s; cases s'; simp)+

lemmas alloc_fields [simp] = more_fields [OF more_alloc]
lemmas free_fields [simp] = more_fields [OF more_free]

text \<open>What the page allocator sees of a client's state.\<close>

lemma truncate_view:
  "idx_to_addr (buddy_state.truncate s) = idx_to_addr s"
  "free_list_head (buddy_state.truncate s) = free_list_head s"
  by (simp_all add: fun_eq_iff buddy_state.truncate_def idx_to_addr_def free_list_head_def)

lemma truncate_inv:
  "safe_page (buddy_state.truncate s) = safe_page s"
  "geometry (buddy_state.truncate s) = geometry s"
  "owned (buddy_state.truncate s) = owned s"
  "buddy_inv (buddy_state.truncate s) = buddy_inv s"
  "free_frames (buddy_state.truncate s) = free_frames s"
  "list_area (buddy_state.truncate s) = list_area s"
proof -
  show safe: "safe_page (buddy_state.truncate s) = safe_page s"
    by (simp add: fun_eq_iff safe_page_def truncate_view)
  show geo: "geometry (buddy_state.truncate s) = geometry s"
    by (simp add: geometry_def truncate_view) (simp add: buddy_state.truncate_def)
  show "owned (buddy_state.truncate s) = owned s"
    by (simp add: fun_eq_iff owned_def safe) (simp add: buddy_state.truncate_def)
  have heads: "free_heads (buddy_state.truncate s) = free_heads s"
    by (simp add: fun_eq_iff free_heads_def buddy_state.truncate_def)
  have "buddy_off fl {} (buddy_state.truncate s) = buddy_off fl {} s" for fl
    unfolding buddy_off_def geo lists_ok_def pages_safe_def coalesced_def refs_ok_def heads safe truncate_view
    by (simp add: buddy_state.truncate_def)
  then show "buddy_inv (buddy_state.truncate s) = buddy_inv s" by (simp add: buddy_inv_def)
  show "free_frames (buddy_state.truncate s) = free_frames s"
    by (simp add: free_frames_def buddy_state.truncate_def)
  show "list_area (buddy_state.truncate s) = list_area s"
    by (simp add: fun_eq_iff list_area_def truncate_view)
qed

lemma buddy_view:
  assumes "buddy_state.truncate s' = buddy_state.truncate s"
  shows "idx_to_addr s' = idx_to_addr s" "owned s' = owned s" "buddy_inv s' = buddy_inv s"
    "free_frames s' = free_frames s" "list_area s' = list_area s" "geometry s' = geometry s" "safe_page s' = safe_page s"
    "buddy_total_pages s' = buddy_total_pages s" "mem s' = mem s" "buddy_base_addr s' = buddy_base_addr s"
  using assms truncate_view [of s] truncate_view [of s'] truncate_inv [of s] truncate_inv [of s']
  by (simp_all add: fun_eq_iff) (simp_all add: buddy_state.truncate_def)

lemma truncate_upd [simp]:
  "buddy_state.truncate (s\<lparr>pools := ps\<rparr>) = buddy_state.truncate s"
  "buddy_state.truncate (s\<lparr>page_pool_idx := x\<rparr>) = buddy_state.truncate s"
  "buddy_state.truncate (s\<lparr>page_pool_idx_ptr := p\<rparr>) = buddy_state.truncate s"
  by (simp_all add: buddy_state.truncate_def)

lemmas kmalloc_upd [simp] =
  buddy_view [OF truncate_upd(1)] buddy_view [OF truncate_upd(2)] buddy_view [OF truncate_upd(3)]

subsection \<open>Chunks\<close>

fun chain :: "mem \<Rightarrow> u64 \<Rightarrow> u64 list \<Rightarrow> bool" where
  "chain m p [] \<longleftrightarrow> p = NULL"
| "chain m p (x # xs) \<longleftrightarrow> p = x \<and> x \<noteq> NULL \<and> chain m (m x) xs"

lemma chain_frame: "(\<And>x. x \<in> set xs \<Longrightarrow> m' x = m x) \<Longrightarrow> chain m' p xs = chain m p xs"
  by (induction xs arbitrary: p) auto

lemma chain_unique: "chain m p xs \<Longrightarrow> chain m p ys \<Longrightarrow> xs = ys"
proof (induction xs arbitrary: p ys)
  case Nil
  then show ?case by (cases ys) auto
next
  case (Cons x xs)
  then show ?case by (cases ys) auto
qed

definition slot :: "'a buddy_state_scheme \<Rightarrow> nat \<Rightarrow> nat \<Rightarrow> nat \<Rightarrow> u64" where
  "slot s f i j = idx_to_addr s f + of_nat (j * psize i)"

definition chunk_of :: "'a kmalloc_state_scheme \<Rightarrow> nat \<Rightarrow> u64 \<Rightarrow> bool" where
  "chunk_of s i x \<longleftrightarrow> (\<exists>f j. f < buddy_total_pages s \<and> page_pool_idx s f = int i \<and> j * psize i < 4096 \<and> x = slot s f i j)"

definition base_aligned :: "'a buddy_state_scheme \<Rightarrow> bool" where
  "base_aligned s \<longleftrightarrow> 4096 dvd unat (buddy_base_addr s)"

definition pool_pages :: "'a kmalloc_state_scheme \<Rightarrow> bool" where
  "pool_pages s \<longleftrightarrow> (\<forall>f<buddy_total_pages s. page_pool_idx s f = - 1 \<or>
     (\<exists>i<NUM_POOLS. page_pool_idx s f = int i) \<and> owned s f 0)"

definition pools_ok :: "(nat \<Rightarrow> u64 list) \<Rightarrow> 'a kmalloc_state_scheme \<Rightarrow> bool" where
  "pools_ok ch s \<longleftrightarrow> (\<forall>i<NUM_POOLS. chunk_size (pools s i) = pool_sizes ! i \<and>
     chain (mem s) (pool_free_list (pools s i)) (ch i) \<and> distinct (ch i) \<and> (\<forall>x\<in>set (ch i). chunk_of s i x))"

definition kmalloc_rep :: "(nat \<Rightarrow> u64 list) \<Rightarrow> 'a kmalloc_state_scheme \<Rightarrow> bool" where
  "kmalloc_rep ch s \<longleftrightarrow> buddy_inv s \<and> base_aligned s \<and> pool_pages s \<and> pools_ok ch s"

definition kmalloc_inv :: "'a kmalloc_state_scheme \<Rightarrow> bool" where
  "kmalloc_inv s \<longleftrightarrow> (\<exists>ch. kmalloc_rep ch s)"

lemma page_base_unat: "unat (x AND NOT (PAGE_SIZE - 1)) = unat x div 4096 * 4096"
proof -
  have m: "PAGE_SIZE - 1 = (mask 12 :: u64)" by (simp add: mask_eq_exp_minus_1)
  have t: "unat (take_bit 12 x) = unat x mod 4096" by (simp only: unsigned_take_bit_eq) (simp add: take_bit_eq_mod)
  have "x AND NOT (mask 12) = x - take_bit 12 x"
  proof -
    have "NOT x AND take_bit 12 x = 0" by (rule bit_eqI) (auto simp: bit_simps)
    then have "x - take_bit 12 x = x AND NOT (take_bit 12 x)" by (rule disjunctive_diff_eq_and_not)
    also have "\<dots> = x AND NOT (mask 12)" by (rule bit_eqI) (auto simp: bit_simps)
    finally show ?thesis by simp
  qed
  moreover have "take_bit 12 x \<le> x" using t by (simp add: word_le_nat_alt)
  ultimately have "unat (x AND NOT (mask 12)) = unat x - unat x mod 4096" using t by (simp add: unat_sub)
  then show ?thesis unfolding m by (simp add: minus_mod_eq_div_mult)
qed

lemma inv_geometry: "buddy_inv s \<Longrightarrow> geometry s"
  by (auto simp: buddy_inv_def buddy_off_def)

lemma unat_slot:
  assumes g: "geometry s" and f: "f < buddy_total_pages s" and j: "j * psize i < 4096"
  shows "unat (slot s f i j) = unat (buddy_base_addr s) + f * 4096 + j * psize i"
proof -
  have a: "unat (idx_to_addr s f) = unat (buddy_base_addr s) + f * 4096" using addr_unat [OF g] f by simp
  have "f * 4096 + 4096 \<le> buddy_total_pages s * 4096" using f by simp
  then have "unat (buddy_base_addr s) + f * 4096 + 4096 < 2 ^ 64" using g unfolding geometry_def by linarith
  moreover have "unat (of_nat (j * psize i) :: u64) = j * psize i" using j by (intro unat_of_nat_small) simp
  ultimately show ?thesis using a j unfolding slot_def by (subst unat_add_nowrap) simp_all
qed

text \<open>Any byte address inside a managed page is mapped to the index of that page.\<close>

lemma page_idx_of:
  assumes g: "geometry s" and al: "base_aligned s" and f: "f < buddy_total_pages s"
    and x: "unat x = unat (buddy_base_addr s) + f * 4096 + d" "d < 4096"
  shows "addr_to_page_idx s (x AND NOT (PAGE_SIZE - 1)) = f"
proof -
  obtain q where q: "unat (buddy_base_addr s) = q * 4096" using al by (auto simp: base_aligned_def)
  have "unat (x AND NOT (PAGE_SIZE - 1)) = (q + f) * 4096"
    unfolding page_base_unat x q using x(2) by (simp add: div_add1_eq)
  also have "\<dots> = unat (idx_to_addr s f)" using addr_unat [OF g, of f] f q by simp
  finally have "x AND NOT (PAGE_SIZE - 1) = idx_to_addr s f" by (simp only: word_unat_eq_iff)
  moreover have "addr_to_idx s (idx_to_addr s f) = f"
    using f g by (intro addr_to_idx_inverse) (simp add: geometry_def)
  ultimately show ?thesis by (simp add: addr_to_page_idx_def addr_to_idx_def)
qed

lemma slot_page:
  assumes "geometry s" "base_aligned s" "f < buddy_total_pages s" "j * psize i < 4096"
  shows "addr_to_page_idx s (slot s f i j AND NOT (PAGE_SIZE - 1)) = f"
  using page_idx_of [OF assms(1-3) unat_slot [OF assms(1,3,4)] assms(4)] .

lemma slot_nonnull:
  assumes "geometry s" "f < buddy_total_pages s" "j * psize i < 4096"
  shows "slot s f i j \<noteq> NULL"
proof -
  have "unat (slot s f i j) \<noteq> unat NULL" using unat_slot [OF assms] assms(1) by (simp add: geometry_def)
  then show ?thesis by metis
qed

lemma slot_inj:
  assumes "geometry s" "f < buddy_total_pages s" "j * psize i < 4096" "l * psize i < 4096" "slot s f i j = slot s f i l"
  shows "j = l"
proof -
  have "unat (slot s f i j) = unat (slot s f i l)" using assms(5) by simp
  then have "j * psize i = l * psize i"
    using unat_slot [OF assms(1-3)] unat_slot [OF assms(1,2,4)] by linarith
  then show ?thesis by simp
qed

text \<open>A chunk determines its page and its pool.\<close>

lemma chunk_pool_unique:
  assumes "geometry s" "base_aligned s" "chunk_of s i x" "chunk_of s k x"
  shows "i = k"
proof -
  obtain f j g l where "f < buddy_total_pages s" "page_pool_idx s f = int i" "j * psize i < 4096" "x = slot s f i j"
    "g < buddy_total_pages s" "page_pool_idx s g = int k" "l * psize k < 4096" "x = slot s g k l"
    using assms(3,4) unfolding chunk_of_def by blast
  moreover then have "f = g" using slot_page [OF assms(1,2)] by metis
  ultimately show ?thesis by simp
qed


subsection \<open>Popping and pushing chunks\<close>

lemma rep_D:
  assumes "kmalloc_rep ch s"
  shows "buddy_inv s" "geometry s" "base_aligned s" "pool_pages s" "pools_ok ch s"
  using assms by (auto simp: kmalloc_rep_def inv_geometry)

lemma pool_page_owned: "pool_pages s \<Longrightarrow> f < buddy_total_pages s \<Longrightarrow> page_pool_idx s f = int i \<Longrightarrow> i < NUM_POOLS \<and> owned s f 0"
  by (fastforce simp: pool_pages_def)

lemma chunk_of_upd [simp]:
  "chunk_of (s\<lparr>pools := ps\<rparr>) = chunk_of s" "chunk_of (s\<lparr>mem := m\<rparr>) = chunk_of s" "chunk_of (s\<lparr>sie := e\<rparr>) = chunk_of s"
  "pool_pages (s\<lparr>pools := ps\<rparr>) = pool_pages s" "pool_pages (s\<lparr>mem := m\<rparr>) = pool_pages s" "pool_pages (s\<lparr>sie := e\<rparr>) = pool_pages s"
  "base_aligned (s\<lparr>pools := ps\<rparr>) = base_aligned s" "base_aligned (s\<lparr>mem := m\<rparr>) = base_aligned s"
  "base_aligned (s\<lparr>sie := e\<rparr>) = base_aligned s" "base_aligned (s\<lparr>page_pool_idx := x\<rparr>) = base_aligned s"
  by (simp_all add: fun_eq_iff chunk_of_def slot_def pool_pages_def base_aligned_def owned_def)

lemma rep_sie [simp]: "kmalloc_rep ch (s\<lparr>sie := e\<rparr>) = kmalloc_rep ch s"
  by (simp add: kmalloc_rep_def pools_ok_def)

lemma pop_chunk_rep:
  assumes rep: "kmalloc_rep ch s" and i: "i < NUM_POOLS" and ch: "ch i = x # xs"
  shows "fst (pop_chunk i s) = x" "kmalloc_rep (ch(i := xs)) (snd (pop_chunk i s))"
proof -
  show "fst (pop_chunk i s) = x"
    using rep_D(5) [OF rep] i ch by (auto simp: pop_chunk_def pools_ok_def Let_def)
  have "pools_ok (ch(i := xs)) (snd (pop_chunk i s))"
    unfolding pools_ok_def
  proof (intro allI impI)
    fix k assume k: "k < NUM_POOLS"
    show "chunk_size (pools (snd (pop_chunk i s)) k) = pool_sizes ! k \<and>
      chain (mem (snd (pop_chunk i s))) (pool_free_list (pools (snd (pop_chunk i s)) k)) ((ch(i := xs)) k) \<and>
      distinct ((ch(i := xs)) k) \<and> (\<forall>y\<in>set ((ch(i := xs)) k). chunk_of (snd (pop_chunk i s)) k y)"
      using rep_D(5) [OF rep] k i ch by (cases "k = i") (auto simp: pop_chunk_def pools_ok_def Let_def)
  qed
  then show "kmalloc_rep (ch(i := xs)) (snd (pop_chunk i s))"
    using rep by (simp add: kmalloc_rep_def pop_chunk_def Let_def)
qed

text \<open>Writing to the memory of an owned page keeps the page allocator's invariant.\<close>

lemma buddy_inv_mem:
  assumes inv: "buddy_inv s" and c: "\<And>c. c \<in> list_area s (free_frames s) \<Longrightarrow> m c = mem s c"
  shows "buddy_inv (s\<lparr>mem := m\<rparr>)"
proof -
  obtain fl where off: "buddy_off fl {} s" using inv by (auto simp: buddy_inv_def)
  have "clist m (free_list_head s k) (map (idx_to_addr s) (fl k))" if k: "k \<le> MAX_ORDER" for k
  proof -
    have "q \<in> node_set s k (free_heads s {} k)" if "q \<in> set (free_list_head s k # map (idx_to_addr s) (fl k))" for q
      using that list_nodes(1) [OF off k] by blast
    then have "cells q \<subseteq> list_area s (free_frames s)" if "q \<in> set (free_list_head s k # map (idx_to_addr s) (fl k))" for q
      using that k free_heads_frames [OF k, of s "{}"] by (fastforce simp: list_area_def node_set_def)
    then have "clist m (free_list_head s k) (map (idx_to_addr s) (fl k)) =
        clist (mem s) (free_list_head s k) (map (idx_to_addr s) (fl k))"
      using c by (intro clist_frame) blast
    then show ?thesis using list_nodes(2) [OF off k] by simp
  qed
  then have "buddy_off fl {} (s\<lparr>mem := m\<rparr>)"
    using off by (simp add: buddy_off_def lists_ok_def pages_safe_def coalesced_def refs_ok_def)
  then show ?thesis by (auto simp: buddy_inv_def)
qed

lemma buddy_inv_write:
  "buddy_inv s \<Longrightarrow> c \<notin> list_area s (free_frames s) \<Longrightarrow> buddy_inv (s\<lparr>mem := (mem s)(c := v)\<rparr>)"
  by (rule buddy_inv_mem) auto

lemma slot_in_page:
  assumes "geometry s" "f < buddy_total_pages s" "j * psize i < 4096"
  shows "unat (idx_to_addr s f) \<le> unat (slot s f i j)" "unat (slot s f i j) < unat (idx_to_addr s f) + 4096"
  using unat_slot [OF assms] addr_unat [OF assms(1), of f] assms(2,3) by simp_all

lemma owned_page_cell:
  assumes inv: "buddy_inv s" and own: "owned s f 0"
    and c: "unat (idx_to_addr s f) \<le> unat c" "unat c < unat (idx_to_addr s f) + 4096"
  shows "c \<notin> list_area s (free_frames s)"
proof (rule page_not_list [OF inv_geometry [OF inv], of f])
  show "f \<notin> free_frames s" using owned_not_free [OF inv own] block_head [of f 0] by blast
  show "f < buddy_total_pages s" using own block_bound [of "buddy_total_pages s" f 0 f] by (simp add: owned_def)
  show "safe_page s f" using own by (simp add: owned_def)
qed (use c in \<open>auto simp: free_frames_def\<close>)

lemma chunk_cell:
  assumes rep: "kmalloc_rep ch s" and x: "chunk_of s i x"
  shows "x \<notin> list_area s (free_frames s)" "x \<noteq> NULL"
proof -
  obtain f j where f: "f < buddy_total_pages s" "page_pool_idx s f = int i" "j * psize i < 4096" "x = slot s f i j"
    using x by (auto simp: chunk_of_def)
  note own = pool_page_owned [OF rep_D(4) [OF rep] f(1,2)]
  show "x \<notin> list_area s (free_frames s)"
    unfolding f(4) using own slot_in_page [OF rep_D(2) [OF rep] f(1,3)]
    by (intro owned_page_cell [OF rep_D(1) [OF rep]]) auto
  show "x \<noteq> NULL" unfolding f(4) by (rule slot_nonnull [OF rep_D(2) [OF rep] f(1,3)])
qed

lemma push_chunk_rep:
  assumes rep: "kmalloc_rep ch s" and i: "i < NUM_POOLS" and x: "chunk_of s i x" "x \<notin> set (ch i)"
  shows "kmalloc_rep (ch(i := x # ch i)) (push_chunk i x s)"
proof -
  note cell = chunk_cell [OF rep x(1)]
  have other: "x \<notin> set (ch k)" if "k < NUM_POOLS" for k
    using that x chunk_pool_unique [OF rep_D(2,3) [OF rep] x(1), of k] rep_D(5) [OF rep]
    by (auto simp: pools_ok_def)
  have "pools_ok (ch(i := x # ch i)) (push_chunk i x s)"
    unfolding pools_ok_def
  proof (intro allI impI)
    fix k assume k: "k < NUM_POOLS"
    have "chain ((mem s)(x := v)) (pool_free_list (pools s k)) (ch k)" for v
    proof -
      have "chain ((mem s)(x := v)) (pool_free_list (pools s k)) (ch k) = chain (mem s) (pool_free_list (pools s k)) (ch k)"
        using other [OF k] by (intro chain_frame) auto
      then show ?thesis using rep_D(5) [OF rep] k by (simp add: pools_ok_def)
    qed
    then show "chunk_size (pools (push_chunk i x s) k) = pool_sizes ! k \<and>
      chain (mem (push_chunk i x s)) (pool_free_list (pools (push_chunk i x s) k)) ((ch(i := x # ch i)) k) \<and>
      distinct ((ch(i := x # ch i)) k) \<and> (\<forall>y\<in>set ((ch(i := x # ch i)) k). chunk_of (push_chunk i x s) k y)"
      using rep_D(5) [OF rep] k i cell(2) x by (cases "k = i") (auto simp: push_chunk_def pools_ok_def)
  qed
  moreover have "buddy_inv (push_chunk i x s)"
    using buddy_inv_write [OF rep_D(1) [OF rep] cell(1)] by (simp add: push_chunk_def)
  ultimately show ?thesis using rep by (simp add: kmalloc_rep_def push_chunk_def)
qed


subsection \<open>Page requests keep the pools\<close>

lemma alloc_mem:
  assumes inv: "buddy_inv s" and c: "c \<notin> list_area s (free_frames s)"
  shows "mem (snd (buddy_alloc sz s)) c = mem s c"
  using buddy_alloc_cases [OF inv, of sz] c by (auto simp: alloc_effect_def split: if_splits)

lemma alloc_inv: "buddy_inv s \<Longrightarrow> buddy_inv (snd (buddy_alloc sz s))"
  using buddy_alloc_cases [of s sz] by (auto simp: alloc_effect_def split: if_splits)

lemma alloc_base: "buddy_base_addr (snd (buddy_alloc sz s)) = buddy_base_addr s"
  "buddy_base_addr (buddy_free p s) = buddy_base_addr s"
  using address_map_alloc [of sz s] address_map_free [of p s] by (simp_all add: address_map_def)

lemma chunk_of_map:
  assumes "address_map s' = address_map s" "page_pool_idx s' = page_pool_idx s"
  shows "chunk_of s' = chunk_of s"
  using address_map_eqD [OF assms(1)] assms(2) by (simp add: fun_eq_iff chunk_of_def slot_def)

lemma pools_ok_frame:
  assumes ok: "pools_ok ch s" and same: "pools s' = pools s" "chunk_of s' = chunk_of s"
    and cells: "\<And>i x. i < NUM_POOLS \<Longrightarrow> x \<in> set (ch i) \<Longrightarrow> mem s' x = mem s x"
  shows "pools_ok ch s'"
  unfolding pools_ok_def
proof (intro allI impI)
  fix i assume i: "i < NUM_POOLS"
  have "chain (mem s') (pool_free_list (pools s i)) (ch i) = chain (mem s) (pool_free_list (pools s i)) (ch i)"
    using cells [OF i] by (intro chain_frame)
  then show "chunk_size (pools s' i) = pool_sizes ! i \<and> chain (mem s') (pool_free_list (pools s' i)) (ch i) \<and>
      distinct (ch i) \<and> (\<forall>x\<in>set (ch i). chunk_of s' i x)"
    using ok i same by (simp add: pools_ok_def)
qed

lemma rep_alloc:
  assumes rep: "kmalloc_rep ch s"
  shows "kmalloc_rep ch (snd (buddy_alloc sz s))" (is "kmalloc_rep ch ?s")
proof -
  note inv = rep_D(1) [OF rep]
  note map = address_map_eqD [OF address_map_alloc [of sz s]]
  have "owned ?s f 0" if "owned s f 0" for f by (rule alloc_keeps_owned [OF inv that])
  then have "pool_pages ?s" using rep_D(4) [OF rep] by (auto simp: pool_pages_def map)
  moreover have "pools_ok ch ?s"
  proof (rule pools_ok_frame [OF rep_D(5) [OF rep]])
    show "chunk_of ?s = chunk_of s" by (rule chunk_of_map) simp_all
    show "mem ?s x = mem s x" if "i < NUM_POOLS" "x \<in> set (ch i)" for i x
      using that chunk_cell(1) [OF rep, of i x] rep_D(5) [OF rep] by (intro alloc_mem [OF inv]) (auto simp: pools_ok_def)
  qed simp
  ultimately show ?thesis
    using alloc_inv [OF inv] rep_D(3) [OF rep] by (simp add: kmalloc_rep_def base_aligned_def alloc_base)
qed

lemma free_mem:
  assumes inv: "buddy_inv s" and own: "owned s b k" and c: "c \<notin> list_area s (free_frames s \<union> frames_of b k)"
  shows "mem (buddy_free (idx_to_addr s b) s) c = mem s c"
proof (cases "1 < ref_count s b")
  case True
  then show ?thesis using buddy_free_shared [OF inv own block_head] by simp
next
  case False
  then show ?thesis using buddy_free_last(1) [OF inv own] c by (simp add: free_effect_def)
qed

lemma rep_free:
  assumes rep: "kmalloc_rep ch s" and own: "owned s b k" and large: "page_pool_idx s b = - 1"
  shows "kmalloc_rep ch (buddy_free (idx_to_addr s b) s)" (is "kmalloc_rep ch ?s")
proof -
  note inv = rep_D(1) [OF rep] and g = rep_D(2) [OF rep]
  note map = address_map_eqD [OF address_map_free [of "idx_to_addr s b" s]]
  have other: "(f, 0) \<noteq> (b, k)" if "page_pool_idx s f = int i" for f i using that large by auto
  have "owned ?s f 0" if "owned s f 0" "page_pool_idx s f = int i" for f i
    by (rule free_keeps_owned [OF inv own that(1) other [OF that(2)]])
  then have "pool_pages ?s" using rep_D(4) [OF rep] by (fastforce simp: pool_pages_def map)
  moreover have "pools_ok ch ?s"
  proof (rule pools_ok_frame [OF rep_D(5) [OF rep]])
    show "chunk_of ?s = chunk_of s" by (rule chunk_of_map) simp_all
    fix i x assume i: "i < NUM_POOLS" and "x \<in> set (ch i)"
    then have "chunk_of s i x" using rep_D(5) [OF rep] by (simp add: pools_ok_def)
    then obtain f j where f: "f < buddy_total_pages s" "page_pool_idx s f = int i" "j * psize i < 4096" "x = slot s f i j"
      by (auto simp: chunk_of_def)
    have fo: "owned s f 0" using pool_page_owned [OF rep_D(4) [OF rep] f(1,2)] by simp
    have "f \<notin> free_frames s \<union> frames_of b k"
      using owned_not_free [OF inv fo] owned_disjoint [OF inv fo own other [OF f(2)]] block_head [of f 0] by blast
    moreover have "free_frames s \<union> frames_of b k \<subseteq> {..<buddy_total_pages s}"
      using own block_bound by (auto simp: free_frames_def owned_def)
    moreover have "safe_page s f" using fo by (simp add: owned_def)
    ultimately have "x \<notin> list_area s (free_frames s \<union> frames_of b k)"
      using f(1) slot_in_page [OF g f(1,3)] unfolding f(4) by (intro page_not_list [OF g])
    then show "mem ?s x = mem s x" by (rule free_mem [OF inv own])
  qed simp
  ultimately show ?thesis
    using free_keeps_inv [OF inv own] rep_D(3) [OF rep] by (simp add: kmalloc_rep_def base_aligned_def alloc_base)
qed

text \<open>Giving an owned page to a pool.\<close>

lemma rep_assign:
  assumes rep: "kmalloc_rep ch s" and own: "owned s b 0" and fresh: "page_pool_idx s b = - 1" and i: "i < NUM_POOLS"
  shows "kmalloc_rep ch (s\<lparr>page_pool_idx := (page_pool_idx s)(b := int i)\<rparr>)"
    and "chunk_of s k x \<Longrightarrow> chunk_of (s\<lparr>page_pool_idx := (page_pool_idx s)(b := int i)\<rparr>) k x"
proof -
  let ?s = "s\<lparr>page_pool_idx := (page_pool_idx s)(b := int i)\<rparr>"
  have same: "slot ?s = slot s" by (simp add: fun_eq_iff slot_def)
  have keep: "chunk_of s k x \<Longrightarrow> chunk_of ?s k x" for k x
    using fresh unfolding chunk_of_def same by fastforce
  then show "chunk_of s k x \<Longrightarrow> chunk_of ?s k x" .
  have "pool_pages ?s" using rep_D(4) [OF rep] own i by (auto simp: pool_pages_def)
  moreover have "pools_ok ch ?s" using rep_D(5) [OF rep] keep by (simp add: pools_ok_def)
  ultimately show "kmalloc_rep ch ?s" using rep by (simp add: kmalloc_rep_def)
qed

subsection \<open>Slicing a page\<close>

lemma slot_word: "i < NUM_POOLS \<Longrightarrow> idx_to_addr s f + of_nat j * pool_sizes ! i = slot s f i j"
proof -
  assume i: "i < NUM_POOLS"
  then have "pool_sizes ! i = of_nat (psize i)" by (auto simp: pool_cases pool_sizes_def)
  then show ?thesis by (simp add: slot_def)
qed

lemma push_chunk_fields [simp]:
  "slot (push_chunk i x s) = slot s" "buddy_total_pages (push_chunk i x s) = buddy_total_pages s"
  "page_pool_idx (push_chunk i x s) = page_pool_idx s" "chunk_of (push_chunk i x s) = chunk_of s"
  by (simp_all add: push_chunk_def fun_eq_iff slot_def)

lemma slice_rep:
  assumes rep: "kmalloc_rep ch s" and i: "i < NUM_POOLS" and f: "f < buddy_total_pages s" "page_pool_idx s f = int i"
    and n: "n * psize i \<le> 4096" and new: "\<And>j. j < n \<Longrightarrow> slot s f i j \<notin> set (ch i)"
  shows "kmalloc_rep (ch(i := rev (map (slot s f i) [0..<n]) @ ch i))
      (fold (\<lambda>j. push_chunk i (slot s f i j)) [0..<n] s) \<and>
    chunk_of (fold (\<lambda>j. push_chunk i (slot s f i j)) [0..<n] s) = chunk_of s"
  using n new
proof (induction n)
  case 0
  then show ?case using rep by simp
next
  case (Suc n)
  let ?s = "fold (\<lambda>j. push_chunk i (slot s f i j)) [0..<n] s"
  let ?ch = "ch(i := rev (map (slot s f i) [0..<n]) @ ch i)"
  have "kmalloc_rep ?ch ?s \<and> chunk_of ?s = chunk_of s"
    by (rule Suc.IH) (use Suc.prems in auto)
  then have IH: "kmalloc_rep ?ch ?s" "chunk_of ?s = chunk_of s" by simp_all
  have p: "0 < psize i" by simp
  have lt: "j * psize i < 4096" if "j \<le> n" for j
  proof -
    have "j * psize i \<le> n * psize i" using that by simp
    moreover have "Suc n * psize i = n * psize i + psize i" by simp
    ultimately show ?thesis using Suc.prems(1) p by linarith
  qed
  have cn: "chunk_of ?s i (slot s f i n)" using f lt [of n] unfolding IH(2) by (auto simp: chunk_of_def)
  have "slot s f i n \<noteq> slot s f i j" if "j < n" for j
    using slot_inj [OF rep_D(2) [OF rep] f(1) lt lt, of n j] that by auto
  moreover have "set (?ch i) = slot s f i ` {0..<n} \<union> set (ch i)" by simp
  ultimately have "slot s f i n \<notin> set (?ch i)" using Suc.prems(2) [of n] by (metis UnE atLeastLessThan_iff imageE lessI)
  then have "kmalloc_rep (?ch(i := slot s f i n # ?ch i)) (push_chunk i (slot s f i n) ?s)"
    by (rule push_chunk_rep [OF IH(1) i cn])
  moreover have "push_chunk i (slot s f i n) ?s = fold (\<lambda>j. push_chunk i (slot s f i j)) [0..<Suc n] s" by simp
  moreover have "?ch(i := slot s f i n # ?ch i) = ch(i := rev (map (slot s f i) [0..<Suc n]) @ ch i)" by simp
  ultimately show ?case using IH(2) by (metis push_chunk_fields(4))
qed


subsection \<open>A request for a small object\<close>

lemma pool_empty: "kmalloc_rep ch s \<Longrightarrow> i < NUM_POOLS \<Longrightarrow> pool_free_list (pools s i) = NULL \<longleftrightarrow> ch i = []"
  by (cases "ch i") (auto simp: kmalloc_rep_def pools_ok_def)

lemma slice_page_eq:
  assumes "i < NUM_POOLS" "chunk_size (pools s i) = pool_sizes ! i"
  shows "slice_page i (idx_to_addr s b) s = fold (\<lambda>j. push_chunk i (slot s b i j)) [0..<4096 div psize i] s"
proof -
  have "unat (PAGE_SIZE div pool_sizes ! i) = 4096 div psize i"
    using assms(1) by (auto simp: pool_cases pool_sizes_def)
  then show ?thesis by (simp add: slice_page_def Let_def assms slot_word)
qed

text \<open>The effect of a small request on the free chunks.\<close>

definition small_effect ::
  "(nat \<Rightarrow> u64 list) \<Rightarrow> 'a kmalloc_state_scheme \<Rightarrow> nat \<Rightarrow> u64 \<Rightarrow> (nat \<Rightarrow> u64 list) \<Rightarrow> 'a kmalloc_state_scheme \<Rightarrow> bool" where
  "small_effect ch s i p ch' s' \<longleftrightarrow>
     kmalloc_rep ch' s' \<and> chunk_of s' i p \<and> p \<notin> set (ch' i) \<and> (\<forall>k. k \<noteq> i \<longrightarrow> ch' k = ch k) \<and>
     (\<forall>k x. chunk_of s k x \<longrightarrow> chunk_of s' k x) \<and>
     (\<forall>x. chunk_of s i x \<and> x \<notin> set (ch i) \<longrightarrow> x \<notin> set (ch' i) \<and> x \<noteq> p) \<and>
     (p \<in> set (ch i) \<or> addr_to_page_idx s (p AND NOT (PAGE_SIZE - 1)) \<in> free_frames s)"

lemma kmalloc_small_from_page:
  assumes rep: "kmalloc_rep ch s" and i: "i < NUM_POOLS" and empty: "ch i = []" and srv: "can_serve s PAGE_SIZE"
  shows "\<exists>ch'. small_effect ch s i (fst (kmalloc_small i s)) ch' (snd (kmalloc_small i s))"
proof -
  note inv = rep_D(1) [OF rep] and g = rep_D(2) [OF rep]
  let ?s1 = "snd (buddy_alloc PAGE_SIZE s)"
  obtain b where b: "fst (buddy_alloc PAGE_SIZE s) = idx_to_addr s b" "alloc_effect s b 0 ?s1"
    using buddy_alloc_cases [OF inv, of PAGE_SIZE] srv by (auto simp: order_of_page)
  note map = address_map_eqD [OF address_map_alloc [of PAGE_SIZE s]]
  have bf: "b \<in> free_frames s" and own: "owned ?s1 b 0"
    using b(2) block_head [of b 0] by (auto simp: alloc_effect_def)
  then have bn: "b < buddy_total_pages s" by (simp add: free_frames_def)
  have fresh: "page_pool_idx ?s1 b = - 1"
  proof (rule ccontr)
    assume "page_pool_idx ?s1 b \<noteq> - 1"
    then have "owned s b 0" using rep_D(4) [OF rep] bn by (fastforce simp: pool_pages_def)
    then show False using owned_not_free [OF inv] bf block_head [of b 0] by blast
  qed
  let ?s2 = "?s1\<lparr>page_pool_idx := (page_pool_idx ?s1)(b := int i)\<rparr>"
  have rep2: "kmalloc_rep ch ?s2" and keep2: "\<And>k x. chunk_of ?s1 k x \<Longrightarrow> chunk_of ?s2 k x"
    using rep_assign [OF rep_alloc [OF rep] own fresh i] by blast+
  define n where "n = 4096 div psize i"
  have n: "n * psize i = 4096" "2 \<le> n" using i by (auto simp: n_def pool_cases)
  let ?s3 = "fold (\<lambda>j. push_chunk i (slot ?s2 b i j)) [0..<n] ?s2"
  let ?c3 = "ch(i := rev (map (slot ?s2 b i) [0..<n]) @ ch i)"
  have rep3: "kmalloc_rep ?c3 ?s3" and ch3: "chunk_of ?s3 = chunk_of ?s2"
    using slice_rep [OF rep2 i, of b n] n bn empty by (simp_all add: map)
  let ?p = "slot ?s2 b i (n - 1)" and ?xs = "rev (map (slot ?s2 b i) [0..<n - 1])"
  have c3: "?c3 i = ?p # ?xs"
    using empty n(2) by (cases n) (auto simp: upt_Suc_append)
  note pop = pop_chunk_rep [OF rep3 i c3]
  have cs: "chunk_size (pools ?s2 i) = pool_sizes ! i" using rep_D(5) [OF rep2] i by (simp add: pools_ok_def)
  have "idx_to_addr s b = idx_to_addr ?s2 b" by (simp add: map)
  then have slice: "slice_page i (idx_to_addr s b) ?s2 = ?s3"
    using slice_page_eq [OF i cs, of b] by (simp only: n_def)
  have nn: "idx_to_addr s b \<noteq> NULL" by (rule addr_in_range(1) [OF g bn])
  have "addr_to_page_idx ?s1 (idx_to_addr s b) = b"
    using addr_to_idx_inverse [of b s] bn g by (simp add: addr_to_page_idx_def addr_to_idx_def alloc_base geometry_def)
  then have small: "kmalloc_small i s = pop_chunk i ?s3"
    using pool_empty [OF rep i] empty b(1) nn slice by (simp add: kmalloc_small_def case_prod_unfold Let_def)
  have lt: "(n - 1) * psize i < 4096"
  proof -
    have "(n - 1) * psize i + psize i = 4096" using n by (cases n) (simp_all del: power_add)
    then show ?thesis by (metis add.commute less_add_same_cancel2 zero_less_power zero_less_numeral)
  qed
  have g2: "geometry ?s2" "base_aligned ?s2" and b2: "b < buddy_total_pages ?s2"
    using rep_D(2,3) [OF rep2] bn by (simp_all add: map)
  have page: "addr_to_page_idx s (?p AND NOT (PAGE_SIZE - 1)) = b"
    using slot_page [OF g2 b2 lt] by (simp add: addr_to_page_idx_def alloc_base)
  have pc: "chunk_of ?s2 i ?p" using b2 lt by (auto simp: chunk_of_def)
  have keep: "chunk_of s k x \<Longrightarrow> chunk_of ?s2 k x" for k x
    using keep2 chunk_of_map [OF address_map_alloc, of PAGE_SIZE s] by simp
  have old: "x \<notin> set (?p # ?xs)" if x: "chunk_of s i x" for x
  proof
    assume "x \<in> set (?p # ?xs)"
    then have "x \<in> slot ?s2 b i ` {0..<n}" using n(2) by auto
    then obtain j where "j \<in> {0..<n}" and j2: "x = slot ?s2 b i j" by (elim imageE)
    then have j: "j < n" "x = slot ?s2 b i j" by simp_all
    then have "j * psize i < 4096" using n(1) by (metis mult_less_cancel2 zero_less_power zero_less_numeral)
    then have xb: "addr_to_page_idx s (x AND NOT (PAGE_SIZE - 1)) = b"
      using slot_page [OF g2 b2, of j i] j(2) by (simp add: addr_to_page_idx_def alloc_base)
    obtain f l where f: "f < buddy_total_pages s" "page_pool_idx s f = int i" "l * psize i < 4096" "x = slot s f i l"
      using x by (auto simp: chunk_of_def)
    then have "f = b" using slot_page [OF g rep_D(3) [OF rep] f(1,3)] xb by simp
    then show False using f(2) fresh by simp
  qed
  have pop_ch: "chunk_of (snd (pop_chunk i ?s3)) = chunk_of ?s3" by (simp add: pop_chunk_def Let_def)
  have nin: "?p \<notin> set ?xs" using rep_D(5) [OF rep3] c3 i unfolding pools_ok_def by (metis distinct.simps(2))
  have "small_effect ch s i ?p (?c3(i := ?xs)) (snd (pop_chunk i ?s3))"
    unfolding small_effect_def pop_ch ch3 fun_upd_same
  proof (intro conjI allI impI)
    show "kmalloc_rep (?c3(i := ?xs)) (snd (pop_chunk i ?s3))" by (rule pop(2))
    show "chunk_of ?s2 i ?p" by (rule pc)
    show "?p \<notin> set ?xs" by (rule nin)
    show "(?c3(i := ?xs)) k = ch k" if "k \<noteq> i" for k using that by simp
    show "chunk_of ?s2 k x" if "chunk_of s k x" for k x by (rule keep [OF that])
    show "x \<notin> set ?xs" "x \<noteq> ?p" if "chunk_of s i x \<and> x \<notin> set (ch i)" for x
      using old [of x] that by simp_all
    show "?p \<in> set (ch i) \<or> addr_to_page_idx s (?p AND NOT (PAGE_SIZE - 1)) \<in> free_frames s"
      unfolding page using bf by blast
  qed
  then show ?thesis unfolding small pop(1) by blast
qed

lemma kmalloc_small_from_pool:
  assumes rep: "kmalloc_rep ch s" and i: "i < NUM_POOLS" and c: "ch i = x # xs"
  shows "fst (kmalloc_small i s) = x" "small_effect ch s i x (ch(i := xs)) (snd (kmalloc_small i s))"
    "mem (snd (kmalloc_small i s)) = mem s"
proof -
  have e: "kmalloc_small i s = pop_chunk i s"
    using pool_empty [OF rep i] c by (simp add: kmalloc_small_def)
  have ok: "distinct (x # xs)" "chunk_of s i x" using rep_D(5) [OF rep] i c by (auto simp: pools_ok_def)
  have pop_ch: "chunk_of (snd (pop_chunk i s)) = chunk_of s" by (simp add: pop_chunk_def Let_def)
  show "fst (kmalloc_small i s) = x" unfolding e by (rule pop_chunk_rep(1) [OF rep i c])
  show "small_effect ch s i x (ch(i := xs)) (snd (kmalloc_small i s))"
    using pop_chunk_rep(2) [OF rep i c] ok c unfolding e small_effect_def pop_ch by auto
  show "mem (snd (kmalloc_small i s)) = mem s" by (simp add: e pop_chunk_def Let_def)
qed

lemma kmalloc_small_fail:
  assumes rep: "kmalloc_rep ch s" and i: "i < NUM_POOLS" and empty: "ch i = []" and srv: "\<not> can_serve s PAGE_SIZE"
  shows "kmalloc_small i s = (NULL, s)"
  using pool_empty [OF rep i] empty srv buddy_alloc_cases [OF rep_D(1) [OF rep], of PAGE_SIZE]
  by (simp add: kmalloc_small_def)

end
