(* ===== verification/Kmalloc_Spec.thy ===== *)
theory Kmalloc_Spec
  imports Kmalloc
begin

text \<open>
  The contract of the chunk allocator: \<^verbatim>\<open>kmalloc\<close> and \<^verbatim>\<open>kfree\<close> as an instance of the allocator
  interface, the size and placement of the objects, and initialisation.
\<close>

subsection \<open>The two operations\<close>

lemma small_effect_sie [simp]:
  "small_effect ch (s\<lparr>sie := e\<rparr>) i p ch' s' = small_effect ch s i p ch' s'"
  "small_effect ch s i p ch' (s'\<lparr>sie := e\<rparr>) = small_effect ch s i p ch' s'"
  by (simp_all add: small_effect_def addr_to_page_idx_def)

lemma can_serve_sie [simp]: "can_serve (s\<lparr>sie := e\<rparr>) = can_serve s"
  by (simp add: fun_eq_iff can_serve_def)

lemma kmalloc_large_eq:
  assumes rep: "kmalloc_rep ch s"
  shows "kmalloc_large sz s = buddy_alloc sz s"
proof (cases "can_serve s sz")
  case True
  note inv = rep_D(1) [OF rep]
  obtain b where b: "fst (buddy_alloc sz s) = idx_to_addr s b" "alloc_effect s b (alloc_order sz) (snd (buddy_alloc sz s))"
    using buddy_alloc_cases [OF inv, of sz] True by auto
  let ?n = "unat ((sz + PAGE_SIZE - 1) div PAGE_SIZE)" and ?s = "snd (buddy_alloc sz s)"
  have sub: "frames_of b (alloc_order sz) \<subseteq> free_frames s" using b(2) by (simp add: alloc_effect_def)
  have "page_pool_idx s f = - 1" if "f \<in> frames_of b (alloc_order sz)" for f
  proof (rule ccontr)
    have f: "f \<in> free_frames s" using sub that by blast
    assume "page_pool_idx s f \<noteq> - 1"
    then have "owned s f 0" using rep_D(4) [OF rep] f by (fastforce simp: pool_pages_def free_frames_def)
    then show False using owned_not_free [OF inv] f block_head [of f 0] by blast
  qed
  moreover have "?n \<le> 2 ^ alloc_order sz" unfolding alloc_order_def by (rule pages_to_order_fits)
  ultimately have fill: "fill b 0 ?n (- 1) (page_pool_idx s) = page_pool_idx s"
    by (fastforce simp: fun_eq_iff fill_apply frames_of_def)
  have "b \<in> free_frames s" using sub block_head [of b "alloc_order sz"] by blast
  then have "b < buddy_total_pages s" by (simp add: free_frames_def)
  then have "addr_to_page_idx ?s (idx_to_addr s b) = b"
    using addr_to_idx_inverse [of b s] rep_D(2) [OF rep]
    by (simp add: addr_to_page_idx_def addr_to_idx_def alloc_base geometry_def)
  moreover have "?s\<lparr>page_pool_idx := page_pool_idx s\<rparr> = ?s"
    using alloc_fields(2) [of sz s] by (metis kmalloc_state.surjective kmalloc_state.update_convs(3))
  ultimately have "snd (kmalloc_large sz s) = ?s" using fill b(1) by (simp add: kmalloc_large_def case_prod_unfold Let_def)
  then show ?thesis by (simp add: kmalloc_large_def case_prod_unfold Let_def prod_eq_iff)
next
  case False
  then show ?thesis
    using buddy_alloc_cases [OF rep_D(1) [OF rep], of sz] by (simp add: kmalloc_large_def)
qed

lemma slice_sie [simp]: "sie (slice_page i p s) = sie s"
proof -
  have "sie (fold (\<lambda>j. push_chunk i (g j)) js s) = sie s" for g js and s :: "'a kmalloc_state_scheme"
    by (induction js arbitrary: s) (auto simp: push_chunk_def)
  then show ?thesis by (simp add: slice_page_def Let_def)
qed

lemma kmalloc_small_sie:
  assumes "buddy_inv s"
  shows "sie (snd (kmalloc_small i s)) = sie s"
  using buddy_alloc_cases [OF assms, of PAGE_SIZE]
  by (auto simp: kmalloc_small_def pop_chunk_def Let_def case_prod_unfold split: if_splits)

lemma sie_same [simp]: "s\<lparr>sie := sie s\<rparr> = s"
  by simp

lemma kmalloc_eq:
  assumes rep: "kmalloc_rep ch s"
  shows "kmalloc 0 s = (NULL, s)"
    and "sz \<noteq> 0 \<Longrightarrow> find_pool sz = int i \<Longrightarrow>
      kmalloc sz s = (fst (kmalloc_small i (s\<lparr>sie := False\<rparr>)), (snd (kmalloc_small i (s\<lparr>sie := False\<rparr>)))\<lparr>sie := sie s\<rparr>)"
    and "sz \<noteq> 0 \<Longrightarrow> find_pool sz = - 1 \<Longrightarrow>
      kmalloc sz s = (fst (buddy_alloc sz (s\<lparr>sie := False\<rparr>)), (snd (buddy_alloc sz (s\<lparr>sie := False\<rparr>)))\<lparr>sie := sie s\<rparr>)"
proof -
  let ?s = "s\<lparr>sie := False\<rparr>"
  have rep': "kmalloc_rep ch ?s" using rep by simp
  note sie = kmalloc_small_sie [OF rep_D(1) [OF rep']]
  have b: "sie (snd (buddy_alloc sz ?s)) = False" for sz
    using buddy_alloc_cases [OF rep_D(1) [OF rep'], of sz] by (auto split: if_splits)
  show "kmalloc 0 s = (NULL, s)" by (simp add: kmalloc_def irq_defs)
  show "kmalloc sz s = (fst (kmalloc_small i ?s), (snd (kmalloc_small i ?s))\<lparr>sie := sie s\<rparr>)"
    if "sz \<noteq> 0" "find_pool sz = int i"
    using that sie by (simp add: kmalloc_def irq_defs case_prod_unfold Let_def)
  show "kmalloc sz s = (fst (buddy_alloc sz ?s), (snd (buddy_alloc sz ?s))\<lparr>sie := sie s\<rparr>)"
    if "sz \<noteq> 0" "find_pool sz = - 1"
    using that b kmalloc_large_eq [OF rep'] by (simp add: kmalloc_def irq_defs case_prod_unfold Let_def)
qed

text \<open>The outcome of a small request.\<close>

lemma kmalloc_small_cases:
  assumes rep: "kmalloc_rep ch s" and sz: "sz \<noteq> 0" "find_pool sz = int i" "i < NUM_POOLS"
  shows "if ch i = [] \<and> \<not> can_serve s PAGE_SIZE then kmalloc sz s = (NULL, s)
    else \<exists>ch'. small_effect ch s i (fst (kmalloc sz s)) ch' (snd (kmalloc sz s))"
proof -
  let ?s = "s\<lparr>sie := False\<rparr>"
  have rep': "kmalloc_rep ch ?s" using rep by simp
  note eq = kmalloc_eq(2) [OF rep sz(1,2)]
  show ?thesis
  proof (cases "ch i")
    case Nil
    then show ?thesis
      using kmalloc_small_fail [OF rep' sz(3) Nil] kmalloc_small_from_page [OF rep' sz(3) Nil] by (auto simp: eq)
  next
    case (Cons x xs)
    then show ?thesis
      using kmalloc_small_from_pool(1,2) [OF rep' sz(3) Cons] by (auto simp: eq)
  qed
qed

lemma addr_page:
  assumes rep: "kmalloc_rep ch s" and own: "owned s b k"
  shows "addr_to_page_idx s (idx_to_addr s b AND NOT (PAGE_SIZE - 1)) = b"
proof -
  have "b < buddy_total_pages s" using own block_bound [of "buddy_total_pages s" b k b] by (simp add: owned_def)
  then show ?thesis
    using page_idx_of [OF rep_D(2,3) [OF rep], of b "idx_to_addr s b" 0] addr_unat [OF rep_D(2) [OF rep], of b] by simp
qed

lemma chunk_page:
  assumes rep: "kmalloc_rep ch s" and x: "chunk_of s i x"
  shows "page_pool_idx s (addr_to_page_idx s (x AND NOT (PAGE_SIZE - 1))) = int i"
    "owned s (addr_to_page_idx s (x AND NOT (PAGE_SIZE - 1))) 0" "i < NUM_POOLS"
proof -
  obtain f j where f: "f < buddy_total_pages s" "page_pool_idx s f = int i" "j * psize i < 4096" "x = slot s f i j"
    using x by (auto simp: chunk_of_def)
  then have "addr_to_page_idx s (x AND NOT (PAGE_SIZE - 1)) = f" using slot_page [OF rep_D(2,3) [OF rep]] by metis
  then show "page_pool_idx s (addr_to_page_idx s (x AND NOT (PAGE_SIZE - 1))) = int i"
    "owned s (addr_to_page_idx s (x AND NOT (PAGE_SIZE - 1))) 0" "i < NUM_POOLS"
    using f pool_page_owned [OF rep_D(4) [OF rep] f(1,2)] by simp_all
qed

lemma kfree_small:
  assumes rep: "kmalloc_rep ch s" and x: "chunk_of s i x"
  shows "kfree x s = push_chunk i x s"
proof -
  have p: "page_pool_idx s (addr_to_page_idx s (x AND NOT (PAGE_SIZE - 1))) = int i"
    by (rule chunk_page [OF rep x])
  have "addr_to_page_idx (s\<lparr>sie := False\<rparr>) = addr_to_page_idx s" by (simp add: fun_eq_iff addr_to_page_idx_def)
  moreover have "(push_chunk i x (s\<lparr>sie := False\<rparr>))\<lparr>sie := sie s\<rparr> = push_chunk i x s" by (simp add: push_chunk_def)
  moreover have "sie (push_chunk i x (s\<lparr>sie := False\<rparr>)) = False" by (simp add: push_chunk_def)
  ultimately show ?thesis
    using p chunk_cell(2) [OF rep x] by (simp add: kfree_def irq_defs Let_def)
qed

lemma kfree_large:
  assumes rep: "kmalloc_rep ch s" and own: "owned s b k" and large: "page_pool_idx s b = - 1"
  shows "kfree (idx_to_addr s b) s = (buddy_free (idx_to_addr s b) (s\<lparr>sie := False\<rparr>))\<lparr>sie := sie s\<rparr>"
proof -
  let ?s = "s\<lparr>sie := False\<rparr>"
  have own': "owned ?s b k" and inv': "buddy_inv ?s" using own rep_D(1) [OF rep] by simp_all
  have p: "page_pool_idx s (addr_to_page_idx s (idx_to_addr s b AND NOT (PAGE_SIZE - 1))) = - 1"
    using large addr_page [OF rep own] by simp
  have a: "addr_to_page_idx ?s = addr_to_page_idx s" by (simp add: fun_eq_iff addr_to_page_idx_def)
  have nn: "idx_to_addr s b \<noteq> NULL" by (rule owned_addr(1) [OF rep_D(1) [OF rep] own block_head])
  have "sie (buddy_free (idx_to_addr s b) ?s) = False"
  proof (cases "1 < ref_count ?s b")
    case True
    then show ?thesis using buddy_free_shared [OF inv' own' block_head] by simp
  next
    case False
    then show ?thesis using buddy_free_last(2) [OF inv' own'] by simp
  qed
  then show ?thesis using p nn by (simp add: kfree_def irq_defs Let_def a)
qed


subsection \<open>Live objects\<close>

definition live :: "(nat \<Rightarrow> u64 list) \<Rightarrow> 'a kmalloc_state_scheme \<Rightarrow> u64 \<Rightarrow> bool" where
  "live ch s p \<longleftrightarrow> (\<exists>i. chunk_of s i p \<and> p \<notin> set (ch i)) \<or>
     (\<exists>b k. p = idx_to_addr s b \<and> owned s b k \<and> page_pool_idx s b = - 1)"

definition owns_object :: "'a kmalloc_state_scheme \<Rightarrow> u64 \<Rightarrow> bool" where
  "owns_object s p \<longleftrightarrow> (\<exists>ch. kmalloc_rep ch s \<and> live ch s p)"

lemma rep_unique: "kmalloc_rep ch s \<Longrightarrow> kmalloc_rep ch' s \<Longrightarrow> i < NUM_POOLS \<Longrightarrow> ch i = ch' i"
  by (auto simp: kmalloc_rep_def pools_ok_def intro: chain_unique)

lemma owns_object_eq:
  assumes rep: "kmalloc_rep ch s"
  shows "owns_object s p = live ch s p"
proof -
  have "live ch' s p = live ch s p" if "kmalloc_rep ch' s" for ch'
  proof -
    have "chunk_of s i p \<Longrightarrow> ch' i = ch i" for i
      using rep_unique [OF that rep, of i] chunk_page(3) [OF rep, of i p] by simp
    then have "(chunk_of s i p \<and> p \<notin> set (ch' i)) = (chunk_of s i p \<and> p \<notin> set (ch i))" for i
      by (cases "chunk_of s i p") auto
    then show ?thesis by (simp only: live_def)
  qed
  then show ?thesis using rep unfolding owns_object_def by blast
qed

lemma live_sie [simp]: "live ch (s\<lparr>sie := e\<rparr>) = live ch s"
  by (simp add: live_def fun_eq_iff)

lemma owned_page_large:
  assumes rep: "kmalloc_rep ch s" and x: "chunk_of s i (idx_to_addr s b)" and own: "owned s b k"
  shows "page_pool_idx s b = int i"
  using chunk_page(1) [OF rep x] addr_page [OF rep own] by simp

lemma owned_keeps_page:
  assumes rep: "kmalloc_rep ch s" and srv: "i < NUM_POOLS" "find_pool sz = int i" "sz \<noteq> 0"
    and own: "owned s b k"
  shows "owned (snd (kmalloc sz s)) b k \<and> (page_pool_idx s b = - 1 \<longrightarrow> page_pool_idx (snd (kmalloc sz s)) b = - 1) \<and>
    idx_to_addr (snd (kmalloc sz s)) = idx_to_addr s"
proof -
  let ?s = "s\<lparr>sie := False\<rparr>" and ?s1 = "snd (buddy_alloc PAGE_SIZE (s\<lparr>sie := False\<rparr>))"
  have rep': "kmalloc_rep ch ?s" and own': "owned ?s b k" using rep own by simp_all
  note inv = rep_D(1) [OF rep']
  have o1: "owned ?s1 b k" by (rule alloc_keeps_owned [OF inv own'])
  note map = address_map_eqD [OF address_map_alloc [of PAGE_SIZE ?s]]
  have push: "owned (fold (\<lambda>j. push_chunk i (g j)) js t) = owned t \<and>
      page_pool_idx (fold (\<lambda>j. push_chunk i (g j)) js t) = page_pool_idx t \<and>
      idx_to_addr (fold (\<lambda>j. push_chunk i (g j)) js t) = idx_to_addr t"
    for g js and t :: "'a kmalloc_state_scheme"
    by (induction js arbitrary: t) (auto simp: push_chunk_def owned_def fun_eq_iff)
  have pop: "owned (snd (pop_chunk i t)) = owned t" "page_pool_idx (snd (pop_chunk i t)) = page_pool_idx t"
    "idx_to_addr (snd (pop_chunk i t)) = idx_to_addr t" for t :: "'a kmalloc_state_scheme"
    by (simp_all add: pop_chunk_def Let_def)
  have slice: "owned (slice_page i p t) = owned t" "page_pool_idx (slice_page i p t) = page_pool_idx t"
    "idx_to_addr (slice_page i p t) = idx_to_addr t" for p and t :: "'a kmalloc_state_scheme"
    by (simp_all add: slice_page_def Let_def push)
  have new: "addr_to_page_idx ?s1 (fst (buddy_alloc PAGE_SIZE ?s)) \<noteq> b" if nn: "fst (buddy_alloc PAGE_SIZE ?s) \<noteq> NULL"
  proof -
    obtain c where c: "fst (buddy_alloc PAGE_SIZE ?s) = idx_to_addr s c" "alloc_effect ?s c 0 ?s1"
      using buddy_alloc_cases [OF inv, of PAGE_SIZE] nn by (auto simp: order_of_page split: if_splits)
    then have cf: "c \<in> free_frames s" using block_head [of c 0] by (auto simp: alloc_effect_def)
    then have "addr_to_page_idx ?s1 (idx_to_addr s c) = c"
      using addr_to_idx_inverse [of c s] rep_D(2) [OF rep]
      by (simp add: addr_to_page_idx_def addr_to_idx_def alloc_base geometry_def free_frames_def)
    moreover have "b \<noteq> c" using cf owned_not_free [OF rep_D(1) [OF rep] own] block_head [of b k] by blast
    ultimately show ?thesis using c(1) by simp
  qed
  show ?thesis
    unfolding kmalloc_eq(2) [OF rep srv(3,2)] kmalloc_small_def
    using o1 new own by (simp add: case_prod_unfold Let_def pop slice map) blast
qed

lemma kmalloc_keeps_live:
  assumes rep: "kmalloc_rep ch s"
  shows "(\<exists>ch'. kmalloc_rep ch' (snd (kmalloc sz s)) \<and> (\<forall>p. live ch s p \<longrightarrow> live ch' (snd (kmalloc sz s)) p) \<and>
      (fst (kmalloc sz s) \<noteq> NULL \<longrightarrow>
        live ch' (snd (kmalloc sz s)) (fst (kmalloc sz s)) \<and> \<not> live ch s (fst (kmalloc sz s))))"
proof -
  consider "sz = 0" | i where "sz \<noteq> 0" "find_pool sz = int i" "i < NUM_POOLS" | "sz \<noteq> 0" "find_pool sz = - 1"
    using find_pool_small [of sz] find_pool_large [of sz] by (metis not_le)
  then show ?thesis
  proof cases
    case 1
    then show ?thesis using rep kmalloc_eq(1) [OF rep] by auto
  next
    case 2
    show ?thesis
    proof (cases "ch i = [] \<and> \<not> can_serve s PAGE_SIZE")
      case True
      then show ?thesis using kmalloc_small_cases [OF rep 2] rep by auto
    next
      case False
      let ?p = "fst (kmalloc sz s)" and ?s = "snd (kmalloc sz s)"
      obtain ch' where e: "small_effect ch s i ?p ch' ?s" using kmalloc_small_cases [OF rep 2] False by auto
      note keep = owned_keeps_page [OF rep 2(3,2,1)]
      have "live ch' ?s q" if q: "live ch s q" for q
        using q unfolding live_def
      proof (elim disjE exE conjE)
        fix k assume k: "chunk_of s k q" "q \<notin> set (ch k)"
        then have "chunk_of ?s k q \<and> q \<notin> set (ch' k)"
          using e by (cases "k = i") (auto simp: small_effect_def)
        then show "(\<exists>k. chunk_of ?s k q \<and> q \<notin> set (ch' k)) \<or>
          (\<exists>b k. q = idx_to_addr ?s b \<and> owned ?s b k \<and> page_pool_idx ?s b = - 1)" by blast
      next
        fix b k assume b: "q = idx_to_addr s b" "owned s b k" "page_pool_idx s b = - 1"
        then have "q = idx_to_addr ?s b \<and> owned ?s b k \<and> page_pool_idx ?s b = - 1" using keep [OF b(2)] by simp
        then show "(\<exists>k. chunk_of ?s k q \<and> q \<notin> set (ch' k)) \<or>
          (\<exists>b k. q = idx_to_addr ?s b \<and> owned ?s b k \<and> page_pool_idx ?s b = - 1)" by blast
      qed
      moreover have "live ch' ?s ?p" using e by (auto simp: small_effect_def live_def)
      moreover have "\<not> live ch s ?p"
        unfolding live_def
      proof (intro notI, elim disjE exE conjE)
        fix k assume k: "chunk_of s k ?p" "?p \<notin> set (ch k)"
        have "?p \<notin> set (ch i)"
        proof
          assume a: "?p \<in> set (ch i)"
          then have "chunk_of s i ?p" using rep_D(5) [OF rep] 2(3) unfolding pools_ok_def by blast
          then show False using chunk_pool_unique [OF rep_D(2,3) [OF rep] k(1)] a k(2) by blast
        qed
        then have "addr_to_page_idx s (?p AND NOT (PAGE_SIZE - 1)) \<in> free_frames s" using e by (simp add: small_effect_def)
        then show False using chunk_page(2) [OF rep k(1)] owned_not_free [OF rep_D(1) [OF rep]] block_head by blast
      next
        fix b k assume b: "?p = idx_to_addr s b" "owned s b k" "page_pool_idx s b = - 1"
        have "?p \<notin> set (ch i)"
        proof
          assume "?p \<in> set (ch i)"
          then have "chunk_of s i (idx_to_addr s b)" using rep_D(5) [OF rep] 2(3) b(1) unfolding pools_ok_def by metis
          then show False using owned_page_large [OF rep _ b(2)] b(3) by simp
        qed
        then have "b \<in> free_frames s" using e addr_page [OF rep b(2)] b(1) by (simp add: small_effect_def)
        then show False using owned_not_free [OF rep_D(1) [OF rep] b(2)] block_head [of b k] by blast
      qed
      ultimately show ?thesis using e by (auto simp: small_effect_def)
    qed
  next
    case 3
    let ?s = "s\<lparr>sie := False\<rparr>" and ?p = "fst (kmalloc sz s)"
    let ?s1 = "snd (buddy_alloc sz ?s)"
    have rep': "kmalloc_rep ch ?s" using rep by simp
    note inv = rep_D(1) [OF rep']
    note map = address_map_eqD [OF address_map_alloc [of sz ?s]]
    have eq: "?p = fst (buddy_alloc sz ?s)" "snd (kmalloc sz s) = ?s1\<lparr>sie := sie s\<rparr>"
      using kmalloc_eq(3) [OF rep 3] by simp_all
    have rep1: "kmalloc_rep ch (snd (kmalloc sz s))" using rep_alloc [OF rep', of sz] by (simp add: eq)
    have ck: "chunk_of ?s1 = chunk_of s" using chunk_of_map [OF address_map_alloc [of sz ?s]] by simp
    have keep: "live ch ?s1 q" if "live ch s q" for q
      using that alloc_keeps_owned [OF inv] unfolding live_def ck map by (auto; blast)
    have "live ch ?s1 ?p \<and> \<not> live ch s ?p" if nn: "?p \<noteq> NULL"
    proof -
      obtain c where c: "?p = idx_to_addr s c" "alloc_effect ?s c (alloc_order sz) ?s1"
        using buddy_alloc_cases [OF inv, of sz] nn by (auto simp: eq split: if_splits)
      then have cf: "c \<in> free_frames s" and own: "owned ?s1 c (alloc_order sz)"
        using block_head [of c "alloc_order sz"] by (auto simp: alloc_effect_def)
      have cn: "c < buddy_total_pages s" using cf by (simp add: free_frames_def)
      have used: "\<not> owned s c k" for k
        using owned_not_free [OF rep_D(1) [OF rep], of c k] cf block_head [of c k] by blast
      then have "page_pool_idx s c = - 1" using rep_D(4) [OF rep] cn by (fastforce simp: pool_pages_def)
      then have "live ch ?s1 ?p" using own c(1) unfolding live_def map by auto
      moreover have "\<not> live ch s ?p"
        unfolding live_def
      proof (intro notI, elim disjE exE conjE)
        fix k assume k: "chunk_of s k ?p"
        have "addr_to_page_idx s (?p AND NOT (PAGE_SIZE - 1)) = c"
          unfolding c(1) using cn addr_unat [OF rep_D(2) [OF rep], of c]
          by (intro page_idx_of [OF rep_D(2,3) [OF rep], where d = 0]) auto
        then show False using chunk_page(2) [OF rep k] used by simp
      next
        fix b k assume b: "?p = idx_to_addr s b" "owned s b k"
        then have "b = c" using c(1) cn idx_eq_owned [OF rep_D(1) [OF rep] b(2)] by simp
        then show False using used b(2) by simp
      qed
      ultimately show ?thesis by simp
    qed
    then show ?thesis using rep1 keep unfolding eq(2) by (intro exI [of _ ch]) simp
  qed
qed


lemma kfree_keeps_live:
  assumes rep: "kmalloc_rep ch s" and p: "live ch s p"
  shows "\<exists>ch'. kmalloc_rep ch' (kfree p s) \<and> (\<forall>q. live ch s q \<and> q \<noteq> p \<longrightarrow> live ch' (kfree p s) q)"
  using p unfolding live_def [of ch s p]
proof (elim disjE exE conjE)
  fix i assume i: "chunk_of s i p" "p \<notin> set (ch i)"
  note i8 = chunk_page(3) [OF rep i(1)]
  have eq: "kfree p s = push_chunk i p s" by (rule kfree_small [OF rep i(1)])
  have "kmalloc_rep (ch(i := p # ch i)) (kfree p s)" unfolding eq by (rule push_chunk_rep [OF rep i8 i])
  moreover have "live (ch(i := p # ch i)) (kfree p s) q" if q: "live ch s q" "q \<noteq> p" for q
    using q unfolding live_def eq
  proof (elim disjE exE conjE)
    fix k assume "chunk_of s k q" "q \<notin> set (ch k)"
    then have "chunk_of (push_chunk i p s) k q \<and> q \<notin> set ((ch(i := p # ch i)) k)" using q(2) by auto
    then show "(\<exists>k. chunk_of (push_chunk i p s) k q \<and> q \<notin> set ((ch(i := p # ch i)) k)) \<or>
      (\<exists>b k. q = idx_to_addr (push_chunk i p s) b \<and> owned (push_chunk i p s) b k \<and> page_pool_idx (push_chunk i p s) b = - 1)"
      by blast
  qed (auto simp: push_chunk_def owned_def)
  ultimately show ?thesis by blast
next
  fix b k assume b: "p = idx_to_addr s b" "owned s b k" "page_pool_idx s b = - 1"
  let ?s = "s\<lparr>sie := False\<rparr>"
  let ?s1 = "buddy_free (idx_to_addr s b) ?s"
  have rep': "kmalloc_rep ch ?s" and own': "owned ?s b k" and l': "page_pool_idx ?s b = - 1"
    using rep b by simp_all
  have eq: "kfree p s = ?s1\<lparr>sie := sie s\<rparr>" unfolding b(1) by (rule kfree_large [OF rep b(2,3)])
  have "kmalloc_rep ch (kfree p s)" using rep_free [OF rep' own' l'] by (simp add: eq)
  moreover have "live ch ?s1 q" if q: "live ch s q" "q \<noteq> p" for q
  proof -
    note map = address_map_eqD [OF address_map_free [of "idx_to_addr s b" ?s]]
    have ck: "chunk_of ?s1 = chunk_of s"
      using chunk_of_map [OF address_map_free [of "idx_to_addr s b" ?s]] by simp
    from q(1) consider i where "chunk_of s i q" "q \<notin> set (ch i)"
      | c l where "q = idx_to_addr s c" "owned s c l" "page_pool_idx s c = - 1"
      unfolding live_def by blast
    then show ?thesis
    proof cases
      case 1
      then show ?thesis unfolding live_def ck by blast
    next
      case 2
      then have "owned ?s1 c l"
        using free_keeps_owned [OF rep_D(1) [OF rep'] own', of c l] q(2) b(1) by auto
      then show ?thesis using 2 unfolding live_def map by auto
    qed
  qed
  ultimately show ?thesis unfolding eq by auto
qed

interpretation kheap: allocator kmalloc kfree kmalloc_inv owns_object
proof
  fix s :: "'a kmalloc_state_scheme" and n p q
  assume "kmalloc_inv s"
  then obtain ch where rep: "kmalloc_rep ch s" by (auto simp: kmalloc_inv_def)
  note own = owns_object_eq [OF rep]
  obtain ch' where a: "kmalloc_rep ch' (snd (kmalloc n s))"
    "\<And>p. live ch s p \<Longrightarrow> live ch' (snd (kmalloc n s)) p"
    "fst (kmalloc n s) \<noteq> NULL \<Longrightarrow> live ch' (snd (kmalloc n s)) (fst (kmalloc n s)) \<and> \<not> live ch s (fst (kmalloc n s))"
    using kmalloc_keeps_live [OF rep, of n] by blast
  note own' = owns_object_eq [OF a(1)]
  show "kmalloc_inv (snd (kmalloc n s))" using a(1) by (auto simp: kmalloc_inv_def)
  show "owns_object (snd (kmalloc n s)) (fst (kmalloc n s))" if "fst (kmalloc n s) \<noteq> NULL"
    using a(3) [OF that] by (simp add: own')
  show "\<not> owns_object s (fst (kmalloc n s))" if "fst (kmalloc n s) \<noteq> NULL"
    using a(3) [OF that] by (simp add: own)
  show "owns_object (snd (kmalloc n s)) p" if "owns_object s p"
    using a(2) that by (simp add: own own')
  show "kmalloc_inv (kfree p s)" if "owns_object s p"
    using kfree_keeps_live [OF rep, of p] that by (auto simp: own kmalloc_inv_def)
  show "owns_object (kfree p s) q" if "owns_object s p" "owns_object s q" "p \<noteq> q"
    using kfree_keeps_live [OF rep, of p] that by (auto simp: own owns_object_eq)
qed

subsection \<open>Initialisation\<close>

lemma init_pools_fold:
  "fold (\<lambda>i s. s\<lparr>pools := (pools s)(i := g i)\<rparr>) is s = s\<lparr>pools := (\<lambda>i. if i \<in> set is then g i else pools s i)\<rparr>"
proof (induction "is" arbitrary: s)
  case (Cons x xs)
  show ?case unfolding fold_Cons o_apply Cons.IH by (auto simp: fun_eq_iff)
qed simp

lemma kmalloc_init_rep:
  assumes inv: "buddy_inv s" and al: "base_aligned s" and srv: "can_serve s (of_nat (buddy_total_pages s))"
  shows "kmalloc_rep (\<lambda>_. []) (kmalloc_init s)"
    and "\<exists>b. free_frames (kmalloc_init s) = free_frames s - frames_of b (alloc_order (of_nat (buddy_total_pages s)))"
proof -
  let ?g = "\<lambda>i. \<lparr>chunk_size = pool_sizes ! i, pool_free_list = NULL\<rparr>"
  define t where "t = s\<lparr>pools := (\<lambda>i. if i < NUM_POOLS then ?g i else pools s i)\<rparr>"
  let ?n = "of_nat (buddy_total_pages s) :: u64"
  define u where "u = snd (buddy_alloc ?n t)"
  define p where "p = fst (buddy_alloc ?n t)"
  have t: "buddy_inv t" "buddy_total_pages t = buddy_total_pages s" "can_serve t ?n"
    using inv srv by (simp_all add: t_def can_serve_def free_heads_def)
  have pn: "p \<noteq> NULL"
    using buddy_alloc_nonnull [OF t(1,3)] by (simp add: p_def)
  have u: "buddy_inv u" "buddy_total_pages u = buddy_total_pages s" "pools u = pools t" "buddy_base_addr u = buddy_base_addr s"
    using alloc_inv [OF t(1)] address_map_eqD(4) [OF address_map_alloc [of ?n t]] t(2)
    by (simp_all add: u_def alloc_base) (simp add: t_def)
  have init: "kmalloc_init s = u\<lparr>page_pool_idx_ptr := p, page_pool_idx := fill 0 0 (buddy_total_pages s) (- 1) (page_pool_idx u)\<rparr>"
  proof -
    have "fold (\<lambda>i s. s\<lparr>pools := (pools s)(i := ?g i)\<rparr>) [0..<NUM_POOLS] s = t"
      unfolding init_pools_fold t_def by (simp add: fun_eq_iff)
    then show ?thesis using pn u(2) t(2)
      by (simp add: kmalloc_init_def Let_def case_prod_unfold u_def p_def)
  qed
  have "pool_pages (kmalloc_init s)"
    unfolding init pool_pages_def by (simp add: u(2) fill_apply)
  moreover have "pools_ok (\<lambda>_. []) (kmalloc_init s)"
    unfolding init pools_ok_def by (simp add: u(3)) (simp add: t_def)
  moreover have "base_aligned (kmalloc_init s)" using al u(4) by (simp add: init base_aligned_def)
  ultimately show "kmalloc_rep (\<lambda>_. []) (kmalloc_init s)" using u(1) by (simp add: kmalloc_rep_def init)
  obtain b where "alloc_effect t b (alloc_order ?n) u"
    using buddy_alloc_cases [OF t(1), of ?n] t(3) by (auto simp: u_def)
  then have "free_frames u = free_frames s - frames_of b (alloc_order ?n)"
    by (simp add: alloc_effect_def) (simp add: t_def)
  then show "\<exists>b. free_frames (kmalloc_init s) = free_frames s - frames_of b (alloc_order (of_nat (buddy_total_pages s)))"
    by (auto simp: init)
qed


subsection \<open>What a client of the heap sees\<close>

lemma rep_view:
  fixes s s' :: "'a kmalloc_state_scheme"
  assumes b: "buddy_state.truncate s' = buddy_state.truncate s"
    and k: "pools s' = pools s" "page_pool_idx s' = page_pool_idx s"
  shows "kmalloc_rep ch s' = kmalloc_rep ch s" "live ch s' = live ch s" "chunk_of s' = chunk_of s"
proof -
  note v = buddy_view [OF b]
  show c: "chunk_of s' = chunk_of s" by (simp add: fun_eq_iff chunk_of_def slot_def v k)
  have "pool_pages s' = pool_pages s" by (simp add: pool_pages_def v k)
  moreover have "pools_ok ch s' = pools_ok ch s" by (simp add: pools_ok_def v k c)
  ultimately show "kmalloc_rep ch s' = kmalloc_rep ch s" by (simp add: kmalloc_rep_def base_aligned_def v)
  show "live ch s' = live ch s" by (simp add: fun_eq_iff live_def v k c)
qed

lemma kmalloc_view:
  fixes s s' :: "'a kmalloc_state_scheme"
  assumes "kmalloc_state.truncate s' = kmalloc_state.truncate s"
  shows "kmalloc_inv s' = kmalloc_inv s" "owns_object s' = owns_object s"
proof -
  have "buddy_state.truncate s' = buddy_state.truncate s" "pools s' = pools s" "page_pool_idx s' = page_pool_idx s"
    using assms by (simp_all add: kmalloc_state.truncate_def buddy_state.truncate_def)
  note v = rep_view [OF this]
  show "kmalloc_inv s' = kmalloc_inv s" by (simp add: kmalloc_inv_def v)
  show "owns_object s' = owns_object s" by (simp add: fun_eq_iff owns_object_def v)
qed

lemma kmalloc_truncate_inv:
  fixes s :: "'a kmalloc_state_scheme"
  shows "kmalloc_inv (kmalloc_state.truncate s) = kmalloc_inv s"
proof -
  let ?t = "kmalloc_state.truncate s"
  have tt: "buddy_state.truncate ?t = buddy_state.truncate s" "pools ?t = pools s" "page_pool_idx ?t = page_pool_idx s"
    "mem ?t = mem s" "buddy_total_pages ?t = buddy_total_pages s" "buddy_base_addr ?t = buddy_base_addr s"
    by (simp_all add: kmalloc_state.truncate_def buddy_state.truncate_def)
  have o: "owned ?t = owned s" "buddy_inv ?t = buddy_inv s" "idx_to_addr ?t = idx_to_addr s"
    using truncate_inv [of s] truncate_inv [of ?t] truncate_view [of s] truncate_view [of ?t] by (simp_all add: tt(1))
  have c: "chunk_of ?t = chunk_of s" by (simp add: fun_eq_iff chunk_of_def slot_def o tt)
  have "pool_pages ?t = pool_pages s" by (simp add: pool_pages_def o tt)
  moreover have "pools_ok ch ?t = pools_ok ch s" for ch by (simp add: pools_ok_def c tt)
  ultimately show ?thesis by (simp add: kmalloc_inv_def kmalloc_rep_def base_aligned_def o tt)
qed

lemma kmalloc_inv_sie [simp]: "kmalloc_inv (s\<lparr>sie := e\<rparr>) = kmalloc_inv s"
  by (simp add: kmalloc_inv_def)

lemma owns_object_sie [simp]: "owns_object (s\<lparr>sie := e\<rparr>) = owns_object s"
  by (simp add: fun_eq_iff owns_object_def)

lemma more_of:
  fixes s s' :: "'a kmalloc_state_scheme"
  assumes "buddy_state.more s' = buddy_state.more s"
  shows "kmalloc_state.more s' = kmalloc_state.more s"
  using assms by (cases s; cases s'; simp)

lemma push_chunk_more [simp]: "kmalloc_state.more (push_chunk i x s) = kmalloc_state.more s"
  by (simp add: push_chunk_def)

lemma kmalloc_more [simp]: "kmalloc_state.more (snd (kmalloc sz s)) = kmalloc_state.more s"
proof -
  have push: "kmalloc_state.more (fold (\<lambda>j. push_chunk i (g j)) js t) = kmalloc_state.more t"
    for g js i and t :: "'a kmalloc_state_scheme"
    by (induction js arbitrary: t) auto
  have pop: "kmalloc_state.more (snd (pop_chunk i t)) = kmalloc_state.more t" for i and t :: "'a kmalloc_state_scheme"
    by (simp add: pop_chunk_def Let_def)
  have slice: "kmalloc_state.more (slice_page i p t) = kmalloc_state.more t" for i p and t :: "'a kmalloc_state_scheme"
    by (simp add: slice_page_def Let_def push)
  have alloc: "kmalloc_state.more (snd (buddy_alloc n t)) = kmalloc_state.more t" for n and t :: "'a kmalloc_state_scheme"
    by (rule more_of) simp
  have "kmalloc_state.more (snd (kmalloc_small i t)) = kmalloc_state.more t" for i and t :: "'a kmalloc_state_scheme"
    by (simp add: kmalloc_small_def case_prod_unfold Let_def pop slice alloc)
  moreover have "kmalloc_state.more (snd (kmalloc_large n t)) = kmalloc_state.more t" for n and t :: "'a kmalloc_state_scheme"
    by (simp add: kmalloc_large_def case_prod_unfold Let_def alloc)
  ultimately show ?thesis by (simp add: kmalloc_def irq_defs case_prod_unfold Let_def)
qed

lemma kfree_more [simp]: "kmalloc_state.more (kfree p s) = kmalloc_state.more s"
proof -
  have "kmalloc_state.more (buddy_free p t) = kmalloc_state.more t" for t :: "'a kmalloc_state_scheme"
    by (rule more_of) simp
  then show ?thesis by (simp add: kfree_def irq_defs Let_def)
qed

lemma kmalloc_sie:
  assumes "kmalloc_inv s"
  shows "sie (snd (kmalloc sz s)) = sie s"
proof -
  obtain ch where rep: "kmalloc_rep ch s" using assms by (auto simp: kmalloc_inv_def)
  consider "sz = 0" | i where "sz \<noteq> 0" "find_pool sz = int i" | "sz \<noteq> 0" "find_pool sz = - 1"
    using find_pool_small [of sz] find_pool_large [of sz] by (metis not_le)
  then show ?thesis by cases (simp_all add: kmalloc_eq [OF rep])
qed

lemma kfree_sie:
  assumes "kmalloc_inv s" "owns_object s p"
  shows "sie (kfree p s) = sie s"
proof -
  obtain ch where rep: "kmalloc_rep ch s" "live ch s p" using assms(2) by (auto simp: owns_object_def)
  from rep(2) show ?thesis
    unfolding live_def
  proof (elim disjE exE conjE)
    fix i assume "chunk_of s i p"
    then show ?thesis using kfree_small [OF rep(1)] by (simp add: push_chunk_def)
  next
    fix b k assume "p = idx_to_addr s b" "owned s b k" "page_pool_idx s b = - 1"
    then show ?thesis using kfree_large [OF rep(1)] by simp
  qed
qed

text \<open>A freed chunk is not an object any more.\<close>

lemma kfree_chunk_gone:
  assumes own: "owns_object s p" and c: "chunk_of s i p"
  shows "\<not> owns_object (kfree p s) p"
proof -
  obtain ch where rep: "kmalloc_rep ch s" and l: "live ch s p" using own by (auto simp: owns_object_def)
  have "p \<notin> set (ch i)"
    using l unfolding live_def
  proof (elim disjE exE conjE)
    fix k assume k: "chunk_of s k p" "p \<notin> set (ch k)"
    show ?thesis
    proof
      assume "p \<in> set (ch i)"
      then show False
        using chunk_pool_unique [OF rep_D(2,3) [OF rep] k(1), of i] c k(2) by metis
    qed
  next
    fix b k assume b: "p = idx_to_addr s b" "owned s b k" "page_pool_idx s b = - 1"
    show ?thesis using owned_page_large [OF rep _ b(2), of i] c b(1,3) by simp
  qed
  then have rep': "kmalloc_rep (ch(i := p # ch i)) (kfree p s)"
    unfolding kfree_small [OF rep c] by (rule push_chunk_rep [OF rep chunk_page(3) [OF rep c] c])
  have ck: "chunk_of (kfree p s) = chunk_of s" unfolding kfree_small [OF rep c] by simp
  have "\<not> live (ch(i := p # ch i)) (kfree p s) p"
    unfolding live_def ck
  proof (intro notI, elim disjE exE conjE)
    fix k assume "chunk_of s k p" "p \<notin> set ((ch(i := p # ch i)) k)"
    moreover have "k = i"
      using chunk_page(1) [OF rep c] chunk_page(1) [OF rep calculation(1)] by simp
    ultimately show False by simp
  next
    fix b k assume b: "p = idx_to_addr (kfree p s) b" "owned (kfree p s) b k" "page_pool_idx (kfree p s) b = - 1"
    have "p = idx_to_addr s b" "owned s b k" "page_pool_idx s b = - 1"
      using b unfolding kfree_small [OF rep c] by (auto simp: push_chunk_def owned_def)
    then show False using owned_page_large [OF rep _ \<open>owned s b k\<close>, of i] c by simp
  qed
  then show ?thesis by (simp add: owns_object_eq [OF rep'])
qed

subsection \<open>A concrete heap\<close>

text \<open>The two-page range after initialisation: one page holds \<^verbatim>\<open>page_pool_idx\<close>, the other is free.\<close>

definition bare_heap :: kmalloc_state where
  "bare_heap = buddy_state.extend free_pair
     (kmalloc_state.fields (\<lambda>_. \<lparr>chunk_size = 0, pool_free_list = NULL\<rparr>) NULL (\<lambda>_. 0))"

definition small_heap :: kmalloc_state where
  "small_heap = kmalloc_init bare_heap"

lemma bare_heap_view: "buddy_state.truncate bare_heap = free_pair"
  by (simp add: bare_heap_def buddy_state.truncate_def buddy_state.extend_def)

lemma bare_heap_ok: "buddy_inv bare_heap" "base_aligned bare_heap" "buddy_total_pages bare_heap = 2"
  "free_frames bare_heap = {0, 1}"
proof -
  show "buddy_inv bare_heap" using free_pair_inv truncate_inv(4) [of bare_heap] by (simp add: bare_heap_view)
  show "free_frames bare_heap = {0, 1}"
  proof -
    have "free_frames free_pair = {i. i < 2}" by (auto simp: free_frames_def free_pair_def is_free_def)
    moreover have "{i::nat. i < 2} = {0, 1}" by auto
    ultimately show ?thesis using truncate_inv(5) [of bare_heap] unfolding bare_heap_view by simp
  qed
qed (simp_all add: base_aligned_def bare_heap_def buddy_state.extend_def free_pair_def two_pages_def)

lemma order_of_bytes: "unat n \<le> 4096 \<Longrightarrow> alloc_order n = 0"
proof -
  assume n: "unat n \<le> 4096"
  have "n + PAGE_SIZE - 1 = n + 4095" by simp
  then have "unat ((n + PAGE_SIZE - 1) div PAGE_SIZE) = (unat n + 4095) div 4096"
    using n by (simp add: unat_div unat_add_nowrap)
  moreover have "(unat n + 4095) div 4096 \<le> 2 ^ 0" using n by simp
  ultimately show ?thesis
    using pages_to_order_least [of "(unat n + 4095) div 4096" 0] by (simp add: alloc_order_def)
qed

lemma serve_bytes:
  assumes "buddy_inv s" "free_frames s \<noteq> {}" "0 < unat n" "unat n \<le> 4096"
  shows "can_serve s n"
proof -
  have "alloc_order n = 0" using assms(4) by (rule order_of_bytes)
  moreover have "n \<noteq> 0" using assms(3) by auto
  ultimately show ?thesis using page_served [OF assms(1)] assms(2) by (simp add: can_serve_def order_of_page)
qed

lemma small_heap_rep: "kmalloc_rep (\<lambda>_. []) small_heap"
proof -
  have "can_serve bare_heap (of_nat (buddy_total_pages bare_heap))"
    by (rule serve_bytes) (simp_all add: bare_heap_ok)
  then show ?thesis unfolding small_heap_def by (intro kmalloc_init_rep(1) bare_heap_ok)
qed

lemma small_heap_inv: "kmalloc_inv small_heap"
  using small_heap_rep by (auto simp: kmalloc_inv_def)

lemma small_heap_serves: "can_serve small_heap PAGE_SIZE"
proof -
  have "can_serve bare_heap (of_nat (buddy_total_pages bare_heap))"
    by (rule serve_bytes) (simp_all add: bare_heap_ok)
  note f = kmalloc_init_rep(2) [OF bare_heap_ok(1,2) this, folded small_heap_def, unfolded bare_heap_ok(3,4)]
  have "alloc_order (of_nat 2) = 0" by (rule order_of_bytes) simp
  with f obtain b where "free_frames small_heap = {0, 1} - frames_of b 0" by metis
  moreover have "frames_of b 0 = {b}" by (auto simp: frames_of_def)
  ultimately have "free_frames small_heap \<noteq> {}" by auto
  then show ?thesis using page_served rep_D(1) [OF small_heap_rep] by blast
qed


lemma small_request_example:
  "\<exists>i ch. find_pool 24 = int i \<and> i < NUM_POOLS \<and>
     chunk_of (snd (kmalloc 24 small_heap)) i (fst (kmalloc 24 small_heap)) \<and> kmalloc_rep ch (snd (kmalloc 24 small_heap))"
proof -
  obtain i where i: "find_pool 24 = int i" "i < NUM_POOLS" using find_pool_small [of 24] by auto
  have n: "(24 :: u64) \<noteq> 0" by simp
  have "\<exists>ch. small_effect (\<lambda>_. []) small_heap i (fst (kmalloc 24 small_heap)) ch (snd (kmalloc 24 small_heap))"
    using kmalloc_small_cases [OF small_heap_rep n i] small_heap_serves by simp
  then show ?thesis using i unfolding small_effect_def by blast
qed

subsection \<open>Properties\<close>

text \<open>C8: \<^verbatim>\<open>kmalloc\<close> of at most 2048 bytes uses the pool of the least chunk size that fits. It fails,
  changing nothing, only when the pool is empty and no frame is free; otherwise it returns a
  chunk of that pool that was not in use, and the heap invariant holds.\<close>

theorem kmalloc_small_correct:
  assumes "kmalloc_inv s" "0 < sz" "sz \<le> 2048"
  shows "\<exists>i<NUM_POOLS. unat sz \<le> psize i \<and> (\<forall>l<i. psize l < unat sz) \<and>
    (case kmalloc sz s of (p, s') \<Rightarrow>
       if pool_free_list (pools s i) = NULL \<and> free_frames s = {} then p = NULL \<and> s' = s
       else chunk_of s' i p \<and> owns_object s' p \<and> \<not> owns_object s p \<and> kmalloc_inv s')"
proof -
  obtain ch where rep: "kmalloc_rep ch s" using assms(1) by (auto simp: kmalloc_inv_def)
  obtain i where i: "find_pool sz = int i" "i < NUM_POOLS" "unat sz \<le> psize i" "\<And>l. l < i \<Longrightarrow> psize l < unat sz"
    using find_pool_small [OF assms(3)] by blast
  have sz: "sz \<noteq> 0" using assms(2) by auto
  have fail: "ch i = [] \<and> \<not> can_serve s PAGE_SIZE \<longleftrightarrow> pool_free_list (pools s i) = NULL \<and> free_frames s = {}"
    using pool_empty [OF rep i(2)] page_served [OF rep_D(1) [OF rep]] by simp
  note cases = kmalloc_small_cases [OF rep sz i(1,2), unfolded fail]
  show ?thesis
  proof (cases "pool_free_list (pools s i) = NULL \<and> free_frames s = {}")
    case False
    then obtain ch' where e: "small_effect ch s i (fst (kmalloc sz s)) ch' (snd (kmalloc sz s))"
      using cases unfolding if_not_P [OF False] by blast
    then have c: "chunk_of (snd (kmalloc sz s)) i (fst (kmalloc sz s))" "kmalloc_rep ch' (snd (kmalloc sz s))"
      by (auto simp: small_effect_def)
    then have "fst (kmalloc sz s) \<noteq> NULL" by (intro chunk_cell(2))
    then show ?thesis
      using c(1) i(2-4) kheap.alloc_inv [OF assms(1), of sz] kheap.alloc_owns [OF assms(1), of sz]
        kheap.alloc_fresh [OF assms(1), of sz] False
      by (intro exI [of _ i]) (auto simp: case_prod_unfold)
  qed (use cases i in auto)
qed

theorem kmalloc_small_correct_witness: "\<exists>i<NUM_POOLS. chunk_of (snd (kmalloc 24 small_heap)) i (fst (kmalloc 24 small_heap))"
proof -
  have "free_frames small_heap \<noteq> {}"
    using small_heap_serves page_served rep_D(1) [OF small_heap_rep] by blast
  then show ?thesis
    using kmalloc_small_correct [OF small_heap_inv, of 24] by (auto simp: case_prod_unfold)
qed

text \<open>C3: any list of \<^verbatim>\<open>kmalloc\<close> requests gives pairwise distinct objects, new ones all, while earlier
  objects stay allocated; \<^verbatim>\<open>kfree\<close> of them in any order keeps the heap invariant and every other
  object.\<close>

theorem kmalloc_requests_disjoint:
  assumes "kmalloc_inv s" "alloc_many kmalloc szs s = (ps, s')" "mset qs = mset ps"
  shows "distinct ps \<and> (\<forall>p\<in>set ps. owns_object s' p \<and> \<not> owns_object s p) \<and>
    (\<forall>q. owns_object s q \<longrightarrow> owns_object (release_many kfree qs s') q) \<and> kmalloc_inv (release_many kfree qs s')"
proof -
  note a = kheap.alloc_many_ok [OF assms(1,2)]
  have qs: "set qs = set ps" "distinct qs \<longleftrightarrow> distinct ps"
    using assms(3) by (metis set_mset_mset, metis mset_eq_imp_distinct_iff)
  have "kmalloc_inv (release_many kfree qs s') \<and>
    (\<forall>q. owns_object s' q \<and> q \<notin> set qs \<longrightarrow> owns_object (release_many kfree qs s') q)"
    using a qs by (intro kheap.release_many_ok) auto
  then show ?thesis using a qs by blast
qed

theorem kmalloc_requests_disjoint_witness:
  "distinct (fst (alloc_many kmalloc [16, 100, 4096] small_heap))"
  using kmalloc_requests_disjoint [OF small_heap_inv, of "[16, 100, 4096]"
    "fst (alloc_many kmalloc [16, 100, 4096] small_heap)" "snd (alloc_many kmalloc [16, 100, 4096] small_heap)"
    "fst (alloc_many kmalloc [16, 100, 4096] small_heap)"]
  by simp

text \<open>Two different chunks never overlap: their byte ranges are disjoint, whatever their pools.\<close>

theorem chunks_disjoint:
  assumes "kmalloc_inv s" "chunk_of s i p" "chunk_of s k q" "p \<noteq> q"
  shows "{unat p ..< unat p + psize i} \<inter> {unat q ..< unat q + psize k} = {}"
proof -
  obtain ch where rep: "kmalloc_rep ch s" using assms(1) by (auto simp: kmalloc_inv_def)
  obtain f j where f: "f < buddy_total_pages s" "page_pool_idx s f = int i" "j * psize i < 4096" "p = slot s f i j"
    using assms(2) unfolding chunk_of_def by blast
  obtain g l where g: "g < buddy_total_pages s" "page_pool_idx s g = int k" "l * psize k < 4096" "q = slot s g k l"
    using assms(3) unfolding chunk_of_def by blast
  have fit: "a * psize c + psize c \<le> 4096" if "a * psize c < 4096" "c < NUM_POOLS" for a c
  proof -
    have "psize c dvd 4096" using that(2) by (auto simp: pool_cases)
    then obtain d where d: "4096 = d * psize c" by (metis dvd_def mult.commute)
    then have "a < d" using that(1) by (metis mult_less_cancel2)
    then have "Suc a * psize c \<le> d * psize c" by (intro mult_le_mono1) simp
    then show ?thesis using d by simp
  qed
  have i: "i < NUM_POOLS" "k < NUM_POOLS" using chunk_page(3) [OF rep] assms(2,3) by blast+
  note u = unat_slot [OF rep_D(2) [OF rep] f(1,3), folded f(4)] unat_slot [OF rep_D(2) [OF rep] g(1,3), folded g(4)]
  note b = fit [OF f(3) i(1)] fit [OF g(3) i(2)]
  have "unat p + psize i \<le> unat q \<or> unat q + psize k \<le> unat p"
  proof (cases "f = g")
    case False
    then have "f * 4096 + 4096 \<le> g * 4096 \<or> g * 4096 + 4096 \<le> f * 4096" by (rule pages_apart)
    then show ?thesis using u b by linarith
  next
    case True
    then have ik: "i = k" using f(2) g(2) by simp
    then have "j \<noteq> l" using assms(4) f(4) g(4) True by auto
    then have "Suc j * psize i \<le> l * psize i \<or> Suc l * psize i \<le> j * psize i"
      by (metis linorder_neqE_nat mult_le_mono1 Suc_leI)
    then show ?thesis using u True ik by auto
  qed
  then show ?thesis by auto
qed

text \<open>Freeing a chunk and asking for the same size again returns that chunk and restores the
  pools; only the link cell in the chunk has changed.\<close>

theorem kfree_kmalloc_reuse:
  assumes "kmalloc_inv s" "chunk_of s i p" "owns_object s p" "sz \<noteq> 0" "find_pool sz = int i"
  shows "kmalloc sz (kfree p s) = (p, s\<lparr>mem := (mem s)(p := pool_free_list (pools s i))\<rparr>)"
proof -
  obtain ch where rep: "kmalloc_rep ch s" using assms(1) by (auto simp: kmalloc_inv_def)
  have i: "i < NUM_POOLS" by (rule chunk_page(3) [OF rep assms(2)])
  note g = rep_D(2,3) [OF rep]
  have "live ch s p" using assms(3) owns_object_eq [OF rep] by simp
  then have "p \<notin> set (ch i)"
    unfolding live_def
  proof (elim disjE exE conjE)
    fix k assume "chunk_of s k p" "p \<notin> set (ch k)"
    then show ?thesis using chunk_pool_unique [OF g assms(2)] by blast
  next
    fix b k assume "p = idx_to_addr s b" "owned s b k" "page_pool_idx s b = - 1"
    then show ?thesis using owned_page_large [OF rep] assms(2) by fastforce
  qed
  then have rep': "kmalloc_rep (ch(i := p # ch i)) (push_chunk i p s)" by (rule push_chunk_rep [OF rep i assms(2)])
  have "kmalloc_small i (t\<lparr>sie := e\<rparr>) = pop_chunk i (t\<lparr>sie := e\<rparr>)" if "t = push_chunk i p s" for t e
    using chunk_cell(2) [OF rep assms(2)] by (simp add: that kmalloc_small_def push_chunk_def)
  then show ?thesis
    unfolding kfree_small [OF rep assms(2)] kmalloc_eq(2) [OF rep' assms(4,5)]
    by (simp add: pop_chunk_def Let_def) (simp add: push_chunk_def)
qed

text \<open>\<^verbatim>\<open>kmalloc_init\<close> establishes the heap invariant, with every pool empty, whenever the array
  \<^verbatim>\<open>page_pool_idx\<close> can be allocated.\<close>

theorem kmalloc_init_correct:
  assumes "buddy_inv s" "base_aligned s" "can_serve s (of_nat (buddy_total_pages s))"
  shows "kmalloc_inv (kmalloc_init s) \<and> (\<forall>i<NUM_POOLS. pools (kmalloc_init s) i = \<lparr>chunk_size = pool_sizes ! i, pool_free_list = NULL\<rparr>)"
proof -
  note rep = kmalloc_init_rep(1) [OF assms]
  have "pools (kmalloc_init s) i = \<lparr>chunk_size = pool_sizes ! i, pool_free_list = NULL\<rparr>" if "i < NUM_POOLS" for i
    using rep_D(5) [OF rep] that by (simp add: pools_ok_def)
  then show ?thesis using rep by (auto simp: kmalloc_inv_def)
qed

end
