(* ===== verification/Ordered_Queue.thy ===== *)
theory Ordered_Queue
  imports Prelude "HOL-Library.Multiset"
begin

text \<open>
  The interface of the kernel's ordered lists (the task list and the timer list): an insertion
  that walks past every element the new one is not strictly ahead of. The laws give sortedness,
  the exact position of the new element, and first-in first-out order among equals.
\<close>

locale weak_order =
  fixes ahead :: "'e \<Rightarrow> 'e \<Rightarrow> bool"
  assumes asym: "ahead x y \<Longrightarrow> \<not> ahead y x"
    and neg_trans: "\<not> ahead x y \<Longrightarrow> \<not> ahead y z \<Longrightarrow> \<not> ahead x z"
begin

definition in_order :: "'e list \<Rightarrow> bool" where
  "in_order xs \<longleftrightarrow> sorted_wrt (\<lambda>x y. \<not> ahead y x) xs"

lemma in_order_Cons: "in_order (x # xs) \<longleftrightarrow> (\<forall>y\<in>set xs. \<not> ahead y x) \<and> in_order xs"
  by (simp add: in_order_def)

lemma ahead_trans: "ahead x y \<Longrightarrow> \<not> ahead z y \<Longrightarrow> ahead x z"
  using neg_trans by blast

end

locale ordered_queue = weak_order ahead for ahead :: "'e \<Rightarrow> 'e \<Rightarrow> bool" +
  fixes ins :: "'e \<Rightarrow> 'e list \<Rightarrow> 'e list"
  assumes ins_Nil: "ins x [] = [x]"
    and ins_Cons: "ins x (y # ys) = (if ahead x y then x # y # ys else y # ins x ys)"
begin

lemma ins_set: "set (ins x xs) = insert x (set xs)"
  by (induction xs) (auto simp: ins_Nil ins_Cons)

lemma ins_mset: "mset (ins x xs) = add_mset x (mset xs)"
  by (induction xs) (auto simp: ins_Nil ins_Cons)

lemma ins_in_order: "in_order xs \<Longrightarrow> in_order (ins x xs)"
proof (induction xs)
  case Nil
  show ?case by (simp add: ins_Nil in_order_def)
next
  case (Cons y ys)
  show ?case
  proof (cases "ahead x y")
    case True
    have "\<not> ahead z x" if "z \<in> set ys" for z
    proof -
      have "\<not> ahead z y" using Cons.prems that by (simp add: in_order_Cons)
      then show ?thesis using ahead_trans [OF True] asym by blast
    qed
    then show ?thesis using True Cons.prems asym [OF True] by (simp add: ins_Cons in_order_Cons)
  next
    case False
    then show ?thesis using Cons by (simp add: ins_Cons in_order_Cons ins_set)
  qed
qed

text \<open>The position: behind everything it is not ahead of, before everything it is ahead of.\<close>

lemma ins_position:
  "in_order xs \<Longrightarrow> ins x xs = filter (\<lambda>y. \<not> ahead x y) xs @ x # filter (ahead x) xs"
proof (induction xs)
  case Nil
  show ?case by (simp add: ins_Nil)
next
  case (Cons y ys)
  show ?case
  proof (cases "ahead x y")
    case True
    have a: "ahead x z" if "z \<in> set ys" for z
      using Cons.prems that by (intro ahead_trans [OF True]) (simp add: in_order_Cons)
    then have "filter (\<lambda>y. \<not> ahead x y) ys = []" "filter (ahead x) ys = ys"
      using a by (simp_all add: filter_empty_conv filter_id_conv)
    then show ?thesis using True by (simp add: ins_Cons)
  next
    case False
    then show ?thesis using Cons by (simp add: ins_Cons in_order_Cons)
  qed
qed

text \<open>Only the tail of an ordered list is left when a prefix is taken off.\<close>

lemma in_order_dropWhile: "in_order xs \<Longrightarrow> in_order (dropWhile P xs)"
  by (induction xs) (auto simp: in_order_Cons)

end

end
