(* ===== verification/Task.thy ===== *)
theory Task
  imports Kmalloc_Spec Ordered_Queue
begin

text \<open>
  The deferred-work list \<^verbatim>\<open>kernel/src/task.c\<close>: insertion by priority and the nested execution
  loop. The list is the sequence of its nodes, each with the address \<^verbatim>\<open>kmalloc\<close> gave it;
  calling a function pointer is a parameter \<open>call\<close> of the loop.
\<close>

record task =
  task_callback :: u64
  task_arg :: u64
  task_priority :: int

record task_state = kmalloc_state +
  task_list :: "(u64 \<times> task) list"
  current_priority :: int

text \<open>The walk \<^verbatim>\<open>while (curr->next && curr->next->priority >= new_task->priority)\<close>.\<close>

fun insert_after :: "u64 \<times> task \<Rightarrow> (u64 \<times> task) list \<Rightarrow> (u64 \<times> task) list" where
  "insert_after new [] = [new]"
| "insert_after new (nxt # rest) =
     (if task_priority (snd nxt) \<ge> task_priority (snd new) then nxt # insert_after new rest else new # nxt # rest)"

definition insert_task :: "u64 \<times> task \<Rightarrow> (u64 \<times> task) list \<Rightarrow> (u64 \<times> task) list" where
  "insert_task new ts =
     (case ts of
        [] \<Rightarrow> [new]
      | head # rest \<Rightarrow> if task_priority (snd new) > task_priority (snd head) then new # ts
                      else head # insert_after new rest)"

definition sizeof_task :: u64 where "sizeof_task = 32"

definition add_task :: "u64 \<Rightarrow> u64 \<Rightarrow> int \<Rightarrow> 'a task_state_scheme \<Rightarrow> 'a task_state_scheme" where
  "add_task callback arg priority s =
     (if callback = NULL \<or> arg = NULL then s
      else let (new_task, s1) = kmalloc sizeof_task s
           in if new_task = NULL then s1
              else let t = \<lparr>task_callback = callback, task_arg = arg, task_priority = priority\<rparr>;
                       (saved, s2) = csrrci s1;
                       s3 = s2\<lparr>task_list := insert_task (new_task, t) (task_list s2)\<rparr>
                   in csrs saved s3)"

text \<open>
  \<open>call f arg s\<close> is the state after \<^verbatim>\<open>f(arg)\<close>, including whatever interrupt handlers do meanwhile.
\<close>

partial_function (option) run_tasks ::
  "(u64 \<Rightarrow> u64 \<Rightarrow> 'a task_state_scheme \<Rightarrow> 'a task_state_scheme) \<Rightarrow> 'a task_state_scheme \<Rightarrow> 'a task_state_scheme option" where
  "run_tasks call s0 =
     (let (saved, s) = csrrci s0
      in case task_list s of
           [] \<Rightarrow> Some (csrs saved s)
         | cur # rest \<Rightarrow>
             if task_priority (snd cur) \<le> current_priority s then Some (csrs saved s)
             else let prev_priority = current_priority s;
                      s1 = s\<lparr>task_list := rest, current_priority := task_priority (snd cur), sie := True\<rparr>;
                      s2 = (if task_callback (snd cur) \<noteq> NULL
                            then call (task_callback (snd cur)) (task_arg (snd cur)) s1 else s1);
                      s3 = s2\<lparr>sie := False, current_priority := prev_priority\<rparr>;
                      s4 = kfree (fst cur) s3
                  in run_tasks call (csrs saved s4))"

subsection \<open>Order\<close>

definition higher :: "u64 \<times> task \<Rightarrow> u64 \<times> task \<Rightarrow> bool" where
  "higher a b \<longleftrightarrow> task_priority (snd b) < task_priority (snd a)"

lemma insert_task_after: "insert_task new ts = insert_after new ts"
  by (cases ts) (auto simp: insert_task_def)

interpretation tasks: ordered_queue higher insert_task
proof
  show "insert_task x [] = [x]" for x by (simp add: insert_task_def)
  show "insert_task x (y # ys) = (if higher x y then x # y # ys else y # insert_task x ys)" for x y ys
    unfolding insert_task_after by (auto simp: higher_def)
qed (auto simp: higher_def)

text \<open>Every node is an object of its own, and the list is ordered.\<close>

definition nodes_owned :: "'a kmalloc_state_scheme \<Rightarrow> u64 list \<Rightarrow> bool" where
  "nodes_owned s ps \<longleftrightarrow> distinct ps \<and> (\<forall>p\<in>set ps. owns_object s p)"

definition task_inv :: "'a task_state_scheme \<Rightarrow> bool" where
  "task_inv s \<longleftrightarrow> kmalloc_inv s \<and> tasks.in_order (task_list s) \<and> nodes_owned s (map fst (task_list s))"


lemma task_fields:
  fixes s s' :: "'a task_state_scheme"
  assumes "kmalloc_state.more s' = kmalloc_state.more s"
  shows "task_list s' = task_list s" "current_priority s' = current_priority s"
  using assms by (cases s; cases s'; simp)+

lemmas kmalloc_task_fields [simp] = task_fields [OF kmalloc_more] task_fields [OF kfree_more]

lemma task_upd_view [simp]:
  fixes s :: "'a task_state_scheme"
  shows "kmalloc_inv (s\<lparr>task_list := l\<rparr>) = kmalloc_inv s" "owns_object (s\<lparr>task_list := l\<rparr>) = owns_object s"
    "kmalloc_inv (s\<lparr>current_priority := p\<rparr>) = kmalloc_inv s" "owns_object (s\<lparr>current_priority := p\<rparr>) = owns_object s"
  by (rule kmalloc_view; simp add: kmalloc_state.truncate_def)+

lemma add_task_eq:
  assumes inv: "kmalloc_inv s" and args: "callback \<noteq> NULL" "arg \<noteq> NULL" and p: "fst (kmalloc sizeof_task s) \<noteq> NULL"
  shows "add_task callback arg priority s =
    (snd (kmalloc sizeof_task s))\<lparr>task_list := insert_task (fst (kmalloc sizeof_task s),
       \<lparr>task_callback = callback, task_arg = arg, task_priority = priority\<rparr>) (task_list s)\<rparr>"
  using assms kmalloc_sie [OF inv, of sizeof_task]
  by (simp add: add_task_def case_prod_unfold Let_def irq_defs)

text \<open>
  A callback that leaves the task list alone, keeps the heap invariant and every object, and
  appends itself to a trace kept behind the state.
\<close>

definition traced ::
  "(u64 \<Rightarrow> u64 \<Rightarrow> (u64 \<times> u64) list task_state_scheme \<Rightarrow> (u64 \<times> u64) list task_state_scheme) \<Rightarrow> bool" where
  "traced call \<longleftrightarrow> (\<forall>f a s. task_list (call f a s) = task_list s \<and>
     (kmalloc_inv s \<longrightarrow> kmalloc_inv (call f a s)) \<and> (\<forall>p. owns_object s p \<longrightarrow> owns_object (call f a s) p) \<and>
     task_state.more (call f a s) = task_state.more s @ [(f, a)])"

lemma kfree_task_more [simp]: "task_state.more (kfree p s) = task_state.more s"
proof -
  have "kmalloc_state.more (kfree p s) = kmalloc_state.more s" by simp
  then show ?thesis by (cases "kfree p s"; cases s) simp
qed

lemma run_tasks_step:
  assumes inv: "task_inv s" and call: "traced call" and ts: "task_list s = t # ts"
    and run: "current_priority s < task_priority (snd t)" and cb: "task_callback (snd t) \<noteq> NULL"
  obtains s' where "run_tasks call s = run_tasks call s'" "task_inv s'" "task_list s' = ts"
    "current_priority s' = current_priority s" "task_state.more s' = task_state.more s @ [(task_callback (snd t), task_arg (snd t))]"
proof -
  let ?s1 = "s\<lparr>sie := False, task_list := ts, current_priority := task_priority (snd t), sie := True\<rparr>"
  let ?s2 = "call (task_callback (snd t)) (task_arg (snd t)) ?s1"
  let ?s3 = "?s2\<lparr>sie := False, current_priority := current_priority s\<rparr>"
  let ?s' = "csrs (sie s) (kfree (fst t) ?s3)"
  have k: "kmalloc_inv s" and ord: "tasks.in_order (t # ts)" and own: "nodes_owned s (fst t # map fst ts)"
    using inv ts by (auto simp: task_inv_def)
  have c: "task_list ?s2 = ts" "kmalloc_inv ?s2" "\<And>p. owns_object s p \<Longrightarrow> owns_object ?s2 p"
    "task_state.more ?s2 = task_state.more s @ [(task_callback (snd t), task_arg (snd t))]"
    using call k unfolding traced_def by simp_all
  have o: "owns_object ?s3 (fst t)" "kmalloc_inv ?s3" using own c(2,3) by (auto simp: nodes_owned_def)
  have eq: "run_tasks call s = run_tasks call ?s'"
    using ts run cb by (subst run_tasks.simps) (simp add: irq_defs Let_def)
  have "owns_object (kfree (fst t) ?s3) p" if "p \<in> set (map fst ts)" for p
    using that own c(3) o by (intro kheap.release_keeps) (auto simp: nodes_owned_def)
  then have n: "nodes_owned ?s' (map fst ts)" using own by (simp add: nodes_owned_def csrs_def)
  have "kmalloc_inv ?s'" using kheap.release_inv [OF o(2,1)] by (simp add: csrs_def)
  then have "task_inv ?s'" using n ord c(1) by (simp add: task_inv_def csrs_def tasks.in_order_Cons)
  then show thesis by (intro that [of ?s']) (use eq c in \<open>simp_all add: csrs_def\<close>)
qed

subsection \<open>A concrete task list\<close>

definition no_tasks :: "(u64 \<times> u64) list task_state_scheme" where
  "no_tasks = kmalloc_state.extend small_heap (task_state_ext [] (- 1) [])"

lemma no_tasks_inv: "task_inv no_tasks"
proof -
  have t: "kmalloc_state.truncate no_tasks = small_heap"
    by (simp add: no_tasks_def kmalloc_state.truncate_def kmalloc_state.extend_def)
  have "kmalloc_inv no_tasks" using small_heap_inv kmalloc_truncate_inv [of no_tasks] by (simp add: t)
  moreover have "task_list no_tasks = []" by (simp add: no_tasks_def kmalloc_state.extend_def)
  ultimately show ?thesis by (simp add: task_inv_def nodes_owned_def tasks.in_order_def)
qed

lemma no_tasks_memory: "fst (kmalloc sizeof_task no_tasks) \<noteq> NULL"
proof -
  obtain ch where rep: "kmalloc_rep ch no_tasks" using no_tasks_inv by (auto simp: task_inv_def kmalloc_inv_def)
  obtain i where i: "find_pool sizeof_task = int i" "i < NUM_POOLS"
    using find_pool_small [of sizeof_task] by (auto simp: sizeof_task_def)
  have "buddy_state.truncate no_tasks = buddy_state.truncate small_heap"
    by (simp add: no_tasks_def kmalloc_state.extend_def buddy_state.truncate_def)
  then have "free_frames no_tasks = free_frames small_heap" using truncate_inv(5) by metis
  then have "free_frames no_tasks \<noteq> {}"
    using small_heap_serves page_served rep_D(1) [OF small_heap_rep] by blast
  then have "can_serve no_tasks PAGE_SIZE" using page_served rep_D(1) [OF rep] by blast
  then have "\<exists>ch'. small_effect ch no_tasks i (fst (kmalloc sizeof_task no_tasks)) ch' (snd (kmalloc sizeof_task no_tasks))"
    using kmalloc_small_cases [OF rep _ i] by (simp add: sizeof_task_def)
  then show ?thesis using chunk_cell(2) unfolding small_effect_def by blast
qed

definition one_task :: "(u64 \<times> u64) list task_state_scheme" where
  "one_task = (snd (kmalloc sizeof_task no_tasks))\<lparr>task_list :=
     [(fst (kmalloc sizeof_task no_tasks), \<lparr>task_callback = 64, task_arg = 128, task_priority = 5\<rparr>)]\<rparr>"

lemma one_task_inv: "task_inv one_task"
proof -
  have k: "kmalloc_inv no_tasks" using no_tasks_inv by (simp add: task_inv_def)
  show ?thesis
    using kheap.alloc_inv [OF k] kheap.alloc_owns [OF k no_tasks_memory]
    by (simp add: one_task_def task_inv_def nodes_owned_def tasks.in_order_def)
qed

lemma one_task_fields: "current_priority one_task = - 1" "task_state.more one_task = []"
proof -
  have "kmalloc_state.more (snd (kmalloc sizeof_task no_tasks)) = kmalloc_state.more no_tasks" by simp
  then show "current_priority one_task = - 1" "task_state.more one_task = []"
    by (cases "snd (kmalloc sizeof_task no_tasks)"; simp add: one_task_def no_tasks_def kmalloc_state.extend_def)+
qed

definition record_call :: "u64 \<Rightarrow> u64 \<Rightarrow> (u64 \<times> u64) list task_state_scheme \<Rightarrow> (u64 \<times> u64) list task_state_scheme" where
  "record_call f a s = task_state.more_update (\<lambda>l. l @ [(f, a)]) s"

lemma record_call_traced: "traced record_call"
proof -
  have "kmalloc_inv (task_state.more_update g s) = kmalloc_inv s \<and>
      owns_object (task_state.more_update g s) = owns_object s"
    for g and s :: "(u64 \<times> u64) list task_state_scheme"
    using kmalloc_view [of "task_state.more_update g s" s] by (simp add: kmalloc_state.truncate_def)
  then show ?thesis by (simp add: traced_def record_call_def)
qed

subsection \<open>Properties\<close>

text \<open>\<^verbatim>\<open>add_task\<close> either leaves the task list alone (a NULL argument, or no memory) or puts one new
  node, an object of its own, behind every task of the same or a higher priority and before every
  task of a lower one. The list stays ordered and its nodes stay distinct live objects.\<close>

theorem add_task_correct:
  fixes callback arg :: u64 and priority :: int
  assumes "task_inv s"
  defines "s' \<equiv> add_task callback arg priority s"
  shows "task_inv s' \<and> current_priority s' = current_priority s \<and>
    (if callback = NULL \<or> arg = NULL \<or> fst (kmalloc sizeof_task s) = NULL then task_list s' = task_list s
     else \<exists>p. p \<notin> fst ` set (task_list s) \<and>
       task_list s' = filter (\<lambda>t. task_priority (snd t) \<ge> priority) (task_list s) @
         (p, \<lparr>task_callback = callback, task_arg = arg, task_priority = priority\<rparr>) #
         filter (\<lambda>t. task_priority (snd t) < priority) (task_list s))"
proof -
  let ?t = "\<lparr>task_callback = callback, task_arg = arg, task_priority = priority\<rparr>"
  have inv: "kmalloc_inv s" and ord: "tasks.in_order (task_list s)" and own: "nodes_owned s (map fst (task_list s))"
    using assms(1) by (auto simp: task_inv_def)
  let ?p = "fst (kmalloc sizeof_task s)" and ?s = "snd (kmalloc sizeof_task s)"
  have kept: "nodes_owned ?s (map fst (task_list s))"
    using own kheap.alloc_keeps [OF inv] by (auto simp: nodes_owned_def)
  consider "callback = NULL \<or> arg = NULL" | "callback \<noteq> NULL" "arg \<noteq> NULL" "?p = NULL"
    | "callback \<noteq> NULL" "arg \<noteq> NULL" "?p \<noteq> NULL" by blast
  then show ?thesis
  proof cases
    case 1
    then have "s' = s" by (auto simp: s'_def add_task_def)
    then show ?thesis using 1 assms(1) by auto
  next
    case 2
    then have "s' = ?s" by (simp add: s'_def add_task_def case_prod_unfold)
    then show ?thesis using 2 kept ord kheap.alloc_inv [OF inv] by (simp add: task_inv_def)
  next
    case 3
    have eq: "s' = ?s\<lparr>task_list := insert_task (?p, ?t) (task_list s)\<rparr>"
      unfolding s'_def by (rule add_task_eq [OF inv 3])
    have new: "?p \<notin> fst ` set (task_list s)"
      using own kheap.alloc_fresh [OF inv 3(3)] by (auto simp: nodes_owned_def)
    have ms: "mset (map fst (insert_task (?p, ?t) (task_list s))) = mset (?p # map fst (task_list s))"
      by (simp add: tasks.ins_mset)
    have "distinct (?p # map fst (task_list s))" using own new by (simp add: nodes_owned_def)
    then have "distinct (map fst (insert_task (?p, ?t) (task_list s)))"
      using mset_eq_imp_distinct_iff [OF ms] by blast
    moreover have "set (map fst (insert_task (?p, ?t) (task_list s))) = insert ?p (set (map fst (task_list s)))"
      by (simp add: tasks.ins_set)
    moreover have "\<forall>q\<in>insert ?p (set (map fst (task_list s))). owns_object ?s q"
      using kept kheap.alloc_owns [OF inv 3(3)] unfolding nodes_owned_def by blast
    ultimately have "nodes_owned ?s (map fst (insert_task (?p, ?t) (task_list s)))" by (simp only: nodes_owned_def)
    then have "nodes_owned s' (map fst (task_list s'))" by (simp add: eq nodes_owned_def)
    then have "task_inv s'"
      using kheap.alloc_inv [OF inv] tasks.ins_in_order [OF ord] by (simp add: eq task_inv_def)
    moreover have "higher (?p, ?t) = (\<lambda>t. task_priority (snd t) < priority)"
      by (simp add: fun_eq_iff higher_def)
    then have "task_list s' = filter (\<lambda>t. task_priority (snd t) \<ge> priority) (task_list s) @
        (?p, ?t) # filter (\<lambda>t. task_priority (snd t) < priority) (task_list s)"
      using tasks.ins_position [OF ord, of "(?p, ?t)"] by (simp add: eq not_less)
    ultimately show ?thesis using 3 new by (auto simp: eq)
  qed
qed




end
