(* ===== verification/Timer.thy ===== *)
theory Timer
  imports Task
begin

text \<open>
  The software timers \<^verbatim>\<open>kernel/src/timer.c\<close>: the list of pending events ordered by expiry, the
  one-shot hardware timer programmed for the earliest of them, and the interrupt handler. The
  successive values \<^verbatim>\<open>rdtime\<close> returns are a sequence; the callbacks and \<^verbatim>\<open>schedule\<close> are
  parameters of the handler.
\<close>

record timer_event =
  expire_cycles :: u64
  timer_callback :: u64
  timer_arg :: u64

record timer_state = task_state +
  timer_list :: "(u64 \<times> timer_event) list"
  sbi_timer :: u64
  clock :: "nat \<Rightarrow> u64"
  clock_reads :: nat
  need_resched :: int
  boot_seconds :: u64

definition SYS_CLOCK_FREQ :: "bool \<Rightarrow> u64" where
  "SYS_CLOCK_FREQ qemu = (if qemu then 10000000 else 24000000)"

definition get_timer_freq :: "bool \<Rightarrow> u64" where "get_timer_freq qemu = SYS_CLOCK_FREQ qemu"

definition get_cycles :: "'a timer_state_scheme \<Rightarrow> u64 \<times> 'a timer_state_scheme" where
  "get_cycles s = (clock s (clock_reads s), s\<lparr>clock_reads := clock_reads s + 1\<rparr>)"

definition sbi_set_timer :: "u64 \<Rightarrow> 'a timer_state_scheme \<Rightarrow> 'a timer_state_scheme" where
  "sbi_set_timer t s = s\<lparr>sbi_timer := t\<rparr>"

text \<open>The walk \<^verbatim>\<open>while (curr->next && curr->next->expire_cycles <= new_event->expire_cycles)\<close>.\<close>

fun insert_event_after :: "u64 \<times> timer_event \<Rightarrow> (u64 \<times> timer_event) list \<Rightarrow> (u64 \<times> timer_event) list" where
  "insert_event_after new [] = [new]"
| "insert_event_after new (nxt # rest) =
     (if expire_cycles (snd nxt) \<le> expire_cycles (snd new) then nxt # insert_event_after new rest else new # nxt # rest)"

definition insert_event :: "u64 \<times> timer_event \<Rightarrow> 'a timer_state_scheme \<Rightarrow> 'a timer_state_scheme" where
  "insert_event new s =
     (case timer_list s of
        [] \<Rightarrow> sbi_set_timer (expire_cycles (snd new)) (s\<lparr>timer_list := [new]\<rparr>)
      | head # rest \<Rightarrow>
          if expire_cycles (snd new) < expire_cycles (snd head)
          then sbi_set_timer (expire_cycles (snd new)) (s\<lparr>timer_list := new # timer_list s\<rparr>)
          else s\<lparr>timer_list := head # insert_event_after new rest\<rparr>)"

definition sizeof_timer_event :: u64 where "sizeof_timer_event = 32"

definition add_timer_ticks :: "u64 \<Rightarrow> u64 \<Rightarrow> u64 \<Rightarrow> 'a timer_state_scheme \<Rightarrow> 'a timer_state_scheme" where
  "add_timer_ticks callback arg ticks s0 =
     (let (saved, s) = csrrci s0;
          (new_event, s1) = kmalloc sizeof_timer_event s;
          s' = (if new_event = NULL then s1
                else let (now, s2) = get_cycles s1;
                         e = \<lparr>expire_cycles = now + ticks, timer_callback = callback, timer_arg = arg\<rparr>
                     in insert_event (new_event, e) s2)
      in csrs saved s')"

definition add_timer :: "bool \<Rightarrow> u64 \<Rightarrow> u64 \<Rightarrow> int \<Rightarrow> 'a timer_state_scheme \<Rightarrow> 'a timer_state_scheme" where
  "add_timer qemu callback arg sec s = add_timer_ticks callback arg (of_int sec * SYS_CLOCK_FREQ qemu) s"

text \<open>The two callbacks of this file; \<open>self\<close> is the callback's own address.\<close>

definition boot_time_cb :: "bool \<Rightarrow> u64 \<Rightarrow> 'a timer_state_scheme \<Rightarrow> 'a timer_state_scheme" where
  "boot_time_cb qemu self s = add_timer qemu self NULL 2 (s\<lparr>boot_seconds := boot_seconds s + 2\<rparr>)"

definition preempt_callback :: "bool \<Rightarrow> u64 \<Rightarrow> 'a timer_state_scheme \<Rightarrow> 'a timer_state_scheme" where
  "preempt_callback qemu self s =
     (add_timer_ticks self NULL (SYS_CLOCK_FREQ qemu div 32) s)\<lparr>need_resched := 1\<rparr>"

partial_function (option) fire_expired ::
  "(u64 \<Rightarrow> u64 \<Rightarrow> 'a timer_state_scheme \<Rightarrow> 'a timer_state_scheme) \<Rightarrow> 'a timer_state_scheme \<Rightarrow> 'a timer_state_scheme option" where
  "fire_expired call s =
     (case timer_list s of
        [] \<Rightarrow> Some s
      | event # rest \<Rightarrow>
          let (now, s1) = get_cycles s
          in if expire_cycles (snd event) \<le> now
             then let s2 = s1\<lparr>timer_list := rest\<rparr>;
                      s3 = (if timer_callback (snd event) \<noteq> NULL
                            then call (timer_callback (snd event)) (timer_arg (snd event)) s2 else s2)
                  in fire_expired call (kfree (fst event) s3)
             else Some s1)"

definition core_timer_handler ::
  "(u64 \<Rightarrow> u64 \<Rightarrow> 'a timer_state_scheme \<Rightarrow> 'a timer_state_scheme) \<Rightarrow> ('a timer_state_scheme \<Rightarrow> 'a timer_state_scheme option) \<Rightarrow>
     'a timer_state_scheme \<Rightarrow> 'a timer_state_scheme option" where
  "core_timer_handler call schedule s =
     (case fire_expired call (s\<lparr>need_resched := 0\<rparr>) of
        None \<Rightarrow> None
      | Some s1 \<Rightarrow>
          let s2 = (case timer_list s1 of
                      head # _ \<Rightarrow> sbi_set_timer (expire_cycles (snd head)) s1
                    | [] \<Rightarrow> sbi_set_timer 0xFFFFFFFFFFFFFFFF s1)
          in if need_resched s2 \<noteq> 0 then schedule s2 else Some s2)"

subsection \<open>Order\<close>

definition earlier :: "u64 \<times> timer_event \<Rightarrow> u64 \<times> timer_event \<Rightarrow> bool" where
  "earlier a b \<longleftrightarrow> expire_cycles (snd a) < expire_cycles (snd b)"

definition insert_event_list :: "u64 \<times> timer_event \<Rightarrow> (u64 \<times> timer_event) list \<Rightarrow> (u64 \<times> timer_event) list" where
  "insert_event_list new es =
     (case es of [] \<Rightarrow> [new] | head # rest \<Rightarrow> if earlier new head then new # es else head # insert_event_after new rest)"

lemma insert_event_eq:
  "insert_event new s =
     s\<lparr>timer_list := insert_event_list new (timer_list s),
       sbi_timer := (if timer_list s = [] \<or> earlier new (hd (timer_list s)) then expire_cycles (snd new) else sbi_timer s)\<rparr>"
  by (cases "timer_list s") (auto simp: insert_event_def insert_event_list_def earlier_def sbi_set_timer_def)

lemma insert_event_list_after: "insert_event_list new es = insert_event_after new es"
  by (cases es) (auto simp: insert_event_list_def earlier_def not_less)

interpretation events: ordered_queue earlier insert_event_list
proof
  show "insert_event_list x [] = [x]" for x by (simp add: insert_event_list_def)
  show "insert_event_list x (y # ys) = (if earlier x y then x # y # ys else y # insert_event_list x ys)" for x y ys
    unfolding insert_event_list_after by (auto simp: earlier_def)
qed (auto simp: earlier_def)

text \<open>
  The invariant: ordered distinct live nodes, and the hardware timer set for the first of them.
\<close>

definition timer_inv :: "'a timer_state_scheme \<Rightarrow> bool" where
  "timer_inv s \<longleftrightarrow> kmalloc_inv s \<and> events.in_order (timer_list s) \<and> nodes_owned s (map fst (timer_list s)) \<and>
     (timer_list s \<noteq> [] \<longrightarrow> sbi_timer s = expire_cycles (snd (hd (timer_list s))))"

lemma timer_fields:
  fixes s s' :: "'a timer_state_scheme"
  assumes "kmalloc_state.more s' = kmalloc_state.more s"
  shows "timer_list s' = timer_list s" "sbi_timer s' = sbi_timer s" "clock s' = clock s"
    "clock_reads s' = clock_reads s" "need_resched s' = need_resched s" "timer_state.more s' = timer_state.more s"
  using assms by (cases s; cases s'; simp)+

lemmas kmalloc_timer_fields [simp] = timer_fields [OF kmalloc_more] timer_fields [OF kfree_more]

lemma timer_upd_view [simp]:
  fixes s :: "'a timer_state_scheme"
  shows "kmalloc_inv (s\<lparr>timer_list := l\<rparr>) = kmalloc_inv s" "owns_object (s\<lparr>timer_list := l\<rparr>) = owns_object s"
    "kmalloc_inv (s\<lparr>sbi_timer := t\<rparr>) = kmalloc_inv s" "owns_object (s\<lparr>sbi_timer := t\<rparr>) = owns_object s"
    "kmalloc_inv (s\<lparr>clock_reads := n\<rparr>) = kmalloc_inv s" "owns_object (s\<lparr>clock_reads := n\<rparr>) = owns_object s"
    "kmalloc_inv (s\<lparr>need_resched := r\<rparr>) = kmalloc_inv s" "owns_object (s\<lparr>need_resched := r\<rparr>) = owns_object s"
  by (rule kmalloc_view; simp add: kmalloc_state.truncate_def)+

lemma nodes_owned_cong: "owns_object s' = owns_object s \<Longrightarrow> nodes_owned s' ps = nodes_owned s ps"
  by (simp add: nodes_owned_def)

text \<open>Adding a fresh node to a list of live nodes.\<close>

lemma nodes_owned_insert:
  assumes inv: "kmalloc_inv s" and own: "nodes_owned s ps" and p: "fst (kmalloc n s) \<noteq> NULL"
    and qs: "mset qs = add_mset (fst (kmalloc n s)) (mset ps)"
  shows "nodes_owned (snd (kmalloc n s)) qs" "fst (kmalloc n s) \<notin> set ps"
proof -
  show new: "fst (kmalloc n s) \<notin> set ps" using own kheap.alloc_fresh [OF inv p] by (auto simp: nodes_owned_def)
  have ms: "mset qs = mset (fst (kmalloc n s) # ps)" using qs by simp
  have "distinct (fst (kmalloc n s) # ps)" using own new by (simp add: nodes_owned_def)
  then have "distinct qs" using mset_eq_imp_distinct_iff [OF ms] by blast
  moreover have "set qs = set (fst (kmalloc n s) # ps)" using ms by (metis set_mset_mset)
  moreover have "\<forall>q\<in>set (fst (kmalloc n s) # ps). owns_object (snd (kmalloc n s)) q"
    using own kheap.alloc_keeps [OF inv] kheap.alloc_owns [OF inv p] by (simp add: nodes_owned_def)
  ultimately show "nodes_owned (snd (kmalloc n s)) qs" by (simp only: nodes_owned_def)
qed


lemma timer_list_sie [simp]: "nodes_owned (s\<lparr>sie := e\<rparr>) = nodes_owned s"
  by (simp add: fun_eq_iff nodes_owned_def)

lemma timer_inv_sie [simp]: "timer_inv (s\<lparr>sie := e\<rparr>) = timer_inv s"
  by (simp add: timer_inv_def nodes_owned_def)

lemma add_timer_eq:
  assumes inv: "kmalloc_inv s"
  defines "r \<equiv> kmalloc sizeof_timer_event (s\<lparr>sie := False\<rparr>)"
  shows "add_timer_ticks callback arg ticks s =
    (if fst r = NULL then (snd r)\<lparr>sie := sie s\<rparr>
     else (insert_event (fst r, \<lparr>expire_cycles = clock s (clock_reads s) + ticks, timer_callback = callback, timer_arg = arg\<rparr>)
             ((snd r)\<lparr>clock_reads := clock_reads s + 1\<rparr>))\<lparr>sie := sie s\<rparr>)"
proof -
  obtain p t where r: "kmalloc sizeof_timer_event (s\<lparr>sie := False\<rparr>) = (p, t)" by fastforce
  have t: "sie t = False" "clock t = clock s" "clock_reads t = clock_reads s"
    using kmalloc_sie [of "s\<lparr>sie := False\<rparr>" sizeof_timer_event] inv
      timer_fields(3,4) [OF kmalloc_more, of sizeof_timer_event "s\<lparr>sie := False\<rparr>"]
    unfolding r by simp_all
  have i: "sie (insert_event e u) = sie u" for e and u :: "'a timer_state_scheme"
    by (simp add: insert_event_eq)
  show ?thesis
    unfolding r_def add_timer_ticks_def irq_defs r
    by (cases "p = NULL") (simp_all add: get_cycles_def Let_def t i r)
qed

text \<open>
  A callback that leaves the timers and the clock alone, keeps the heap and every object, and
  appends itself to a trace kept behind the state.
\<close>

definition traced_timer ::
  "(u64 \<Rightarrow> u64 \<Rightarrow> (u64 \<times> u64) list timer_state_scheme \<Rightarrow> (u64 \<times> u64) list timer_state_scheme) \<Rightarrow> bool" where
  "traced_timer call \<longleftrightarrow> (\<forall>f a s. timer_list (call f a s) = timer_list s \<and> clock (call f a s) = clock s \<and>
     clock_reads (call f a s) = clock_reads s \<and>
     (kmalloc_inv s \<longrightarrow> kmalloc_inv (call f a s)) \<and> (\<forall>p. owns_object s p \<longrightarrow> owns_object (call f a s) p) \<and>
     timer_state.more (call f a s) = timer_state.more s @ [(f, a)])"

definition pending_ok :: "'a timer_state_scheme \<Rightarrow> bool" where
  "pending_ok s \<longleftrightarrow> kmalloc_inv s \<and> events.in_order (timer_list s) \<and> nodes_owned s (map fst (timer_list s))"

lemma fire_step:
  assumes ok: "pending_ok s" and call: "traced_timer call" and es: "timer_list s = e # es"
    and due: "expire_cycles (snd e) \<le> clock s (clock_reads s)" and cb: "timer_callback (snd e) \<noteq> NULL"
  obtains s' where "fire_expired call s = fire_expired call s'" "pending_ok s'" "timer_list s' = es"
    "clock s' = clock s" "clock_reads s' = clock_reads s + 1"
    "timer_state.more s' = timer_state.more s @ [(timer_callback (snd e), timer_arg (snd e))]"
proof -
  let ?s1 = "s\<lparr>clock_reads := clock_reads s + 1, timer_list := es\<rparr>"
  let ?s2 = "call (timer_callback (snd e)) (timer_arg (snd e)) ?s1"
  let ?s' = "kfree (fst e) ?s2"
  have k: "kmalloc_inv s" and ord: "events.in_order (e # es)" and own: "nodes_owned s (fst e # map fst es)"
    using ok es by (auto simp: pending_ok_def)
  have c: "timer_list ?s2 = es" "kmalloc_inv ?s2" "\<And>p. owns_object s p \<Longrightarrow> owns_object ?s2 p"
    "clock ?s2 = clock s" "clock_reads ?s2 = clock_reads s + 1"
    "timer_state.more ?s2 = timer_state.more s @ [(timer_callback (snd e), timer_arg (snd e))]"
    using call k unfolding traced_timer_def by simp_all
  have o: "owns_object ?s2 (fst e)" using own c(3) by (simp add: nodes_owned_def)
  have eq: "fire_expired call s = fire_expired call ?s'"
    using es due cb by (subst fire_expired.simps) (simp add: get_cycles_def Let_def)
  have "owns_object ?s' p" if "p \<in> set (map fst es)" for p
    using that own c(3) o by (intro kheap.release_keeps [OF c(2)]) (auto simp: nodes_owned_def)
  then have "nodes_owned ?s' (map fst es)" using own by (simp add: nodes_owned_def)
  then have "pending_ok ?s'"
    using kheap.release_inv [OF c(2) o] ord c(1) by (simp add: pending_ok_def events.in_order_Cons)
  then show thesis by (intro that [of ?s']) (use eq c in simp_all)
qed

lemma fire_expired_ok:
  assumes "pending_ok s" "traced_timer call" "\<forall>e\<in>set (timer_list s). timer_callback (snd e) \<noteq> NULL"
  shows "\<exists>s' n. fire_expired call s = Some s' \<and> n \<le> length (timer_list s) \<and> pending_ok s' \<and>
    timer_list s' = drop n (timer_list s) \<and> clock s' = clock s \<and>
    (\<forall>k<n. expire_cycles (snd (timer_list s ! k)) \<le> clock s (clock_reads s + k)) \<and>
    (n < length (timer_list s) \<longrightarrow> clock s (clock_reads s + n) < expire_cycles (snd (timer_list s ! n))) \<and>
    timer_state.more s' = timer_state.more s @ map (\<lambda>e. (timer_callback (snd e), timer_arg (snd e))) (take n (timer_list s))"
  using assms
proof (induction "timer_list s" arbitrary: s)
  case Nil
  then have "fire_expired call s = Some s" by (subst fire_expired.simps) simp
  then show ?case using Nil by (auto intro!: exI [of _ "0::nat"])
next
  case (Cons e es)
  have es: "timer_list s = e # es" using Cons.hyps(2) by simp
  show ?case
  proof (cases "expire_cycles (snd e) \<le> clock s (clock_reads s)")
    case False
    then have run: "fire_expired call s = Some (s\<lparr>clock_reads := clock_reads s + 1\<rparr>)"
      by (subst fire_expired.simps) (simp add: get_cycles_def es Let_def)
    have "pending_ok (s\<lparr>clock_reads := clock_reads s + 1\<rparr>)"
      using Cons.prems(1) by (simp add: pending_ok_def nodes_owned_def)
    then show ?thesis using run False es by (intro exI [of _ "s\<lparr>clock_reads := clock_reads s + 1\<rparr>"] exI [of _ "0::nat"]) (simp add: not_le)
  next
    case True
    obtain s1 where s1: "fire_expired call s = fire_expired call s1" "pending_ok s1" "timer_list s1 = es"
      "clock s1 = clock s" "clock_reads s1 = clock_reads s + 1"
      "timer_state.more s1 = timer_state.more s @ [(timer_callback (snd e), timer_arg (snd e))]"
      using fire_step [OF Cons.prems(1,2) es True] Cons.prems(3) es by auto
    obtain s' n where n: "fire_expired call s1 = Some s'" "n \<le> length es" "pending_ok s'" "timer_list s' = drop n es"
      "clock s' = clock s" "\<And>k. k < n \<Longrightarrow> expire_cycles (snd (es ! k)) \<le> clock s (clock_reads s + 1 + k)"
      "n < length es \<Longrightarrow> clock s (clock_reads s + 1 + n) < expire_cycles (snd (es ! n))"
      "timer_state.more s' = timer_state.more s1 @ map (\<lambda>e. (timer_callback (snd e), timer_arg (snd e))) (take n es)"
      using Cons.hyps(1) [of s1] s1 Cons.prems(2,3) es by auto
    have "expire_cycles (snd ((e # es) ! k)) \<le> clock s (clock_reads s + k)" if "k < Suc n" for k
      using that True n(6) [of "k - 1"] by (cases k) auto
    then show ?thesis
      using n s1 es by (intro exI [of _ s'] exI [of _ "Suc n"]) auto
  qed
qed


subsection \<open>A concrete timer state\<close>

definition no_timers :: "(u64 \<times> u64) list timer_state_scheme" where
  "no_timers = kmalloc_state.extend small_heap (task_state_ext [] (- 1) (timer_state_ext [] 0 (\<lambda>n. 1000 * of_nat n) 0 0 0 []))"

lemma no_timers_view: "kmalloc_state.truncate no_timers = small_heap" "timer_list no_timers = []"
  "clock no_timers = (\<lambda>n. 1000 * of_nat n)" "clock_reads no_timers = 0" "timer_state.more no_timers = []"
  by (simp_all add: no_timers_def kmalloc_state.extend_def kmalloc_state.truncate_def)

lemma no_timers_inv: "timer_inv no_timers"
  using small_heap_inv kmalloc_truncate_inv [of no_timers]
  by (simp add: timer_inv_def no_timers_view nodes_owned_def events.in_order_def)

lemma no_timers_memory: "fst (kmalloc sizeof_timer_event no_timers) \<noteq> NULL"
proof -
  obtain ch where rep: "kmalloc_rep ch no_timers" using no_timers_inv by (auto simp: timer_inv_def kmalloc_inv_def)
  obtain i where i: "find_pool sizeof_timer_event = int i" "i < NUM_POOLS"
    using find_pool_small [of sizeof_timer_event] by (auto simp: sizeof_timer_event_def)
  have "buddy_state.truncate no_timers = buddy_state.truncate small_heap"
    by (simp add: no_timers_def kmalloc_state.extend_def buddy_state.truncate_def)
  then have "free_frames no_timers = free_frames small_heap" using truncate_inv(5) by metis
  then have "free_frames no_timers \<noteq> {}"
    using small_heap_serves page_served rep_D(1) [OF small_heap_rep] by blast
  then have "can_serve no_timers PAGE_SIZE" using page_served rep_D(1) [OF rep] by blast
  then have "\<exists>ch'. small_effect ch no_timers i (fst (kmalloc sizeof_timer_event no_timers)) ch' (snd (kmalloc sizeof_timer_event no_timers))"
    using kmalloc_small_cases [OF rep _ i] by (simp add: sizeof_timer_event_def)
  then show ?thesis using chunk_cell(2) unfolding small_effect_def by blast
qed

text \<open>One event that expires at cycle 500; the second reading of the clock is 1000.\<close>

definition one_timer :: "(u64 \<times> u64) list timer_state_scheme" where
  "one_timer = (snd (kmalloc sizeof_timer_event no_timers))
     \<lparr>timer_list := [(fst (kmalloc sizeof_timer_event no_timers),
        \<lparr>expire_cycles = 500, timer_callback = 64, timer_arg = 128\<rparr>)], sbi_timer := 500, clock_reads := 1\<rparr>"

lemma one_timer_inv: "timer_inv one_timer"
proof -
  have k: "kmalloc_inv no_timers" using no_timers_inv by (simp add: timer_inv_def)
  show ?thesis
    using kheap.alloc_inv [OF k] kheap.alloc_owns [OF k no_timers_memory]
    by (simp add: one_timer_def timer_inv_def nodes_owned_def events.in_order_def)
qed

definition record_timer_call :: "u64 \<Rightarrow> u64 \<Rightarrow> (u64 \<times> u64) list timer_state_scheme \<Rightarrow> (u64 \<times> u64) list timer_state_scheme" where
  "record_timer_call f a s = timer_state.more_update (\<lambda>l. l @ [(f, a)]) s"

lemma record_timer_call_traced: "traced_timer record_timer_call"
proof -
  have "kmalloc_inv (timer_state.more_update g s) = kmalloc_inv s \<and>
      owns_object (timer_state.more_update g s) = owns_object s"
    for g and s :: "(u64 \<times> u64) list timer_state_scheme"
    using kmalloc_view [of "timer_state.more_update g s" s] by (simp add: kmalloc_state.truncate_def)
  then show ?thesis by (simp add: traced_timer_def record_timer_call_def)
qed

subsection \<open>Adding a timer\<close>

lemma add_timer_ticks_inserts:
  fixes callback arg ticks :: u64
  assumes "timer_inv s"
  defines "s' \<equiv> add_timer_ticks callback arg ticks s"
    and "expiry \<equiv> clock s (clock_reads s) + ticks"
  shows "timer_inv s' \<and> sie s' = sie s \<and>
    (timer_list s' = timer_list s \<or>
     (\<exists>p. p \<notin> fst ` set (timer_list s) \<and>
        timer_list s' = filter (\<lambda>e. expire_cycles (snd e) \<le> expiry) (timer_list s) @
          (p, \<lparr>expire_cycles = expiry, timer_callback = callback, timer_arg = arg\<rparr>) #
          filter (\<lambda>e. expiry < expire_cycles (snd e)) (timer_list s)))"
proof -
  let ?s = "s\<lparr>sie := False\<rparr>"
  let ?p = "fst (kmalloc sizeof_timer_event ?s)" and ?t = "snd (kmalloc sizeof_timer_event ?s)"
  let ?e = "(?p, \<lparr>expire_cycles = expiry, timer_callback = callback, timer_arg = arg\<rparr>)"
  let ?l = "insert_event_list ?e (timer_list s)"
  have k: "kmalloc_inv s" and inv: "kmalloc_inv ?s" and ord: "events.in_order (timer_list s)"
    and own: "nodes_owned ?s (map fst (timer_list s))"
    and hw: "timer_list s \<noteq> [] \<Longrightarrow> sbi_timer s = expire_cycles (snd (hd (timer_list s)))"
    using assms(1) by (auto simp: timer_inv_def)
  have t: "kmalloc_inv ?t" "timer_list ?t = timer_list s" "sbi_timer ?t = sbi_timer s"
    using kheap.alloc_inv [OF inv, of sizeof_timer_event]
      timer_fields(1,2) [OF kmalloc_more, of sizeof_timer_event ?s] by simp_all
  show ?thesis
  proof (cases "?p = NULL")
    case True
    then have "s' = ?t\<lparr>sie := sie s\<rparr>" using add_timer_eq [OF k, of callback arg ticks] by (simp add: s'_def)
    moreover have "nodes_owned ?t (map fst (timer_list s))"
      using own kheap.alloc_keeps [OF inv] by (simp add: nodes_owned_def)
    ultimately show ?thesis using t ord hw by (simp add: timer_inv_def nodes_owned_def)
  next
    case False
    have eq: "s' = (insert_event ?e (?t\<lparr>clock_reads := clock_reads s + 1\<rparr>))\<lparr>sie := sie s\<rparr>"
      using False add_timer_eq [OF k, of callback arg ticks] by (simp add: s'_def expiry_def)
    have "mset (map fst ?l) = add_mset ?p (mset (map fst (timer_list s)))"
      by (simp add: events.ins_mset)
    note own' = nodes_owned_insert [OF inv own False this]
    have l: "timer_list s' = ?l" by (simp add: eq insert_event_eq t(2))
    have first: "sbi_timer s' = expire_cycles (snd (hd ?l))"
      using hw by (cases "timer_list s") (auto simp: eq insert_event_eq t(2,3) insert_event_list_def)
    have "timer_inv s'"
      using own'(1) t(1) first events.ins_in_order [OF ord, of ?e]
      unfolding timer_inv_def l by (simp add: eq insert_event_eq nodes_owned_def)
    moreover have "earlier ?e = (\<lambda>e. expiry < expire_cycles (snd e))" by (simp add: fun_eq_iff earlier_def)
    then have "?l = filter (\<lambda>e. expire_cycles (snd e) \<le> expiry) (timer_list s) @ ?e #
        filter (\<lambda>e. expiry < expire_cycles (snd e)) (timer_list s)"
      using events.ins_position [OF ord, of ?e] by (simp add: not_less)
    moreover have "sie s' = sie s" by (simp add: eq)
    ultimately show ?thesis using own'(2) unfolding l by auto
  qed
qed

subsection \<open>Properties\<close>

text \<open>C9: \<^verbatim>\<open>add_timer_ticks\<close> queues the event behind every event that expires no later and before every
  later one, or changes no timer when memory is short; nodes stay distinct live objects, and the
  hardware timer is always set for the earliest event.\<close>

theorem add_timer_ticks_correct:
  fixes callback arg ticks :: u64
  assumes "timer_inv s"
  defines "s' \<equiv> add_timer_ticks callback arg ticks s"
    and "expiry \<equiv> clock s (clock_reads s) + ticks"
  shows "timer_inv s' \<and> sie s' = sie s \<and>
    (timer_list s' = timer_list s \<or>
     (\<exists>p. p \<notin> fst ` set (timer_list s) \<and>
        timer_list s' = filter (\<lambda>e. expire_cycles (snd e) \<le> expiry) (timer_list s) @
          (p, \<lparr>expire_cycles = expiry, timer_callback = callback, timer_arg = arg\<rparr>) #
          filter (\<lambda>e. expiry < expire_cycles (snd e)) (timer_list s)))"
  using add_timer_ticks_inserts [OF assms(1)] unfolding s'_def expiry_def .

theorem add_timer_ticks_correct_witness: "timer_inv (add_timer_ticks 64 128 5 no_timers)"
  using add_timer_ticks_correct [OF no_timers_inv, of 64 128 5] by simp



end
