(* ===== verification/Ring.thy ===== *)
theory Ring
  imports Prelude "HOL-Library.Sublist"
begin

text \<open>
  Ring buffers of 256 elements with a head and a tail index, as the UART driver keeps for each
  direction, and the interface of a bounded first-in first-out queue they implement.
\<close>

subsection \<open>The elements of a ring\<close>

text \<open>The elements between \<open>tail\<close> and \<open>head\<close>, oldest first. One slot always stays free.\<close>

definition ring_contents :: "(nat \<Rightarrow> 'a) \<Rightarrow> nat \<Rightarrow> nat \<Rightarrow> 'a list" where
  "ring_contents buf head tail =
     map (\<lambda>i. buf ((tail + i) mod 256)) [0..<(head + 256 - tail) mod 256]"

lemma ring_count:
  assumes "head < 256" "tail < (256 :: nat)"
  shows "(head + 256 - tail) mod 256 = (if tail \<le> head then head - tail else head + 256 - tail)"
proof (cases "tail \<le> head")
  case True
  then have "head + 256 - tail = (head - tail) + 256" by simp
  then have "(head + 256 - tail) mod 256 = (head - tail) mod 256" by (simp only: mod_add_self2)
  then show ?thesis using True assms by simp
qed (use assms in simp)

lemma ring_next: "i < 256 \<Longrightarrow> Suc i mod 256 = (if i = 255 then 0 else Suc i)"
  by auto

lemma ring_index: "(a :: nat) < 512 \<Longrightarrow> a mod 256 = (if a < 256 then a else a - 256)"
  by (simp add: mod_if)

lemma ring_empty: "head < 256 \<Longrightarrow> tail < 256 \<Longrightarrow> ring_contents buf head tail = [] \<longleftrightarrow> head = tail"
  by (auto simp: ring_contents_def ring_count)

lemma ring_length: "length (ring_contents buf head tail) = (head + 256 - tail) mod 256"
  by (simp add: ring_contents_def)

lemma ring_full:
  "head < 256 \<Longrightarrow> tail < 256 \<Longrightarrow> (head + 1) mod 256 = tail \<longleftrightarrow> length (ring_contents buf head tail) = 255"
  by (auto simp: ring_length ring_count ring_next)

lemma ring_push:
  assumes "head < 256" "tail < 256" "(head + 1) mod 256 \<noteq> tail"
  shows "ring_contents (buf(head := x)) ((head + 1) mod 256) tail = ring_contents buf head tail @ [x]"
proof -
  define n where "n = (head + 256 - tail) mod 256"
  have n: "n = (if tail \<le> head then head - tail else head + 256 - tail)"
    using assms by (simp add: n_def ring_count)
  have n': "(Suc head mod 256 + 256 - tail) mod 256 = Suc n"
    using assms by (auto simp: n ring_count ring_next split: if_splits)
  have last: "(tail + n) mod 256 = head" using assms by (auto simp: n ring_index)
  have "(tail + i) mod 256 \<noteq> head" if "i < n" for i
    using assms that by (auto simp: n ring_index split: if_splits)
  then have "map (\<lambda>i. (buf(head := x)) ((tail + i) mod 256)) [0..<n] = map (\<lambda>i. buf ((tail + i) mod 256)) [0..<n]"
    by (intro map_cong) auto
  then show ?thesis by (simp add: ring_contents_def n' n_def [symmetric] last)
qed

lemma ring_pop:
  assumes "head < 256" "tail < 256" "head \<noteq> tail"
  shows "ring_contents buf head tail = buf tail # ring_contents buf head ((tail + 1) mod 256)"
proof -
  define n where "n = (head + 256 - Suc tail mod 256) mod 256"
  have n: "(head + 256 - tail) mod 256 = Suc n"
    using assms by (auto simp: n_def ring_count ring_next split: if_splits)
  have "(Suc tail mod 256 + i) mod 256 = Suc (tail + i) mod 256" for i
    by (simp add: mod_simps)
  moreover have "[0..<Suc n] = 0 # map Suc [0..<n]" by (simp add: upt_conv_Cons map_Suc_upt del: upt_Suc)
  ultimately show ?thesis
    using assms(2) by (simp add: ring_contents_def n n_def [symmetric] comp_def del: upt_Suc)
qed

subsection \<open>Bounded queues\<close>

text \<open>A push onto a full queue drops the element.\<close>

locale bounded_queue =
  fixes push :: "'a \<Rightarrow> 's \<Rightarrow> 's"
    and pop :: "'s \<Rightarrow> 'a \<times> 's"
    and contents :: "'s \<Rightarrow> 'a list"
    and inv :: "'s \<Rightarrow> bool"
    and capacity :: nat
  assumes push_inv: "inv s \<Longrightarrow> inv (push x s)"
    and pop_inv: "inv s \<Longrightarrow> contents s \<noteq> [] \<Longrightarrow> inv (snd (pop s))"
    and push_contents: "inv s \<Longrightarrow>
      contents (push x s) = (if length (contents s) < capacity then contents s @ [x] else contents s)"
    and pop_contents: "inv s \<Longrightarrow> contents s \<noteq> [] \<Longrightarrow> contents s = fst (pop s) # contents (snd (pop s))"
    and bounded: "inv s \<Longrightarrow> length (contents s) \<le> capacity"
begin

lemma push_space: "inv s \<Longrightarrow> length (contents s) < capacity \<Longrightarrow> contents (push x s) = contents s @ [x]"
  by (simp add: push_contents)

lemma push_subseq: "inv s \<Longrightarrow> subseq (contents (push x s)) (contents s @ [x])"
  by (auto simp: push_contents)

lemma push_pop: "inv s \<Longrightarrow> contents s = [] \<Longrightarrow> 0 < capacity \<Longrightarrow> fst (pop (push x s)) = x"
  using pop_contents [OF push_inv, of s x] by (simp add: push_space)

lemma pop_length: "inv s \<Longrightarrow> contents s \<noteq> [] \<Longrightarrow> length (contents (snd (pop s))) < length (contents s)"
  using pop_contents [of s] by (metis length_Cons lessI)

end

end
