(* ===== verification/Utils.thy ===== *)
theory Utils
  imports Prelude
begin

text \<open>
  The memory and string routines \<^verbatim>\<open>kernel/src/utils.c\<close> on byte memory. A loop that ends only at
  a terminating zero is a partial function: it is undefined (\<open>None\<close>) when no zero follows.
\<close>

type_synonym bytes = "u64 \<Rightarrow> u8"

subsection \<open>Operations\<close>

text \<open>The counter of \<^verbatim>\<open>memset\<close> and \<^verbatim>\<open>memcpy\<close> counts a size of at most a page down to zero.\<close>

primrec memset_loop :: "u64 \<Rightarrow> u8 \<Rightarrow> nat \<Rightarrow> bytes \<Rightarrow> bytes" where
  "memset_loop s ch 0 m = m"
| "memset_loop s ch (Suc n) m = memset_loop (s + 1) ch n (m(s := ch))"

definition memset :: "u64 \<Rightarrow> int \<Rightarrow> nat \<Rightarrow> bytes \<Rightarrow> bytes" where
  "memset s ch sz m = (if sz = 0 then m else memset_loop s (word_of_int (ch AND 0xFF)) sz m)"

primrec memcpy :: "u64 \<Rightarrow> u64 \<Rightarrow> nat \<Rightarrow> bytes \<Rightarrow> bytes" where
  "memcpy d s 0 m = m"
| "memcpy d s (Suc n) m = memcpy (d + 1) (s + 1) n (m(d := m s))"

partial_function (option) strcmp :: "bytes \<Rightarrow> u64 \<Rightarrow> u64 \<Rightarrow> int option" where
  "strcmp m s1 s2 =
     (let c1 = m s1; c2 = m s2
      in if c1 \<noteq> c2 then Some (uint c1 - uint c2)
         else if c1 = 0 then Some 0
         else strcmp m (s1 + 1) (s2 + 1))"

function strncmp :: "bytes \<Rightarrow> u64 \<Rightarrow> u64 \<Rightarrow> int \<Rightarrow> int" where
  "strncmp m s1 s2 n =
     (if n > 0
      then let c1 = m s1; c2 = m s2
           in if c1 \<noteq> c2 then uint c1 - uint c2
              else if c1 = 0 then 0
              else strncmp m (s1 + 1) (s2 + 1) (n - 1)
      else 0)"
  by pat_completeness auto
termination
  by (relation "measure (\<lambda>(m, s1, s2, n). nat n)") auto

declare strncmp.simps [simp del]

subsection \<open>Strings in memory\<close>

text \<open>The characters of a string literal.\<close>

definition bytes_of :: "string \<Rightarrow> u8 list" where
  "bytes_of s = map of_char s"


fun cstring :: "bytes \<Rightarrow> u64 \<Rightarrow> u8 list \<Rightarrow> bool" where
  "cstring m p [] \<longleftrightarrow> m p = 0"
| "cstring m p (c # cs) \<longleftrightarrow> m p = c \<and> c \<noteq> 0 \<and> cstring m (p + 1) cs"

lemma cstring_unique: "cstring m p s \<Longrightarrow> cstring m p t \<Longrightarrow> s = t"
proof (induction s arbitrary: p t)
  case Nil then show ?case by (cases t) auto
next
  case (Cons c s) then show ?case by (cases t) auto
qed

lemma cstring_nonzero: "cstring m p s \<Longrightarrow> 0 \<notin> set s"
  by (induction m p s rule: cstring.induct) auto

lemma cstring_frame:
  "(\<And>i. i \<le> length s \<Longrightarrow> m' (p + of_nat i) = m (p + of_nat i)) \<Longrightarrow> cstring m p s \<Longrightarrow> cstring m' p s"
proof (induction m p s rule: cstring.induct)
  case (2 m p c cs)
  have "m' (p + 1 + of_nat i) = m (p + 1 + of_nat i)" if "i \<le> length cs" for i
    using "2.prems"(1) [of "Suc i"] that by (simp add: algebra_simps)
  then show ?case using 2 "2.prems"(1) [of 0] by simp
qed (use of_nat_0 in force)

text \<open>The difference of the first characters in which two strings, with their ends, differ.\<close>

fun str_diff :: "u8 list \<Rightarrow> u8 list \<Rightarrow> int" where
  "str_diff [] [] = 0"
| "str_diff (x # xs) [] = uint x"
| "str_diff [] (y # ys) = - uint y"
| "str_diff (x # xs) (y # ys) = (if x = y then str_diff xs ys else uint x - uint y)"

lemma strcmp_str_diff: "cstring m p s \<Longrightarrow> cstring m q t \<Longrightarrow> strcmp m p q = Some (str_diff s t)"
proof (induction s t arbitrary: p q rule: str_diff.induct)
  case (4 x xs y ys)
  then show ?case by (subst strcmp.simps) (auto simp: Let_def)
qed (subst strcmp.simps; auto simp: Let_def)+

lemma strncmp_str_diff:
  "cstring m p s \<Longrightarrow> cstring m q t \<Longrightarrow> strncmp m p q (int n) = str_diff (take n s) (take n t)"
proof (induction s t arbitrary: p q n rule: str_diff.induct)
  case (4 x xs y ys)
  then show ?case by (cases n) (subst strncmp.simps; auto simp: Let_def)+
next
  case (2 x xs)
  then show ?case by (cases n) (subst strncmp.simps; auto simp: Let_def)+
next
  case (3 y ys)
  then show ?case by (cases n) (subst strncmp.simps; auto simp: Let_def)+
qed (subst strncmp.simps; auto simp: Let_def)

lemma str_diff_zero: "0 \<notin> set s \<Longrightarrow> 0 \<notin> set t \<Longrightarrow> str_diff s t = 0 \<longleftrightarrow> s = t"
proof (induction s t rule: str_diff.induct)
  case (4 x xs y ys)
  have "uint x \<noteq> uint y" if "x \<noteq> y" using that by (simp add: word_uint_eq_iff)
  then show ?case using 4 by auto
qed (auto simp: uint_0_iff)

lemma str_diff_less: "0 \<notin> set s \<Longrightarrow> 0 \<notin> set t \<Longrightarrow> str_diff s t < 0 \<longleftrightarrow> ord_class.lexordp s t"
proof (induction s t rule: str_diff.induct)
  case (3 y ys)
  then have "uint y \<noteq> 0" by (simp add: uint_0_iff)
  then have "0 < uint y" using uint_ge_0 [of y] by linarith
  then show ?case by simp
next
  case (4 x xs y ys)
  show ?case
  proof (cases "x = y")
    case False
    then have "uint x \<noteq> uint y" by (simp add: word_uint_eq_iff)
    then have "uint x - uint y < 0 \<longleftrightarrow> x < y" by (simp add: word_less_def)
    moreover have "x < y \<or> y < x" using False by (simp add: neq_iff)
    ultimately show ?thesis using False by auto
  qed (use 4 in simp)
next
  case (2 x xs)
  then show ?case using uint_ge_0 [of x] by (simp add: not_less)
qed simp

lemma strcmp_zero: "cstring m p s \<Longrightarrow> cstring m q t \<Longrightarrow> strcmp m p q = Some 0 \<longleftrightarrow> s = t"
  using strcmp_str_diff [of m p s q t] str_diff_zero [of s t] cstring_nonzero by auto

text \<open>\<^verbatim>\<open>strcmp\<close> with a string literal as second argument, given by its characters.\<close>

fun strcmp_lit :: "bytes \<Rightarrow> u64 \<Rightarrow> u8 list \<Rightarrow> int" where
  "strcmp_lit m p [] = uint (m p)"
| "strcmp_lit m p (c # cs) = (if m p \<noteq> c then uint (m p) - uint c else strcmp_lit m (p + 1) cs)"

lemma strcmp_literal: "cstring m q t \<Longrightarrow> strcmp m p q = Some (strcmp_lit m p t)"
proof (induction m q t arbitrary: p rule: cstring.induct)
  case (1 m q)
  then show ?case by (subst strcmp.simps) (auto simp: Let_def)
next
  case (2 m q c cs)
  then show ?case by (subst strcmp.simps) (auto simp: Let_def)
qed

lemma strcmp_lit_zero: "cstring m p s \<Longrightarrow> 0 \<notin> set t \<Longrightarrow> strcmp_lit m p t = 0 \<longleftrightarrow> s = t"
proof (induction m p t arbitrary: s rule: strcmp_lit.induct)
  case (1 m p)
  then show ?case by (cases s) (auto simp: uint_0_iff)
next
  case (2 m p c cs)
  have u: "uint (m p) \<noteq> uint c" if "m p \<noteq> c" using that by (simp add: word_uint_eq_iff)
  show ?case
  proof (cases s)
    case Nil
    then show ?thesis using 2 u by auto
  next
    case (Cons x xs)
    then show ?thesis using 2 u by auto
  qed
qed

subsection \<open>Blocks of memory\<close>

lemma memset_loop_apply:
  "n \<le> 2 ^ 63 \<Longrightarrow> memset_loop s ch n m a = (if unat (a - s) < n then ch else m a)"
proof (induction n arbitrary: s m)
  case (Suc n)
  have "unat (a - s) < Suc n \<longleftrightarrow> a = s \<or> unat (a - (s + 1)) < n"
  proof (cases "a = s")
    case False
    then have "a - s \<noteq> 0" by simp
    then have "unat (a - s - 1) = unat (a - s) - 1" "0 < unat (a - s)"
      by (simp_all add: unat_minus_one unat_gt_0)
    then show ?thesis using False by (auto simp: algebra_simps)
  qed simp
  then show ?case using Suc by auto
qed simp

lemma memcpy_apply:
  assumes "n \<le> 2 ^ 63" "\<And>i j. i < n \<Longrightarrow> j < n \<Longrightarrow> d + of_nat i \<noteq> s + of_nat j"
  shows "memcpy d s n m a = (if unat (a - d) < n then m (s + (a - d)) else m a)"
  using assms
proof (induction n arbitrary: d s m)
  case (Suc n)
  have apart: "(d + 1) + of_nat i \<noteq> (s + 1) + of_nat j" if "i < n" "j < n" for i j
    using Suc.prems(2) [of "Suc i" "Suc j"] that by (simp add: algebra_simps)
  have IH: "memcpy (d + 1) (s + 1) n (m(d := m s)) a =
      (if unat (a - (d + 1)) < n then (m(d := m s)) (s + 1 + (a - (d + 1))) else (m(d := m s)) a)"
    using Suc.prems(1) apart by (intro Suc.IH) auto
  show ?case
  proof (cases "a = d")
    case True
    have "unat (- 1 :: u64) = 2 ^ 64 - 1" by (simp add: unsigned_minus_1_eq_mask mask_eq_exp_minus_1)
    then have "\<not> unat (a - (d + 1)) < n" using Suc.prems(1) True by simp
    then show ?thesis using IH True by simp
  next
    case False
    then have "a - d \<noteq> 0" by simp
    then have u: "unat (a - d) = Suc (unat (a - (d + 1)))"
      using unat_minus_one [of "a - d"] unat_gt_0 [of "a - d"] by (simp add: algebra_simps)
    have "s + (a - d) \<noteq> d" if "unat (a - d) < Suc n"
      using Suc.prems(2) [of 0 "unat (a - d)"] that by (auto simp: algebra_simps)
    then show ?thesis using IH False u by (auto simp: algebra_simps)
  qed
qed simp

end
