(* ===== verification/Uart.thy ===== *)
theory Uart
  imports Ring Utils
begin

text \<open>
  The UART driver \<^verbatim>\<open>kernel/src/uart.c\<close>: its two ring buffers, the interrupt handler, and the
  routines that send and receive characters and print strings and numbers. What the device
  answers to the volatile reads of one run of the handler (or of one poll) is an event of the
  environment; a routine that waits consumes events and is undefined when none is left.
  \<^verbatim>\<open>thr_log\<close> is the sequence of bytes written to the transmit register. The registers differ
  in width and address between the two builds; only the bits the driver uses are modelled.
\<close>

subsection \<open>State and operations\<close>

record uart_state = cpu_state +
  g_uart_base :: u64
  rx_buf :: "nat \<Rightarrow> u8"
  rx_head :: nat
  rx_tail :: nat
  tx_buf :: "nat \<Rightarrow> u8"
  tx_head :: nat
  tx_tail :: nat
  async_tx_enabled :: bool
  uart_ier :: u32
  uart_mcr :: u32
  thr_log :: "u8 list"

text \<open>The two reads of the line status register and the read of the receive buffer register.\<close>

record uart_event =
  ev_rx_lsr :: u32
  ev_rbr :: u8
  ev_tx_lsr :: u32

definition LSR_DR :: u32 where "LSR_DR = push_bit 0 1"
definition LSR_TDRQ :: u32 where "LSR_TDRQ = push_bit 5 1"

definition uart_set_base :: "u64 \<Rightarrow> 'a uart_state_scheme \<Rightarrow> 'a uart_state_scheme" where
  "uart_set_base base s = (if base \<noteq> 0 then s\<lparr>g_uart_base := base\<rparr> else s)"

definition uart_intr_enable :: "'a uart_state_scheme \<Rightarrow> 'a uart_state_scheme" where
  "uart_intr_enable s =
     s\<lparr>async_tx_enabled := True, uart_ier := uart_ier s OR push_bit 0 1, uart_mcr := uart_mcr s OR push_bit 3 1\<rparr>"

text \<open>The bodies that store into and take from the rings.\<close>

definition rx_push :: "u8 \<Rightarrow> 'a uart_state_scheme \<Rightarrow> 'a uart_state_scheme" where
  "rx_push c s =
     (let next_head = (rx_head s + 1) mod 256
      in if next_head \<noteq> rx_tail s then s\<lparr>rx_buf := (rx_buf s)(rx_head s := c), rx_head := next_head\<rparr> else s)"

definition rx_pop :: "'a uart_state_scheme \<Rightarrow> u8 \<times> 'a uart_state_scheme" where
  "rx_pop s = (rx_buf s (rx_tail s), s\<lparr>rx_tail := (rx_tail s + 1) mod 256\<rparr>)"

definition tx_push :: "u8 \<Rightarrow> 'a uart_state_scheme \<Rightarrow> 'a uart_state_scheme" where
  "tx_push c s =
     s\<lparr>tx_buf := (tx_buf s)(tx_head s := c), tx_head := (tx_head s + 1) mod 256\<rparr>"

definition tx_pop :: "'a uart_state_scheme \<Rightarrow> u8 \<times> 'a uart_state_scheme" where
  "tx_pop s = (tx_buf s (tx_tail s), s\<lparr>tx_tail := (tx_tail s + 1) mod 256\<rparr>)"

definition write_thr :: "u8 \<Rightarrow> 'a uart_state_scheme \<Rightarrow> 'a uart_state_scheme" where
  "write_thr c s = s\<lparr>thr_log := thr_log s @ [c]\<rparr>"

definition uart_interrupt_handler :: "uart_event \<Rightarrow> 'a uart_state_scheme \<Rightarrow> 'a uart_state_scheme" where
  "uart_interrupt_handler e s =
     (let s1 = (if ev_rx_lsr e AND LSR_DR \<noteq> 0 then rx_push (ev_rbr e) s else s)
      in if ev_tx_lsr e AND LSR_TDRQ \<noteq> 0
         then if tx_head s1 \<noteq> tx_tail s1
              then let (c, s2) = tx_pop s1 in write_thr c s2
              else s1\<lparr>uart_ier := uart_ier s1 AND NOT (push_bit 1 1)\<rparr>
         else s1)"

text \<open>The polling loop, and the two loops that wait for an interrupt.\<close>

fun poll_ready :: "uart_event list \<Rightarrow> uart_event list option" where
  "poll_ready [] = None"
| "poll_ready (e # es) = (if ev_tx_lsr e AND LSR_TDRQ = 0 then poll_ready es else Some es)"

fun wait_space :: "uart_event list \<Rightarrow> 'a uart_state_scheme \<Rightarrow> (uart_event list \<times> 'a uart_state_scheme) option" where
  "wait_space es s =
     (if (tx_head s + 1) mod 256 = tx_tail s
      then case es of [] \<Rightarrow> None
           | e # es' \<Rightarrow> wait_space es' ((uart_interrupt_handler e (s\<lparr>sie := True\<rparr>))\<lparr>sie := False\<rparr>)
      else Some (es, s))"

fun wait_data :: "uart_event list \<Rightarrow> 'a uart_state_scheme \<Rightarrow> (uart_event list \<times> 'a uart_state_scheme) option" where
  "wait_data es s =
     (if rx_head s = rx_tail s
      then case es of [] \<Rightarrow> None
           | e # es' \<Rightarrow> wait_data es' (if sie s then uart_interrupt_handler e s else s)
      else Some (es, s))"

declare wait_space.simps [simp del] wait_data.simps [simp del]

definition uart_putc_one :: "u32 \<Rightarrow> uart_event list \<Rightarrow> 'a uart_state_scheme \<Rightarrow> (uart_event list \<times> 'a uart_state_scheme) option" where
  "uart_putc_one c es s =
     (if \<not> async_tx_enabled s
      then case poll_ready es of None \<Rightarrow> None | Some es' \<Rightarrow> Some (es', write_thr (ucast c) s)
      else let (saved, s1) = csrrci s
           in case wait_space es s1 of None \<Rightarrow> None
              | Some (es', s2) \<Rightarrow>
                  (let s3 = tx_push (ucast c) s2
                   in Some (es', csrs saved (s3\<lparr>uart_ier := uart_ier s3 OR push_bit 1 1\<rparr>))))"

definition uart_putc :: "u32 \<Rightarrow> uart_event list \<Rightarrow> 'a uart_state_scheme \<Rightarrow> (uart_event list \<times> 'a uart_state_scheme) option" where
  "uart_putc c es s =
     (if c = 10 then Option.bind (uart_putc_one 13 es s) (\<lambda>(es', s'). uart_putc_one c es' s')
      else uart_putc_one c es s)"

definition uart_getc_raw :: "uart_event list \<Rightarrow> 'a uart_state_scheme \<Rightarrow> (u8 \<times> uart_event list \<times> 'a uart_state_scheme) option" where
  "uart_getc_raw es s =
     (case wait_data es s of None \<Rightarrow> None
      | Some (es', s1) \<Rightarrow> (let (saved, s2) = csrrci s1; (c, s3) = rx_pop s2 in Some (c, es', csrs saved s3)))"

definition uart_getc :: "uart_event list \<Rightarrow> 'a uart_state_scheme \<Rightarrow> (u8 \<times> uart_event list \<times> 'a uart_state_scheme) option" where
  "uart_getc es s =
     map_option (\<lambda>(c, es', s'). (if c = 13 then 10 else c, es', s')) (uart_getc_raw es s)"

subsection \<open>Printing\<close>

text \<open>The characters of a string argument up to its terminating zero, sent one by one.\<close>

primrec uart_putcs :: "u8 list \<Rightarrow> uart_event list \<Rightarrow> 'a uart_state_scheme \<Rightarrow> (uart_event list \<times> 'a uart_state_scheme) option" where
  "uart_putcs [] es s = Some (es, s)"
| "uart_putcs (c # cs) es s = Option.bind (uart_putc (ucast c) es s) (\<lambda>(es', s'). uart_putcs cs es' s')"

definition uart_puts :: "u8 list \<Rightarrow> uart_event list \<Rightarrow> 'a uart_state_scheme \<Rightarrow> (uart_event list \<times> 'a uart_state_scheme) option" where
  "uart_puts str es s0 =
     (let (saved, s) = csrrci s0
      in map_option (\<lambda>(es', s'). (es', csrs saved s')) (uart_putcs str es s))"

text \<open>The same for a string given by its address.\<close>

partial_function (option) uart_putcs_at ::
  "bytes \<Rightarrow> u64 \<Rightarrow> uart_event list \<Rightarrow> 'a uart_state_scheme \<Rightarrow> (uart_event list \<times> 'a uart_state_scheme) option" where
  "uart_putcs_at m p es s =
     (if m p = 0 then Some (es, s)
      else Option.bind (uart_putc (ucast (m p)) es s) (\<lambda>(es', s'). uart_putcs_at m (p + 1) es' s'))"

definition uart_puts_at ::
  "bytes \<Rightarrow> u64 \<Rightarrow> uart_event list \<Rightarrow> 'a uart_state_scheme \<Rightarrow> (uart_event list \<times> 'a uart_state_scheme) option" where
  "uart_puts_at m p es s0 =
     (let (saved, s) = csrrci s0
      in map_option (\<lambda>(es', s'). (es', csrs saved s')) (uart_putcs_at m p es s))"

lemma uart_puts_at_eq: "cstring m p str \<Longrightarrow> uart_puts_at m p es s = uart_puts str es s"
proof -
  assume str: "cstring m p str"
  then have "uart_putcs_at m p es s = uart_putcs str es s" for es and s :: "'a uart_state_scheme"
  proof (induction m p str arbitrary: es s rule: cstring.induct)
    case (2 m p c cs)
    then show ?case by (subst uart_putcs_at.simps) (simp add: split_def)
  qed (simp add: uart_putcs_at.simps)
  then show ?thesis by (simp add: uart_puts_at_def uart_puts_def)
qed

definition hex_char :: "u64 \<Rightarrow> nat \<Rightarrow> u64" where
  "hex_char h c = (let n = drop_bit c h AND 0xf in n + (if n > 9 then 0x57 else 48))"

primrec uart_hex_from :: "nat \<Rightarrow> u64 \<Rightarrow> uart_event list \<Rightarrow> 'a uart_state_scheme \<Rightarrow> (uart_event list \<times> 'a uart_state_scheme) option" where
  "uart_hex_from 0 h es s = Some (es, s)"
| "uart_hex_from (Suc i) h es s =
     Option.bind (uart_putc (ucast (hex_char h (4 * i))) es s) (\<lambda>(es', s'). uart_hex_from i h es' s')"

definition uart_hex :: "u64 \<Rightarrow> uart_event list \<Rightarrow> 'a uart_state_scheme \<Rightarrow> (uart_event list \<times> 'a uart_state_scheme) option" where
  "uart_hex h es s0 =
     (let (saved, s) = csrrci s0
      in map_option (\<lambda>(es', s'). (es', csrs saved s'))
           (Option.bind (uart_puts [48, 120] es s) (\<lambda>(es', s'). uart_hex_from 16 h es' s')))"

text \<open>The digits in the order the first loop of \<^verbatim>\<open>uart_dec\<close> stores them, least significant first.\<close>

function dec_fill :: "u64 \<Rightarrow> u8 list \<Rightarrow> u8 list" where
  "dec_fill x buf =
     (if x > 0 \<and> length buf < 32 then dec_fill (x div 10) (buf @ [48 + ucast (x mod 10)]) else buf)"
  by pat_completeness auto
termination
  by (relation "measure (\<lambda>(x, buf). 32 - length buf)") auto

declare dec_fill.simps [simp del]

definition uart_dec :: "u64 \<Rightarrow> uart_event list \<Rightarrow> 'a uart_state_scheme \<Rightarrow> (uart_event list \<times> 'a uart_state_scheme) option" where
  "uart_dec x es s0 =
     (let (saved, s) = csrrci s0
      in map_option (\<lambda>(es', s'). (es', csrs saved s'))
           (if x = 0 then uart_putc 48 es s else uart_putcs (rev (dec_fill x [])) es s))"

subsection \<open>Queues and invariant\<close>

definition rx_queue :: "'a uart_state_scheme \<Rightarrow> u8 list" where
  "rx_queue s = ring_contents (rx_buf s) (rx_head s) (rx_tail s)"

definition tx_queue :: "'a uart_state_scheme \<Rightarrow> u8 list" where
  "tx_queue s = ring_contents (tx_buf s) (tx_head s) (tx_tail s)"

definition rx_ok :: "'a uart_state_scheme \<Rightarrow> bool" where
  "rx_ok s \<longleftrightarrow> rx_head s < 256 \<and> rx_tail s < 256"

definition tx_ok :: "'a uart_state_scheme \<Rightarrow> bool" where
  "tx_ok s \<longleftrightarrow> tx_head s < 256 \<and> tx_tail s < 256"

text \<open>Until the driver leaves polling mode nothing is queued for transmission.\<close>

definition uart_inv :: "'a uart_state_scheme \<Rightarrow> bool" where
  "uart_inv s \<longleftrightarrow> rx_ok s \<and> tx_ok s \<and> (\<not> async_tx_enabled s \<longrightarrow> tx_queue s = [])"

interpretation rx: bounded_queue rx_push rx_pop rx_queue rx_ok 255
proof
  fix s :: "'a uart_state_scheme" and x
  assume ok: "rx_ok s"
  note b = ok [unfolded rx_ok_def]
  show "rx_ok (rx_push x s)" using b by (simp add: rx_ok_def rx_push_def Let_def)
  show "length (rx_queue s) \<le> 255" using b ring_count [of "rx_head s" "rx_tail s"] by (auto simp: rx_queue_def ring_length)
  show "rx_queue (rx_push x s) = (if length (rx_queue s) < 255 then rx_queue s @ [x] else rx_queue s)"
    using b ring_full [of "rx_head s" "rx_tail s" "rx_buf s"] ring_push [of "rx_head s" "rx_tail s" "rx_buf s" x]
      \<open>length (rx_queue s) \<le> 255\<close>
    by (auto simp: rx_queue_def rx_push_def Let_def)
  assume ne: "rx_queue s \<noteq> []"
  show "rx_ok (snd (rx_pop s))" using b by (simp add: rx_ok_def rx_pop_def)
  show "rx_queue s = fst (rx_pop s) # rx_queue (snd (rx_pop s))"
    using b ne ring_pop [of "rx_head s" "rx_tail s" "rx_buf s"] ring_empty [of "rx_head s" "rx_tail s" "rx_buf s"]
    by (simp add: rx_queue_def rx_pop_def)
qed

text \<open>The transmit ring is pushed only after the wait for space, so its push needs no guard.\<close>

definition tx_offer :: "u8 \<Rightarrow> 'a uart_state_scheme \<Rightarrow> 'a uart_state_scheme" where
  "tx_offer c s = (if (tx_head s + 1) mod 256 = tx_tail s then s else tx_push c s)"

interpretation tx: bounded_queue tx_offer tx_pop tx_queue tx_ok 255
proof
  fix s :: "'a uart_state_scheme" and x
  assume ok: "tx_ok s"
  note b = ok [unfolded tx_ok_def]
  show "tx_ok (tx_offer x s)" using b by (simp add: tx_ok_def tx_offer_def tx_push_def)
  show "length (tx_queue s) \<le> 255" using b ring_count [of "tx_head s" "tx_tail s"] by (auto simp: tx_queue_def ring_length)
  show "tx_queue (tx_offer x s) = (if length (tx_queue s) < 255 then tx_queue s @ [x] else tx_queue s)"
    using b ring_full [of "tx_head s" "tx_tail s" "tx_buf s"] ring_push [of "tx_head s" "tx_tail s" "tx_buf s" x]
      \<open>length (tx_queue s) \<le> 255\<close>
    by (auto simp: tx_queue_def tx_push_def tx_offer_def)
  assume ne: "tx_queue s \<noteq> []"
  show "tx_ok (snd (tx_pop s))" using b by (simp add: tx_ok_def tx_pop_def)
  show "tx_queue s = fst (tx_pop s) # tx_queue (snd (tx_pop s))"
    using b ne ring_pop [of "tx_head s" "tx_tail s" "tx_buf s"] ring_empty [of "tx_head s" "tx_tail s" "tx_buf s"]
    by (simp add: tx_queue_def tx_pop_def)
qed

end
