(* ===== verification/Uart_Spec.thy ===== *)
theory Uart_Spec
  imports Uart
begin

text \<open>
  What the UART driver guarantees: every byte handed to it is transmitted once and in order,
  received bytes are never reordered or duplicated, and the printing routines send the text they
  mean to and return once the device has been ready often enough.
\<close>

subsection \<open>Effect of an operation\<close>

definition sent :: "'a uart_state_scheme \<Rightarrow> u8 list" where
  "sent s = thr_log s @ tx_queue s"

definition arrived :: "uart_event \<Rightarrow> u8 list" where
  "arrived e = (if ev_rx_lsr e AND LSR_DR \<noteq> 0 then [ev_rbr e] else [])"

definition tx_ready :: "uart_event \<Rightarrow> bool" where
  "tx_ready e \<longleftrightarrow> ev_tx_lsr e AND LSR_TDRQ \<noteq> 0"

text \<open>
  From \<open>s\<close> to \<open>s'\<close> the driver took \<open>out\<close> for transmission while the events \<open>us\<close> happened.
\<close>

definition moved :: "uart_event list \<Rightarrow> u8 list \<Rightarrow> 'a uart_state_scheme \<Rightarrow> 'a uart_state_scheme \<Rightarrow> bool" where
  "moved us out s s' \<longleftrightarrow> uart_inv s' \<and> sent s' = sent s @ out \<and>
     subseq (rx_queue s') (rx_queue s @ concat (map arrived us)) \<and> async_tx_enabled s' = async_tx_enabled s"

lemma moved_refl: "uart_inv s \<Longrightarrow> moved [] [] s s"
  by (simp add: moved_def)

lemma moved_trans: "moved us out s s' \<Longrightarrow> moved us' out' s' s'' \<Longrightarrow> moved (us @ us') (out @ out') s s''"
  unfolding moved_def
  using list_emb_append_mono [of "(=)" "rx_queue s'" "rx_queue s @ concat (map arrived us)"
      "concat (map arrived us')" "concat (map arrived us')"]
  by (auto intro: subseq_order.order_trans)

lemma queue_sie [simp]:
  "rx_queue (s\<lparr>sie := e\<rparr>) = rx_queue s" "tx_queue (s\<lparr>sie := e\<rparr>) = tx_queue s"
  "rx_queue (s\<lparr>uart_ier := i\<rparr>) = rx_queue s" "tx_queue (s\<lparr>uart_ier := i\<rparr>) = tx_queue s"
  "rx_queue (s\<lparr>thr_log := l\<rparr>) = rx_queue s" "tx_queue (s\<lparr>thr_log := l\<rparr>) = tx_queue s"
  by (simp_all add: rx_queue_def tx_queue_def)

lemma ok_sie [simp]:
  "rx_ok (s\<lparr>sie := e\<rparr>) = rx_ok s" "tx_ok (s\<lparr>sie := e\<rparr>) = tx_ok s"
  "rx_ok (s\<lparr>uart_ier := i\<rparr>) = rx_ok s" "tx_ok (s\<lparr>uart_ier := i\<rparr>) = tx_ok s"
  "rx_ok (s\<lparr>thr_log := l\<rparr>) = rx_ok s" "tx_ok (s\<lparr>thr_log := l\<rparr>) = tx_ok s"
  by (simp_all add: rx_ok_def tx_ok_def)

lemma moved_sie [simp]:
  "moved us out s (s'\<lparr>sie := e\<rparr>) = moved us out s s'" "moved us out (s\<lparr>sie := e\<rparr>) s' = moved us out s s'"
  by (simp_all add: moved_def uart_inv_def sent_def)

lemma rx_push_tx [simp]:
  "tx_queue (rx_push c s) = tx_queue s" "tx_ok (rx_push c s) = tx_ok s" "thr_log (rx_push c s) = thr_log s"
  "async_tx_enabled (rx_push c s) = async_tx_enabled s" "uart_ier (rx_push c s) = uart_ier s"
  by (simp_all add: rx_push_def tx_queue_def tx_ok_def Let_def)

lemma tx_pop_rx [simp]:
  "rx_queue (snd (tx_pop s)) = rx_queue s" "rx_ok (snd (tx_pop s)) = rx_ok s" "thr_log (snd (tx_pop s)) = thr_log s"
  "async_tx_enabled (snd (tx_pop s)) = async_tx_enabled s"
  by (simp_all add: tx_pop_def rx_queue_def rx_ok_def)

lemma tx_queue_empty: "tx_ok s \<Longrightarrow> tx_queue s = [] \<longleftrightarrow> tx_head s = tx_tail s"
  by (simp add: tx_queue_def tx_ok_def ring_empty)

subsection \<open>The interrupt handler\<close>

lemma receive_part:
  assumes "uart_inv s"
  shows "moved [e] [] s (if ev_rx_lsr e AND LSR_DR \<noteq> 0 then rx_push (ev_rbr e) s else s)"
  using assms rx.push_inv [of s "ev_rbr e"] rx.push_subseq [of s "ev_rbr e"]
  by (simp add: moved_def uart_inv_def sent_def arrived_def)

lemma transmit_part:
  assumes inv: "uart_inv s"
  shows "moved [] [] s
    (if ev_tx_lsr e AND LSR_TDRQ \<noteq> 0
     then if tx_head s \<noteq> tx_tail s then let (c, s2) = tx_pop s in write_thr c s2
          else s\<lparr>uart_ier := uart_ier s AND NOT (push_bit 1 1)\<rparr>
     else s)"
proof (cases "ev_tx_lsr e AND LSR_TDRQ \<noteq> 0 \<and> tx_head s \<noteq> tx_tail s")
  case True
  then have ne: "tx_queue s \<noteq> []" "tx_ok s" using inv by (simp_all add: uart_inv_def tx_queue_empty)
  show ?thesis
    using True inv ne tx.pop_inv [of s] tx.pop_contents [of s]
    by (auto simp: moved_def uart_inv_def sent_def write_thr_def case_prod_beta Let_def)
qed (use inv in \<open>auto simp: moved_def uart_inv_def sent_def\<close>)

lemma handler_moved:
  assumes "uart_inv s"
  shows "moved [e] [] s (uart_interrupt_handler e s)"
proof -
  note r = receive_part [OF assms, of e]
  then have "uart_inv (if ev_rx_lsr e AND LSR_DR \<noteq> 0 then rx_push (ev_rbr e) s else s)" by (simp add: moved_def)
  from moved_trans [OF r transmit_part [OF this, of e]] show ?thesis
    by (simp add: uart_interrupt_handler_def Let_def)
qed

text \<open>A handler run with a ready transmitter leaves a free slot.\<close>

lemma handler_space:
  assumes "uart_inv s" "tx_ready e"
  shows "length (tx_queue (uart_interrupt_handler e s)) < 255"
proof -
  let ?s = "if ev_rx_lsr e AND LSR_DR \<noteq> 0 then rx_push (ev_rbr e) s else s"
  have ok: "tx_ok ?s" using assms by (simp add: uart_inv_def)
  show ?thesis
    using assms tx.bounded [OF ok] tx.pop_length [OF ok] tx_queue_empty [OF ok]
    by (auto simp: uart_interrupt_handler_def tx_ready_def write_thr_def case_prod_beta Let_def)
qed

subsection \<open>Waiting and sending\<close>

lemma wait_space_moved:
  "wait_space es s = Some (es', s') \<Longrightarrow> uart_inv s \<Longrightarrow>
   \<exists>us. es = us @ es' \<and> moved us [] s s' \<and> length (tx_queue s') < 255"
proof (induction es s arbitrary: es' s' rule: wait_space.induct)
  case (1 es s)
  have b: "tx_head s < 256" "tx_tail s < 256" using "1.prems"(2) by (simp_all add: uart_inv_def tx_ok_def)
  show ?case
  proof (cases "(tx_head s + 1) mod 256 = tx_tail s")
    case False
    then have "length (tx_queue s) < 255"
      using b ring_full [of "tx_head s" "tx_tail s" "tx_buf s"] tx.bounded [of s]
      by (simp add: tx_queue_def tx_ok_def)
    then show ?thesis using False "1.prems" by (simp add: wait_space.simps moved_refl)
  next
    case full: True
    then obtain e rest where e: "es = e # rest"
      "wait_space rest ((uart_interrupt_handler e (s\<lparr>sie := True\<rparr>))\<lparr>sie := False\<rparr>) = Some (es', s')"
      using "1.prems"(1) by (subst (asm) wait_space.simps) (auto split: list.splits)
    have m: "moved [e] [] s (uart_interrupt_handler e (s\<lparr>sie := True\<rparr>))"
      using handler_moved [of "s\<lparr>sie := True\<rparr>" e] "1.prems"(2) by (simp add: uart_inv_def)
    then have "uart_inv ((uart_interrupt_handler e (s\<lparr>sie := True\<rparr>))\<lparr>sie := False\<rparr>)"
      by (simp add: moved_def uart_inv_def)
    then obtain us where "rest = us @ es'" "length (tx_queue s') < 255"
      "moved us [] ((uart_interrupt_handler e (s\<lparr>sie := True\<rparr>))\<lparr>sie := False\<rparr>) s'"
      using "1.IH" [OF full e] by blast
    then show ?thesis using e(1) moved_trans [OF m, of us "[]" s'] by (intro exI [of _ "e # us"]) simp
  qed
qed

lemma poll_ready_suffix: "poll_ready es = Some es' \<Longrightarrow> \<exists>us. es = us @ es'"
  by (induction es) (auto split: if_splits intro: exI [of _ "_ # _"])

lemma tx_push_moved:
  assumes inv: "uart_inv s" and space: "length (tx_queue s) < 255" and async: "async_tx_enabled s"
  shows "moved [] [c] s ((tx_push c s)\<lparr>uart_ier := i\<rparr>)"
proof -
  have ok: "tx_ok s" using inv by (simp add: uart_inv_def)
  then have "(tx_head s + 1) mod 256 \<noteq> tx_tail s"
    using space ring_full [of "tx_head s" "tx_tail s" "tx_buf s"] by (auto simp: tx_ok_def tx_queue_def)
  then have "tx_offer c s = tx_push c s" by (simp add: tx_offer_def)
  then show ?thesis
    using tx.push_space [OF ok space, of c] tx.push_inv [OF ok, of c] inv async
    by (simp add: moved_def uart_inv_def sent_def) (simp add: tx_push_def rx_ok_def rx_queue_def)
qed

lemma putc_one_moved:
  assumes inv: "uart_inv s" and ret: "uart_putc_one c es s = Some (es', s')"
  shows "\<exists>us. es = us @ es' \<and> moved us [ucast c] s s'"
proof (cases "async_tx_enabled s")
  case False
  then obtain us where "es = us @ es'" and s': "s' = write_thr (ucast c) s"
    using ret poll_ready_suffix by (fastforce simp: uart_putc_one_def split: option.splits)
  moreover have "moved us [ucast c] s s'"
    using inv False by (auto simp: moved_def uart_inv_def sent_def s' write_thr_def)
  ultimately show ?thesis by blast
next
  case True
  obtain s2 where w: "wait_space es (s\<lparr>sie := False\<rparr>) = Some (es', s2)"
    and s': "s' = csrs (sie s) ((tx_push (ucast c) s2)\<lparr>uart_ier := uart_ier s2 OR push_bit 1 1\<rparr>)"
    using ret True by (auto simp: uart_putc_one_def csrrci_def Let_def tx_push_def split: option.splits)
  obtain us where us: "es = us @ es'" "moved us [] s s2" "length (tx_queue s2) < 255"
    using wait_space_moved [OF w] inv by (auto simp: uart_inv_def)
  then have "moved [] [ucast c] s2 s'"
    using tx_push_moved [of s2 "ucast c" "uart_ier s2 OR push_bit 1 1"] True by (simp add: s' csrs_def moved_def [of us])
  then show ?thesis using moved_trans [OF us(2), of "[]" "[ucast c]" s'] us(1) by auto
qed

text \<open>A line feed is sent as carriage return and line feed.\<close>

definition crlf :: "u8 \<Rightarrow> u8 list" where
  "crlf c = (if c = 10 then [13, 10] else [c])"

lemma putc_moved:
  assumes inv: "uart_inv s" and ret: "uart_putc c es s = Some (es', s')"
  shows "\<exists>us. es = us @ es' \<and> moved us (if c = 10 then [13, 10] else [ucast c]) s s'"
proof (cases "c = 10")
  case True
  then obtain es1 s1 where a: "uart_putc_one 13 es s = Some (es1, s1)" "uart_putc_one c es1 s1 = Some (es', s')"
    using ret by (auto simp: uart_putc_def bind_eq_Some_conv)
  obtain us where us: "es = us @ es1" "moved us [13] s s1" using putc_one_moved [OF inv a(1)] by auto
  then obtain vs where "es1 = vs @ es'" "moved vs [10] s1 s'"
    using putc_one_moved [OF _ a(2)] True by (auto simp: moved_def [of us])
  then show ?thesis using us moved_trans [OF us(2), of vs "[10]" s'] True by (intro exI [of _ "us @ vs"]) simp
qed (use putc_one_moved [OF inv] ret in \<open>simp add: uart_putc_def\<close>)

lemma char_u8: "(ucast (ucast (c :: u8) :: u32) :: u8) = c"
  by transfer simp

lemma char_u32: "(ucast (c :: u8) :: u32) = 10 \<longleftrightarrow> c = 10"
  using char_u8 [of c] by auto

lemma putc_char_moved:
  assumes "uart_inv s" "uart_putc (ucast c) es s = Some (es', s')"
  shows "\<exists>us. es = us @ es' \<and> moved us (crlf c) s s'"
  using putc_moved [OF assms] char_u32 [of c] by (simp add: crlf_def char_u8 split: if_splits)

lemma putcs_moved:
  "uart_inv s \<Longrightarrow> uart_putcs str es s = Some (es', s') \<Longrightarrow>
   \<exists>us. es = us @ es' \<and> moved us (concat (map crlf str)) s s'"
proof (induction str arbitrary: es s)
  case (Cons c cs)
  then obtain es1 s1 where a: "uart_putc (ucast c) es s = Some (es1, s1)" "uart_putcs cs es1 s1 = Some (es', s')"
    by (auto simp: bind_eq_Some_conv)
  obtain us where us: "es = us @ es1" "moved us (crlf c) s s1"
    using putc_char_moved [OF Cons.prems(1) a(1)] by auto
  then obtain vs where "es1 = vs @ es'" "moved vs (concat (map crlf cs)) s1 s'"
    using Cons.IH [OF _ a(2)] by (auto simp: moved_def [of us])
  then show ?case using us moved_trans [OF us(2)] by (intro exI [of _ "us @ vs"]) simp
qed (simp add: moved_refl)

subsection \<open>Numbers\<close>

fun dec_digits :: "nat \<Rightarrow> u8 list" where
  "dec_digits n = (if n = 0 then [] else dec_digits (n div 10) @ [48 + of_nat (n mod 10)])"

declare dec_digits.simps [simp del]

definition read_decimal :: "u8 list \<Rightarrow> nat" where
  "read_decimal ds = foldl (\<lambda>v d. 10 * v + unat (d - 48)) 0 ds"

lemma read_dec_digits: "read_decimal (dec_digits n) = n"
proof (induction n rule: dec_digits.induct)
  case (1 n)
  have "unat (of_nat (n mod 10) :: u8) = n mod 10"
    using mod_less_divisor [of 10 n] by (simp add: unat_of_nat take_bit_nat_eq_self)
  then show ?case using 1 by (subst dec_digits.simps) (simp add: read_decimal_def)
qed

lemma dec_digits_range: "d \<in> set (dec_digits n) \<Longrightarrow> 48 \<le> d \<and> d \<le> 57"
proof (induction n rule: dec_digits.induct)
  case (1 n)
  have "n mod 10 < 10" by simp
  from less_10_cases [OF this] have "48 \<le> (48 + of_nat (n mod 10) :: u8) \<and> (48 + of_nat (n mod 10) :: u8) \<le> 57" by auto
  then show ?case using 1 by (subst (asm) dec_digits.simps) (auto split: if_splits)
qed

lemma dec_digits_head: "n \<noteq> 0 \<Longrightarrow> dec_digits n \<noteq> [] \<and> hd (dec_digits n) \<noteq> 48"
proof (induction n rule: dec_digits.induct)
  case (1 n)
  show ?case
  proof (cases "n < 10")
    case True
    then have "(of_nat n :: u8) \<noteq> 0" using "1.prems" less_10_cases [OF True] by auto
    then show ?thesis using True "1.prems" by (simp add: dec_digits.simps [of n] dec_digits.simps [of 0])
  next
    case False
    then show ?thesis using 1 by (subst (1 2) dec_digits.simps) auto
  qed
qed

lemma dec_fill_digits:
  "unat x < 10 ^ n \<Longrightarrow> length buf + n \<le> 32 \<Longrightarrow> dec_fill x buf = buf @ rev (dec_digits (unat x))"
proof (induction n arbitrary: x buf)
  case 0
  then have "x = 0" by (simp add: unat_eq_zero)
  then show ?case by (simp add: dec_fill.simps dec_digits.simps)
next
  case (Suc n)
  show ?case
  proof (cases "x = 0")
    case False
    have d: "unat (x div 10) = unat x div 10" "unat (x mod 10) = unat x mod 10" by (simp_all add: unat_div unat_mod)
    have "(ucast (x mod 10) :: u8) = of_nat (unat x mod 10)" by (simp add: d(2) [symmetric])
    moreover have "dec_fill (x div 10) (buf @ [48 + ucast (x mod 10)]) =
        (buf @ [48 + ucast (x mod 10)]) @ rev (dec_digits (unat (x div 10)))"
      using Suc.prems d by (intro Suc.IH) auto
    moreover have "unat x \<noteq> 0" using False by (simp add: unat_eq_zero)
    ultimately show ?thesis
      using Suc.prems False by (subst dec_fill.simps, subst dec_digits.simps) (simp add: d word_neq_0_conv)
  qed (simp add: dec_fill.simps dec_digits.simps)
qed

lemma dec_fill_all: "dec_fill x [] = rev (dec_digits (unat x))"
proof -
  have "unat x < 10 ^ 32" using unat_u64_bound [of x] by (rule less_trans) simp
  then show ?thesis using dec_fill_digits [of x 32 "[]"] by simp
qed

lemma crlf_digits: "10 \<notin> set ds \<Longrightarrow> concat (map crlf ds) = ds"
  by (induction ds) (auto simp: crlf_def)

definition decimal :: "nat \<Rightarrow> u8 list" where
  "decimal n = (if n = 0 then [48] else dec_digits n)"

lemma read_decimal_decimal: "read_decimal (decimal n) = n"
  using read_dec_digits [of n] by (simp add: decimal_def) (simp add: read_decimal_def)

lemma csrs_moved [simp]: "moved us out s (csrs e s') = moved us out s s'"
  by (simp add: csrs_def)

lemma dec_moved:
  assumes inv: "uart_inv s" and ret: "uart_dec x es s = Some (es', s')"
  shows "\<exists>us. es = us @ es' \<and> moved us (decimal (unat x)) s s'"
proof -
  have inv': "uart_inv (s\<lparr>sie := False\<rparr>)" using inv by (simp add: uart_inv_def)
  show ?thesis
  proof (cases "x = 0")
    case True
    then obtain s1 where a: "uart_putc 48 es (s\<lparr>sie := False\<rparr>) = Some (es', s1)" "s' = csrs (sie s) s1"
      using ret by (auto simp: uart_dec_def csrrci_def)
    then show ?thesis using putc_moved [OF inv' a(1)] True by (auto simp: decimal_def)
  next
    case False
    then obtain s1 where a: "uart_putcs (dec_digits (unat x)) es (s\<lparr>sie := False\<rparr>) = Some (es', s1)" "s' = csrs (sie s) s1"
      using ret by (auto simp: uart_dec_def csrrci_def dec_fill_all)
    have "(10 :: u8) \<notin> set (dec_digits (unat x))" using dec_digits_range [of 10 "unat x"] by auto
    moreover have "unat x \<noteq> 0" using False by (simp add: unat_eq_zero)
    ultimately show ?thesis using putcs_moved [OF inv' a(1)] a(2) crlf_digits by (auto simp: decimal_def)
  qed
qed

definition hex_text :: "u64 \<Rightarrow> u8 list" where
  "hex_text h = map (\<lambda>i. ucast (ucast (hex_char h (4 * i)) :: u32)) (rev [0..<16])"

lemma nibble_cases:
  "unat (drop_bit c h AND 0xf :: u64) < 16"
proof -
  have "drop_bit c h AND 0xf \<le> 0xf" by (rule word_and_le1)
  then show ?thesis by (simp add: word_le_nat_alt)
qed

lemma hex_char_not_lf: "(ucast (hex_char h c) :: u32) \<noteq> 10"
proof -
  define n where "n = drop_bit c h AND 0xf"
  have "unat n < 16" using nibble_cases [of c h] by (simp add: n_def)
  then have "n \<in> {0, 1, 2, 3, 4, 5, 6, 7, 8, 9, 10, 11, 12, 13, 14, 15}"
    using less_16_cases [of "unat n"] less_10_cases [of "unat n"] by (auto simp: word_unat_eq_iff)
  then show ?thesis by (auto simp: hex_char_def n_def [symmetric] Let_def)
qed

lemma hex_from_moved:
  "uart_inv s \<Longrightarrow> uart_hex_from n h es s = Some (es', s') \<Longrightarrow>
   \<exists>us. es = us @ es' \<and> moved us (map (\<lambda>i. ucast (ucast (hex_char h (4 * i)) :: u32)) (rev [0..<n])) s s'"
proof (induction n arbitrary: es s)
  case (Suc n)
  then obtain es1 s1 where a: "uart_putc (ucast (hex_char h (4 * n))) es s = Some (es1, s1)"
    "uart_hex_from n h es1 s1 = Some (es', s')"
    by (auto simp: bind_eq_Some_conv)
  obtain us where us: "es = us @ es1" "moved us [ucast (ucast (hex_char h (4 * n)) :: u32)] s s1"
    using putc_moved [OF Suc.prems(1) a(1)] hex_char_not_lf [of h "4 * n"] by auto
  then obtain vs where "es1 = vs @ es'"
    "moved vs (map (\<lambda>i. ucast (ucast (hex_char h (4 * i)) :: u32)) (rev [0..<n])) s1 s'"
    using Suc.IH [OF _ a(2)] by (auto simp: moved_def [of us])
  then show ?case using us moved_trans [OF us(2)] by (intro exI [of _ "us @ vs"]) simp
qed (simp add: moved_refl)

lemma puts_moved:
  assumes inv: "uart_inv s" and ret: "uart_puts str es s = Some (es', s')"
  shows "\<exists>us. es = us @ es' \<and> moved us (concat (map crlf str)) s s'"
proof -
  have "uart_inv (s\<lparr>sie := False\<rparr>)" using inv by (simp add: uart_inv_def)
  then show ?thesis using putcs_moved ret by (fastforce simp: uart_puts_def csrrci_def)
qed

lemma hex_moved:
  assumes inv: "uart_inv s" and ret: "uart_hex h es s = Some (es', s')"
  shows "\<exists>us. es = us @ es' \<and> moved us ([48, 120] @ hex_text h) s s'"
proof -
  have inv': "uart_inv (s\<lparr>sie := False\<rparr>)" using inv by (simp add: uart_inv_def)
  obtain es1 s1 s2 where a: "uart_puts [48, 120] es (s\<lparr>sie := False\<rparr>) = Some (es1, s1)"
    "uart_hex_from 16 h es1 s1 = Some (es', s2)" "s' = csrs (sie s) s2"
    using ret by (auto simp: uart_hex_def csrrci_def bind_eq_Some_conv)
  obtain us where us: "es = us @ es1" "moved us [48, 120] s s1"
    using puts_moved [OF inv' a(1)] by (auto simp: crlf_def)
  then obtain vs where "es1 = vs @ es'" "moved vs (hex_text h) s1 s2"
    using hex_from_moved [OF _ a(2)] by (auto simp: moved_def [of us] hex_text_def)
  then show ?thesis using us moved_trans [OF us(2)] a(3) by (intro exI [of _ "us @ vs"]) simp
qed

subsection \<open>Progress\<close>

text \<open>The number of times the device reports an empty transmit register.\<close>

definition ready_count :: "uart_event list \<Rightarrow> nat" where
  "ready_count es = length (filter tx_ready es)"

lemma ready_count_simps [simp]:
  "ready_count [] = 0" "ready_count (e # es) = (if tx_ready e then Suc (ready_count es) else ready_count es)"
  by (simp_all add: ready_count_def)

lemma poll_ready_progress: "Suc k \<le> ready_count es \<Longrightarrow> \<exists>es'. poll_ready es = Some es' \<and> k \<le> ready_count es'"
  by (induction es) (auto simp: tx_ready_def split: if_splits)

lemma wait_space_progress:
  "uart_inv s \<Longrightarrow> Suc k \<le> ready_count es \<Longrightarrow> \<exists>es' s'. wait_space es s = Some (es', s') \<and> k \<le> ready_count es'"
proof (induction es arbitrary: s)
  case (Cons e es)
  let ?s = "(uart_interrupt_handler e (s\<lparr>sie := True\<rparr>))\<lparr>sie := False\<rparr>"
  show ?case
  proof (cases "(tx_head s + 1) mod 256 = tx_tail s")
    case full: True
    have i: "uart_inv (s\<lparr>sie := True\<rparr>)" using Cons.prems(1) by (simp add: uart_inv_def)
    have inv: "uart_inv ?s" using handler_moved [OF i, of e] by (simp add: moved_def uart_inv_def)
    show ?thesis
    proof (cases "tx_ready e")
      case True
      have "tx_ok ?s" "length (tx_queue ?s) < 255" using inv handler_space [OF i True] by (simp_all add: uart_inv_def)
      then have "(tx_head ?s + 1) mod 256 \<noteq> tx_tail ?s"
        using ring_full [of "tx_head ?s" "tx_tail ?s" "tx_buf ?s"] by (auto simp: tx_ok_def tx_queue_def)
      then have "wait_space es ?s = Some (es, ?s)" by (simp add: wait_space.simps)
      then show ?thesis using full Cons.prems(2) True by (subst wait_space.simps) simp
    next
      case False
      then show ?thesis using full Cons.IH [OF inv] Cons.prems(2) by (subst wait_space.simps) simp
    qed
  qed (use Cons.prems in \<open>subst wait_space.simps; auto split: if_splits\<close>)
qed simp

lemma putc_one_progress:
  assumes "uart_inv s" "Suc k \<le> ready_count es"
  shows "\<exists>es' s'. uart_putc_one c es s = Some (es', s') \<and> k \<le> ready_count es'"
proof (cases "async_tx_enabled s")
  case False
  then show ?thesis using poll_ready_progress [OF assms(2)] by (auto simp: uart_putc_one_def)
next
  case True
  have "uart_inv (s\<lparr>sie := False\<rparr>)" using assms(1) by (simp add: uart_inv_def)
  then obtain es' s' where "wait_space es (s\<lparr>sie := False\<rparr>) = Some (es', s')" "k \<le> ready_count es'"
    using wait_space_progress assms(2) by blast
  then show ?thesis using True by (auto simp: uart_putc_one_def csrrci_def Let_def)
qed

lemma putc_progress:
  assumes inv: "uart_inv s" and n: "k + 2 \<le> ready_count es"
  shows "\<exists>es' s'. uart_putc c es s = Some (es', s') \<and> k \<le> ready_count es'"
proof (cases "c = 10")
  case True
  obtain es1 s1 where a: "uart_putc_one 13 es s = Some (es1, s1)" "Suc k \<le> ready_count es1"
    using putc_one_progress [OF inv, of "Suc k" es 13] n by auto
  then have "uart_inv s1" using putc_one_moved [OF inv a(1)] by (auto simp: moved_def)
  then show ?thesis using putc_one_progress [OF _ a(2), of s1 10] a(1) True by (auto simp: uart_putc_def)
qed (use putc_one_progress [OF inv, of k es c] n in \<open>simp add: uart_putc_def\<close>)

lemma putcs_progress:
  "uart_inv s \<Longrightarrow> 2 * length str + k \<le> ready_count es \<Longrightarrow>
   \<exists>es' s'. uart_putcs str es s = Some (es', s') \<and> k \<le> ready_count es'"
proof (induction str arbitrary: es s)
  case (Cons c cs)
  obtain es1 s1 where a: "uart_putc (ucast c) es s = Some (es1, s1)" "2 * length cs + k \<le> ready_count es1"
    using putc_progress [OF Cons.prems(1), of "2 * length cs + k" es "ucast c"] Cons.prems(2) by auto
  have "uart_inv s1" using putc_moved [OF Cons.prems(1) a(1)] by (auto simp: moved_def)
  then show ?case using Cons.IH [OF _ a(2)] a(1) by auto
qed simp

subsection \<open>Runs of the driver\<close>

datatype uart_op =
    Interrupt uart_event
  | Putc u32 "uart_event list"
  | Getc "uart_event list"
  | Enable

text \<open>The bytes an operation hands to the transmitter, and the events that happen during it.\<close>

fun written :: "uart_op \<Rightarrow> u8 list" where
  "written (Putc c es) = (if c = 10 then [13, 10] else [ucast c])"
| "written _ = []"

fun happened :: "uart_op \<Rightarrow> uart_event list" where
  "happened (Interrupt e) = [e]"
| "happened (Putc c es) = es"
| "happened (Getc es) = es"
| "happened Enable = []"

text \<open>One operation; the list is what it delivers to the reader.\<close>

inductive uart_step :: "'a uart_state_scheme \<Rightarrow> uart_op \<Rightarrow> u8 list \<Rightarrow> 'a uart_state_scheme \<Rightarrow> bool" where
  interrupt: "async_tx_enabled s \<Longrightarrow> sie s \<Longrightarrow> uart_step s (Interrupt e) [] (uart_interrupt_handler e s)"
| putc: "uart_putc c es s = Some ([], s') \<Longrightarrow> uart_step s (Putc c es) [] s'"
| getc: "uart_getc_raw es s = Some (c, [], s') \<Longrightarrow> uart_step s (Getc es) [c] s'"
| enable: "uart_step s Enable [] (uart_intr_enable s)"

inductive uart_run :: "'a uart_state_scheme \<Rightarrow> uart_op list \<Rightarrow> u8 list \<Rightarrow> 'a uart_state_scheme \<Rightarrow> bool" where
  idle: "uart_run s [] [] s"
| more: "uart_step s x ds s1 \<Longrightarrow> uart_run s1 xs ds' s2 \<Longrightarrow> uart_run s (x # xs) (ds @ ds') s2"

inductive_cases uart_stepE: "uart_step s x ds s'"
inductive_simps uart_run_Nil [simp]: "uart_run s [] ds s'"
inductive_simps uart_run_Cons: "uart_run s (x # xs) ds s'"

lemma wait_data_moved:
  "wait_data es s = Some (es', s') \<Longrightarrow> uart_inv s \<Longrightarrow>
   \<exists>us. es = us @ es' \<and> moved us [] s s' \<and> rx_queue s' \<noteq> []"
proof (induction es s arbitrary: es' s' rule: wait_data.induct)
  case (1 es s)
  have b: "rx_head s < 256" "rx_tail s < 256" using "1.prems"(2) by (simp_all add: uart_inv_def rx_ok_def)
  show ?case
  proof (cases "rx_head s = rx_tail s")
    case False
    then show ?thesis using "1.prems" b by (simp add: wait_data.simps moved_refl rx_queue_def ring_empty)
  next
    case empty: True
    then obtain e rest where e: "es = e # rest"
      "wait_data rest (if sie s then uart_interrupt_handler e s else s) = Some (es', s')"
      using "1.prems"(1) by (subst (asm) wait_data.simps) (auto split: list.splits)
    have m: "moved [e] [] s (if sie s then uart_interrupt_handler e s else s)"
      using handler_moved [OF "1.prems"(2), of e] "1.prems"(2) by (auto simp: moved_def)
    then obtain us where us: "rest = us @ es'" "rx_queue s' \<noteq> []"
      "moved us [] (if sie s then uart_interrupt_handler e s else s) s'"
      using "1.IH" [OF empty e] by (auto simp: moved_def [of "[e]"])
    then show ?thesis using e(1) moved_trans [OF m us(3)] by (intro exI [of _ "e # us"]) simp
  qed
qed

lemma csrs_queues [simp]:
  "rx_queue (csrs e s) = rx_queue s" "tx_queue (csrs e s) = tx_queue s" "rx_ok (csrs e s) = rx_ok s"
  "tx_ok (csrs e s) = tx_ok s" "thr_log (csrs e s) = thr_log s" "async_tx_enabled (csrs e s) = async_tx_enabled s"
  by (simp_all add: csrs_def)

lemma rx_pop_tx [simp]:
  "tx_queue (snd (rx_pop s)) = tx_queue s" "tx_ok (snd (rx_pop s)) = tx_ok s" "thr_log (snd (rx_pop s)) = thr_log s"
  "async_tx_enabled (snd (rx_pop s)) = async_tx_enabled s"
  by (simp_all add: rx_pop_def tx_queue_def tx_ok_def)

text \<open>A received byte is the oldest one in the buffer.\<close>

lemma getc_step:
  assumes inv: "uart_inv s" and ret: "uart_getc_raw es s = Some (c, es', s')"
  shows "\<exists>us. es = us @ es' \<and> uart_inv s' \<and> sent s' = sent s \<and>
    subseq (c # rx_queue s') (rx_queue s @ concat (map arrived us))"
proof -
  obtain s1 where w: "wait_data es s = Some (es', s1)"
    and c: "c = fst (rx_pop (s1\<lparr>sie := False\<rparr>))" "s' = csrs (sie s1) (snd (rx_pop (s1\<lparr>sie := False\<rparr>)))"
    using ret by (auto simp: uart_getc_raw_def csrrci_def Let_def split: option.splits prod.splits)
  obtain us where us: "es = us @ es'" "moved us [] s s1" "rx_queue s1 \<noteq> []" using wait_data_moved [OF w inv] by auto
  let ?s = "s1\<lparr>sie := False\<rparr>"
  have r: "rx_ok ?s" "rx_queue ?s \<noteq> []" using us by (simp_all add: moved_def uart_inv_def)
  have "rx_queue s1 = c # rx_queue s'" using rx.pop_contents [OF r] by (simp add: c)
  moreover have "uart_inv s'" "sent s' = sent s"
    using us(2) rx.pop_inv [OF r] by (simp_all add: c moved_def uart_inv_def sent_def)
  ultimately show ?thesis using us by (auto simp: moved_def)
qed

lemma step_moved:
  assumes "uart_step s x ds s'" "uart_inv s"
  shows "uart_inv s' \<and> sent s' = sent s @ written x \<and>
    subseq (ds @ rx_queue s') (rx_queue s @ concat (map arrived (happened x)))"
  using assms
proof (cases rule: uart_step.cases)
  case (interrupt e)
  then show ?thesis using handler_moved [OF assms(2), of e] by (simp add: moved_def)
next
  case (putc c es)
  then show ?thesis using putc_moved [OF assms(2) putc(3)] by (auto simp: moved_def)
next
  case (getc es c)
  then show ?thesis using getc_step [OF assms(2) getc(3)] by simp
next
  case enable
  then show ?thesis
    using assms(2) by (auto simp: uart_intr_enable_def uart_inv_def rx_ok_def tx_ok_def sent_def rx_queue_def tx_queue_def)
qed

lemma dec_digits_length: "n < 10 ^ k \<Longrightarrow> length (dec_digits n) \<le> k"
proof (induction k arbitrary: n)
  case (Suc k)
  have "n div 10 < 10 ^ k" using Suc.prems by auto
  then show ?case using Suc.IH [of "n div 10"] by (subst dec_digits.simps) simp
qed (simp add: dec_digits.simps)

lemma decimal_length: "length (decimal (unat (x :: u64))) \<le> 20"
proof -
  have "unat x < 10 ^ 20" using unat_u64_bound [of x] by (rule less_trans) simp
  then show ?thesis using dec_digits_length by (simp add: decimal_def)
qed

lemma dec_progress:
  assumes inv: "uart_inv s" and n: "40 \<le> ready_count es"
  shows "\<exists>es' s'. uart_dec x es s = Some (es', s')"
proof -
  have inv': "uart_inv (s\<lparr>sie := False\<rparr>)" using inv by (simp add: uart_inv_def)
  have "unat x \<noteq> 0 \<Longrightarrow> 2 * length (rev (dec_digits (unat x))) + 0 \<le> ready_count es"
    using decimal_length [of x] n by (simp add: decimal_def)
  then show ?thesis
    using putc_progress [OF inv', of 0 es 48] putcs_progress [OF inv', of "dec_digits (unat x)" 0 es] n
    by (auto simp: uart_dec_def csrrci_def dec_fill_all unat_eq_zero)
qed

lemma sie_csrs: "sie (csrs e s) = (sie s \<or> e)"
  by (simp add: csrs_def)

subsection \<open>Examples\<close>

definition uart_boot :: uart_state where
  "uart_boot = \<lparr>sie = True, g_uart_base = 0x10000000, rx_buf = (\<lambda>_. 0), rx_head = 0, rx_tail = 0,
     tx_buf = (\<lambda>_. 0), tx_head = 0, tx_tail = 0, async_tx_enabled = False, uart_ier = 0, uart_mcr = 0,
     thr_log = []\<rparr>"

definition ready :: uart_event where
  "ready = \<lparr>ev_rx_lsr = 0, ev_rbr = 0, ev_tx_lsr = 0x20\<rparr>"

definition key :: "u8 \<Rightarrow> uart_event" where
  "key c = \<lparr>ev_rx_lsr = 1, ev_rbr = c, ev_tx_lsr = 0\<rparr>"

lemma uart_boot_inv: "uart_inv uart_boot"
  by (simp add: uart_inv_def uart_boot_def rx_ok_def tx_ok_def tx_queue_def ring_contents_def)

lemma tx_ready_ready [simp]: "tx_ready ready" "\<not> tx_ready (key c)"
  by (simp_all add: tx_ready_def ready_def key_def LSR_TDRQ_def)

subsection \<open>Properties\<close>





text \<open>\<^verbatim>\<open>uart_dec\<close> returns and prints the decimal numeral of its argument: only digits, no leading
  zero, and reading the digits back gives the number.\<close>

theorem uart_dec_roundtrip:
  assumes "uart_inv s" "40 \<le> ready_count es"
  shows "\<exists>es' s' ds. uart_dec x es s = Some (es', s') \<and>
    thr_log s' @ tx_queue s' = thr_log s @ tx_queue s @ ds \<and>
    read_decimal ds = unat x \<and> set ds \<subseteq> {48..57} \<and> (x = 0 \<or> hd ds \<noteq> 48)"
proof -
  obtain es' s' where ret: "uart_dec x es s = Some (es', s')" using dec_progress [OF assms] by blast
  have "set (decimal (unat x)) \<subseteq> {48..57}"
    using dec_digits_range [of _ "unat x"] by (auto simp: decimal_def)
  moreover have "x = 0 \<or> hd (decimal (unat x)) \<noteq> 48"
    using dec_digits_head [of "unat x"] by (auto simp: decimal_def unat_eq_zero)
  ultimately show ?thesis
    using dec_moved [OF assms(1) ret] ret read_decimal_decimal [of "unat x"] by (auto simp: moved_def sent_def)
qed

end
