(* ===== verification/Cpio.thy ===== *)
theory Cpio
  imports Uart_Spec "HOL-Library.Monad_Syntax"
begin

text \<open>
  The reader of the initial ram disk \<^verbatim>\<open>kernel/src/cpio.c\<close>: an SVR4 newc archive in memory.
  Walking an archive without an end marker need not end, so the walks are partial functions.
  The console output of a walk is the list of characters it hands to \<^verbatim>\<open>uart_putc\<close>;
  \<open>trailer\<close> is the address of the literal \<^verbatim>\<open>TRAILER!!!\<close>.
\<close>

subsection \<open>Operations\<close>

definition CPIO_HEADER_SIZE :: u64 where "CPIO_HEADER_SIZE = 110"

definition hex_digit :: "u8 \<Rightarrow> u64" where
  "hex_digit c =
     (if c \<ge> 48 \<and> c \<le> 57 then ucast c - 48
      else if c \<ge> 97 \<and> c \<le> 102 then ucast c - 97 + 10
      else if c \<ge> 65 \<and> c \<le> 70 then ucast c - 65 + 10
      else 0)"

definition hex_to_ul :: "bytes \<Rightarrow> u64 \<Rightarrow> nat \<Rightarrow> u64" where
  "hex_to_ul m s n = fold (\<lambda>i val. push_bit 4 val OR hex_digit (m (s + of_nat i))) [0..<n] 0"

definition align4 :: "u64 \<Rightarrow> u64" where
  "align4 x = (x + 3) AND NOT 3"

partial_function (option) cpio_strcmp :: "bytes \<Rightarrow> u64 \<Rightarrow> u64 \<Rightarrow> int option" where
  "cpio_strcmp m a b =
     (if m a \<noteq> 0 \<and> m b \<noteq> 0 \<and> m a = m b then cpio_strcmp m (a + 1) (b + 1)
      else Some (uint (m a) - uint (m b)))"

text \<open>The fields of a header: the magic number (its first \<open>n\<close> digits are checked), the sizes.\<close>

definition magic_ok :: "nat \<Rightarrow> bytes \<Rightarrow> u64 \<Rightarrow> bool" where
  "magic_ok n m ptr \<longleftrightarrow> (\<forall>i\<in>set [0..<n]. m (ptr + of_nat i) = [48, 55, 48, 55, 48] ! i)"

definition c_namesize :: "bytes \<Rightarrow> u64 \<Rightarrow> u64" where
  "c_namesize m ptr = hex_to_ul m (ptr + 94) 8"

definition c_filesize :: "bytes \<Rightarrow> u64 \<Rightarrow> u64" where
  "c_filesize m ptr = hex_to_ul m (ptr + 54) 8"

text \<open>The step of \<^verbatim>\<open>cpio_ls\<close> and \<^verbatim>\<open>cpio_cat\<close> to the next header.\<close>

definition next_header :: "bytes \<Rightarrow> u64 \<Rightarrow> u64" where
  "next_header m ptr = ptr + align4 (CPIO_HEADER_SIZE + c_namesize m ptr) + align4 (c_filesize m ptr)"

text \<open>The first pass of \<^verbatim>\<open>cpio_ls\<close>: the number of entries, or none after a bad header.\<close>

partial_function (option) cpio_count :: "bytes \<Rightarrow> u64 \<Rightarrow> u64 \<Rightarrow> u64 \<Rightarrow> u64 option option" where
  "cpio_count m trailer ptr count =
     (if \<not> magic_ok 5 m ptr then Some None
      else do {
        d \<leftarrow> cpio_strcmp m (ptr + CPIO_HEADER_SIZE) trailer;
        if d = 0 then Some (Some count)
        else cpio_count m trailer (next_header m ptr) (count + 1)
      })"

text \<open>The characters of a string at an address.\<close>

partial_function (option) string_at :: "bytes \<Rightarrow> u64 \<Rightarrow> u8 list option" where
  "string_at m p = (if m p = 0 then Some [] else do { cs \<leftarrow> string_at m (p + 1); Some (m p # cs) })"

text \<open>The second pass: size, tab, name and line feed of every entry.\<close>

partial_function (option) cpio_list :: "bytes \<Rightarrow> u64 \<Rightarrow> u64 \<Rightarrow> u8 list option" where
  "cpio_list m trailer ptr =
     (if \<not> magic_ok 5 m ptr then Some []
      else do {
        d \<leftarrow> cpio_strcmp m (ptr + CPIO_HEADER_SIZE) trailer;
        if d = 0 then Some []
        else do {
          name \<leftarrow> string_at m (ptr + CPIO_HEADER_SIZE);
          more \<leftarrow> cpio_list m trailer (next_header m ptr);
          Some (decimal (unat (c_filesize m ptr)) @ [9] @ name @ [10] @ more)
        }
      })"

definition bad_magic_text :: "u8 list" where
  "bad_magic_text = bytes_of ''[cpio] bad magic, stopping'' @ [10]"

definition cpio_ls :: "bytes \<Rightarrow> u64 \<Rightarrow> u64 \<Rightarrow> u8 list option" where
  "cpio_ls m trailer addr =
     do {
       n \<leftarrow> cpio_count m trailer addr 0;
       case n of None \<Rightarrow> Some bad_magic_text
       | Some count \<Rightarrow>
           do {
             more \<leftarrow> cpio_list m trailer addr;
             Some (bytes_of ''Total '' @ decimal (unat count) @ bytes_of '' files.'' @ [10] @ more)
           }
     }"

definition not_found_text :: "u8 list \<Rightarrow> u8 list" where
  "not_found_text name = bytes_of ''cat: file not found: '' @ name @ [10]"

partial_function (option) cpio_cat_from :: "bytes \<Rightarrow> u64 \<Rightarrow> u64 \<Rightarrow> u64 \<Rightarrow> u8 list option" where
  "cpio_cat_from m trailer filename ptr =
     (if \<not> magic_ok 5 m ptr
      then do { name \<leftarrow> string_at m filename; Some (bad_magic_text @ not_found_text name) }
      else do {
        d \<leftarrow> cpio_strcmp m (ptr + CPIO_HEADER_SIZE) trailer;
        if d = 0 then do { name \<leftarrow> string_at m filename; Some (not_found_text name) }
        else do {
          d' \<leftarrow> cpio_strcmp m (ptr + CPIO_HEADER_SIZE) filename;
          if d' = 0
          then let data = ptr + align4 (CPIO_HEADER_SIZE + c_namesize m ptr);
                   filesize = c_filesize m ptr;
                   text = map (\<lambda>i. m (data + of_nat i)) [0..<unat filesize]
               in Some (if filesize = 0 \<or> m (data + (filesize - 1)) \<noteq> 10 then text @ [10] else text)
          else cpio_cat_from m trailer filename (next_header m ptr)
        }
      })"

definition cpio_cat :: "bytes \<Rightarrow> u64 \<Rightarrow> u64 \<Rightarrow> u64 \<Rightarrow> u8 list option" where
  "cpio_cat m trailer addr filename = cpio_cat_from m trailer filename addr"

text \<open>
  The outcome of \<^verbatim>\<open>cpio_find\<close>: return value 0 with the two out-parameters, or \<open>- 1\<close>; a bad header
  also prints a message.
\<close>

datatype find_result = Found u64 u64 | Not_Found | Bad_Magic

partial_function (option) cpio_find_from :: "bytes \<Rightarrow> u64 \<Rightarrow> u64 \<Rightarrow> u64 \<Rightarrow> find_result option" where
  "cpio_find_from m trailer target ptr =
     (if \<not> magic_ok 4 m ptr then Some Bad_Magic
      else let filename = ptr + 110
           in do {
             d \<leftarrow> strcmp m filename trailer;
             if d = 0 then Some Not_Found
             else let file_data = align4 (filename + c_namesize m ptr)
                  in do {
                    d' \<leftarrow> strcmp m filename target;
                    if d' = 0 then Some (Found file_data (c_filesize m ptr))
                    else cpio_find_from m trailer target (align4 (file_data + c_filesize m ptr))
                  }
           })"

text \<open>The archive argument is only compared with NULL: the walk starts at the global \<open>cpio_addr\<close>.\<close>

definition cpio_find :: "bytes \<Rightarrow> u64 \<Rightarrow> u64 \<Rightarrow> u64 \<Rightarrow> u64 \<Rightarrow> find_result option" where
  "cpio_find m trailer cpio_addr archive target =
     (if archive = NULL \<or> target = NULL then Some Not_Found
      else cpio_find_from m trailer target cpio_addr)"

subsection \<open>String comparison\<close>

lemma strcmp_imp_cpio: "strcmp m a b = Some d \<Longrightarrow> cpio_strcmp m a b = Some d"
proof (rule strcmp.raw_induct [where P = "\<lambda>m a b d. cpio_strcmp m a b = Some d"])
  fix cmp and m :: bytes and a b :: u64 and d
  assume "\<And>m a b d. cmp m a b = Some d \<Longrightarrow> cpio_strcmp m a b = Some d"
    "(let c1 = m a; c2 = m b in if c1 \<noteq> c2 then Some (uint c1 - uint c2)
      else if c1 = 0 then Some 0 else cmp m (a + 1) (b + 1)) = Some d"
  then show "cpio_strcmp m a b = Some d" by (subst cpio_strcmp.simps) (auto simp: Let_def split: if_splits)
qed

lemma cpio_imp_strcmp: "cpio_strcmp m a b = Some d \<Longrightarrow> strcmp m a b = Some d"
proof (rule cpio_strcmp.raw_induct [where P = "\<lambda>m a b d. strcmp m a b = Some d"])
  fix cmp and m :: bytes and a b :: u64 and d
  assume "\<And>m a b d. cmp m a b = Some d \<Longrightarrow> strcmp m a b = Some d"
    "(if m a \<noteq> 0 \<and> m b \<noteq> 0 \<and> m a = m b then cmp m (a + 1) (b + 1) else Some (uint (m a) - uint (m b))) = Some d"
  then show "strcmp m a b = Some d" by (subst strcmp.simps) (auto simp: Let_def split: if_splits)
qed

lemma cpio_strcmp_eq: "cpio_strcmp m a b = strcmp m a b"
  using strcmp_imp_cpio [of m a b] cpio_imp_strcmp [of m a b] by (cases "strcmp m a b"; cases "cpio_strcmp m a b") auto

end
