(* ===== verification/Cpio_Spec.thy ===== *)
theory Cpio_Spec
  imports Cpio
begin

text \<open>
  Archives in memory, and what the three walks of the ram disk reader return on them: lookup,
  listing and contents. Reading back the hexadecimal numbers the UART driver prints.
\<close>

subsection \<open>Alignment\<close>

lemma align4_minus: "align4 x = x + 3 - take_bit 2 (x + 3)"
proof -
  have "(3 :: u64) = mask 2" by (simp add: mask_eq_exp_minus_1)
  then have "align4 x = (x + 3) AND NOT (mask 2)" by (simp only: align4_def)
  also have "\<dots> = push_bit 2 (drop_bit 2 (x + 3))" by (rule bit_word_eqI) (auto simp: bit_simps simp del: add_2_eq_Suc add_2_eq_Suc')
  finally have "align4 x = push_bit 2 (drop_bit 2 (x + 3))" .
  then show ?thesis using bits_ident [of 2 "x + 3"] by (simp add: eq_diff_eq)
qed

lemma aligned_take_bit: "(p :: u64) AND 3 = 0 \<longleftrightarrow> take_bit 2 p = 0"
  by (simp add: take_bit_eq_mask mask_eq_exp_minus_1)

lemma take_bit_2_add: "take_bit 2 (a + b :: u64) = take_bit 2 (take_bit 2 a + take_bit 2 b)"
proof -
  have "(unat a + unat b) mod 2 ^ 64 mod 4 = (unat a mod 4 + unat b mod 4) mod 2 ^ 64 mod 4"
    by (simp add: mod_mod_cancel mod_simps)
  then show ?thesis by (simp add: word_unat_eq_iff take_bit_eq_mod unat_mod unat_word_ariths)
qed

lemma align4_add: "p AND 3 = 0 \<Longrightarrow> align4 (p + x) = p + align4 x"
proof -
  assume "p AND 3 = 0"
  then have "take_bit 2 p = 0" by (simp only: aligned_take_bit)
  then have "take_bit 2 (p + (x + 3)) = take_bit 2 (x + 3)"
    using take_bit_2_add [of p "x + 3"] by simp
  then show ?thesis by (simp add: align4_minus algebra_simps)
qed

lemma align4_aligned: "align4 x AND 3 = 0"
  by (simp add: align4_def and.assoc)

lemma aligned_add: "(p :: u64) AND 3 = 0 \<Longrightarrow> q AND 3 = 0 \<Longrightarrow> (p + q) AND 3 = 0"
  using take_bit_2_add [of p q] by (simp only: aligned_take_bit) simp

subsection \<open>Archives\<close>

definition trailer_name :: "u8 list" where "trailer_name = bytes_of ''TRAILER!!!''"

definition bytes_at :: "bytes \<Rightarrow> u64 \<Rightarrow> u8 list \<Rightarrow> bool" where
  "bytes_at m a d \<longleftrightarrow> (\<forall>i\<in>set [0..<length d]. m (a + of_nat i) = d ! i)"

definition data_addr :: "bytes \<Rightarrow> u64 \<Rightarrow> u64" where
  "data_addr m p = align4 (p + CPIO_HEADER_SIZE + c_namesize m p)"

definition following :: "bytes \<Rightarrow> u64 \<Rightarrow> u64" where
  "following m p = align4 (data_addr m p + c_filesize m p)"

text \<open>An archive at \<open>p\<close> with the given entries, names and contents, before the end marker.\<close>

fun archive_at :: "bytes \<Rightarrow> u64 \<Rightarrow> (u8 list \<times> u8 list) list \<Rightarrow> bool" where
  "archive_at m p [] \<longleftrightarrow> magic_ok 5 m p \<and> cstring m (p + CPIO_HEADER_SIZE) trailer_name"
| "archive_at m p ((n, d) # es) \<longleftrightarrow>
     magic_ok 5 m p \<and> cstring m (p + CPIO_HEADER_SIZE) n \<and> n \<noteq> trailer_name \<and>
     c_filesize m p = of_nat (length d) \<and> length d < 2 ^ 32 \<and> bytes_at m (data_addr m p) d \<and>
     archive_at m (following m p) es"

lemma magic_4: "magic_ok 5 m p \<Longrightarrow> magic_ok 4 m p"
  by (auto simp: magic_ok_def)

lemma archive_magic: "archive_at m p es \<Longrightarrow> magic_ok 5 m p"
  by (cases "(m, p, es)" rule: archive_at.cases) auto

lemma next_header_following: "p AND 3 = 0 \<Longrightarrow> next_header m p = following m p"
proof -
  assume p: "p AND 3 = 0"
  have "following m p = data_addr m p + align4 (c_filesize m p)"
    unfolding following_def by (rule align4_add) (simp add: data_addr_def align4_aligned)
  moreover have "data_addr m p = p + align4 (CPIO_HEADER_SIZE + c_namesize m p)"
    using align4_add [OF p, of "CPIO_HEADER_SIZE + c_namesize m p"] by (simp add: data_addr_def add.assoc)
  ultimately show ?thesis by (simp add: next_header_def)
qed

lemma following_aligned: "following m p AND 3 = 0"
  by (simp add: following_def align4_aligned)

lemma data_addr_ls: "p AND 3 = 0 \<Longrightarrow> p + align4 (CPIO_HEADER_SIZE + c_namesize m p) = data_addr m p"
  using align4_add [of p "CPIO_HEADER_SIZE + c_namesize m p"] by (simp add: data_addr_def add.assoc)

lemma string_at_cstring: "cstring m p s \<Longrightarrow> string_at m p = Some s"
  by (induction m p s rule: cstring.induct) (subst string_at.simps; simp)+

lemma name_compare: "cstring m p s \<Longrightarrow> cstring m q t \<Longrightarrow> \<exists>d. strcmp m p q = Some d \<and> (d = 0 \<longleftrightarrow> s = t)"
  using strcmp_str_diff [of m p s q t] str_diff_zero [of s t] cstring_nonzero by auto

subsection \<open>Lookup\<close>

lemma find_from_correct:
  "archive_at m p es \<Longrightarrow> cstring m trailer trailer_name \<Longrightarrow> cstring m target name \<Longrightarrow>
   (case map_of es name of
      None \<Rightarrow> cpio_find_from m trailer target p = Some Not_Found
    | Some d \<Rightarrow> \<exists>a. cpio_find_from m trailer target p = Some (Found a (of_nat (length d))) \<and> bytes_at m a d)"
proof (induction m p es rule: archive_at.induct)
  case (1 m p)
  obtain d where d: "strcmp m (p + 110) trailer = Some d" "d = 0"
    using name_compare [OF _ 1(2), of "p + 110" trailer_name] 1(1) by (auto simp: CPIO_HEADER_SIZE_def)
  then show ?case using 1(1) magic_4 by (subst cpio_find_from.simps) simp
next
  case (2 m p n x es)
  obtain d where d: "strcmp m (p + 110) trailer = Some d" "d \<noteq> 0"
    using name_compare [OF _ 2(3), of "p + 110" n] 2(2) by (auto simp: CPIO_HEADER_SIZE_def)
  obtain d' where d': "strcmp m (p + 110) target = Some d'" "d' = 0 \<longleftrightarrow> n = name"
    using name_compare [OF _ 2(4), of "p + 110" n] 2(2) by (auto simp: CPIO_HEADER_SIZE_def)
  have step: "cpio_find_from m trailer target p =
      (if n = name then Some (Found (data_addr m p) (c_filesize m p))
       else cpio_find_from m trailer target (following m p))"
    using 2(2) magic_4 [of m p] d d'
    by (subst cpio_find_from.simps) (simp add: data_addr_def following_def CPIO_HEADER_SIZE_def)
  show ?case using 2 step by (cases "n = name") (auto split: option.splits)
qed

subsection \<open>Listing and contents\<close>

lemma count_correct:
  "archive_at m p es \<Longrightarrow> cstring m trailer trailer_name \<Longrightarrow> p AND 3 = 0 \<Longrightarrow>
   cpio_count m trailer p c = Some (Some (c + of_nat (length es)))"
proof (induction m p es arbitrary: c rule: archive_at.induct)
  case (1 m p)
  then show ?case
    using name_compare [OF _ 1(2), of "p + CPIO_HEADER_SIZE" trailer_name]
    by (subst cpio_count.simps) (auto simp: cpio_strcmp_eq)
next
  case (2 m p n x es)
  then show ?case
    using name_compare [OF _ 2(3), of "p + CPIO_HEADER_SIZE" n] following_aligned [of m p]
    by (subst cpio_count.simps) (auto simp: cpio_strcmp_eq next_header_following algebra_simps)
qed

fun list_line :: "u8 list \<times> u8 list \<Rightarrow> u8 list" where
  "list_line (n, d) = decimal (length d) @ [9] @ n @ [10]"

lemma list_correct:
  "archive_at m p es \<Longrightarrow> cstring m trailer trailer_name \<Longrightarrow> p AND 3 = 0 \<Longrightarrow>
   cpio_list m trailer p = Some (concat (map list_line es))"
proof (induction m p es rule: archive_at.induct)
  case (1 m p)
  then show ?case
    using name_compare [OF _ 1(2), of "p + CPIO_HEADER_SIZE" trailer_name]
    by (subst cpio_list.simps) (auto simp: cpio_strcmp_eq)
next
  case (2 m p n x es)
  then show ?case
    using name_compare [OF _ 2(3), of "p + CPIO_HEADER_SIZE" n] following_aligned [of m p] unat_of_nat_small [of "length x"]
    by (subst cpio_list.simps)
       (auto simp: cpio_strcmp_eq next_header_following string_at_cstring)
qed

definition with_newline :: "u8 list \<Rightarrow> u8 list" where
  "with_newline d = (if d = [] \<or> last d \<noteq> 10 then d @ [10] else d)"

lemma bytes_at_map: "bytes_at m a d \<Longrightarrow> map (\<lambda>i. m (a + of_nat i)) [0..<length d] = d"
  by (intro nth_equalityI) (auto simp: bytes_at_def)

lemma bytes_at_last:
  assumes "bytes_at m a d" "d \<noteq> []"
  shows "m (a + (of_nat (length d) - 1)) = last d"
proof -
  have "(of_nat (length d) :: u64) - 1 = of_nat (length d - 1)" using assms(2) by (cases d) auto
  then show ?thesis using assms by (simp add: bytes_at_def last_conv_nth)
qed

lemma cat_from_correct:
  "archive_at m p es \<Longrightarrow> cstring m trailer trailer_name \<Longrightarrow> cstring m filename name \<Longrightarrow> p AND 3 = 0 \<Longrightarrow>
   cpio_cat_from m trailer filename p =
     Some (case map_of es name of None \<Rightarrow> not_found_text name | Some d \<Rightarrow> with_newline d)"
proof (induction m p es rule: archive_at.induct)
  case (1 m p)
  then show ?case
    using name_compare [OF _ 1(2), of "p + CPIO_HEADER_SIZE" trailer_name] string_at_cstring [OF 1(3)]
    by (subst cpio_cat_from.simps) (auto simp: cpio_strcmp_eq)
next
  case (2 m p n x es)
  obtain d where d: "strcmp m (p + CPIO_HEADER_SIZE) trailer = Some d" "d \<noteq> 0"
    using name_compare [OF _ 2(3), of "p + CPIO_HEADER_SIZE" n] 2(2) by auto
  obtain d' where d': "strcmp m (p + CPIO_HEADER_SIZE) filename = Some d'" "d' = 0 \<longleftrightarrow> n = name"
    using name_compare [OF _ 2(4), of "p + CPIO_HEADER_SIZE" n] 2(2) by auto
  show ?case
  proof (cases "n = name")
    case False
    then show ?thesis
      using 2 d d' following_aligned [of m p]
      by (subst cpio_cat_from.simps) (simp add: cpio_strcmp_eq next_header_following)
  next
    case True
    have x: "unat (of_nat (length x) :: u64) = length x" "(of_nat (length x) :: u64) = 0 \<longleftrightarrow> x = []"
      using 2(2) unat_of_nat_small [of "length x"] by (auto simp: word_unat_eq_iff)
    then show ?thesis
      using 2(2,5) d d' True bytes_at_map [of m "data_addr m p" x] bytes_at_last [of m "data_addr m p" x]
      by (subst cpio_cat_from.simps) (auto simp: cpio_strcmp_eq with_newline_def data_addr_ls Let_def)
  qed
qed

subsection \<open>Hexadecimal numbers\<close>

lemma hex_digit_char: "hex_digit (ucast (ucast (hex_char h c) :: u32)) = drop_bit c h AND 0xf"
proof -
  define n where "n = drop_bit c h AND 0xf"
  have char: "hex_char h c = n + (if n > 9 then 0x57 else 48)" by (simp add: hex_char_def n_def Let_def)
  have "unat n < 16" using nibble_cases [of c h] by (simp add: n_def)
  then have "n \<in> {0, 1, 2, 3, 4, 5, 6, 7, 8, 9, 10, 11, 12, 13, 14, 15}"
    using less_16_cases [of "unat n"] less_10_cases [of "unat n"] by (auto simp: word_unat_eq_iff)
  then have "hex_digit (ucast (ucast (n + (if n > 9 then 0x57 else 48)) :: u32)) = n"
    by (elim insertE) (simp_all only:, simp_all add: hex_digit_def)
  then show ?thesis unfolding char [symmetric] by (simp add: n_def)
qed

lemma hex_step: "push_bit 4 (drop_bit (c + 4) h) OR (drop_bit c h AND 0xf) = drop_bit c (h :: u64)"
proof -
  have "drop_bit c h AND 0xf = take_bit 4 (drop_bit c h)" by (simp add: take_bit_eq_mask mask_eq_exp_minus_1)
  moreover have "drop_bit (c + 4) h = drop_bit 4 (drop_bit c h)" by (simp add: add.commute)
  ultimately show ?thesis by (auto intro!: bit_word_eqI simp: bit_simps)
qed

lemma hex_read_back:
  assumes "bytes_at m p (hex_text h)" "n \<le> 16"
  shows "hex_to_ul m p n = drop_bit (64 - 4 * n) h"
  using assms(2)
proof (induction n)
  case 0
  have "drop_bit 64 h = 0" by (rule bit_word_eqI) (auto simp: bit_simps dest: bit_imp_le_length)
  then show ?case by (simp add: hex_to_ul_def)
next
  case (Suc n)
  have "length (hex_text h) = 16" "hex_text h ! n = ucast (ucast (hex_char h (4 * (15 - n))) :: u32)"
    using Suc.prems by (simp_all add: hex_text_def rev_nth)
  then have "m (p + of_nat n) = ucast (ucast (hex_char h (4 * (15 - n))) :: u32)"
    using assms(1) Suc.prems by (simp add: bytes_at_def)
  then have d: "hex_digit (m (p + of_nat n)) = drop_bit (4 * (15 - n)) h AND 0xf" by (simp only: hex_digit_char)
  have "64 - 4 * n = 4 * (15 - n) + 4" "64 - 4 * Suc n = 4 * (15 - n)" using Suc.prems by auto
  moreover have "hex_to_ul m p (Suc n) = push_bit 4 (hex_to_ul m p n) OR hex_digit (m (p + of_nat n))"
    by (simp add: hex_to_ul_def)
  ultimately show ?case using Suc d hex_step [of "4 * (15 - n)" h] by simp
qed

subsection \<open>An example archive\<close>

definition blob :: "u64 \<Rightarrow> u8 list \<Rightarrow> bytes" where
  "blob base bs a = (if unat (a - base) < length bs then bs ! unat (a - base) else 0)"

text \<open>One file \<^verbatim>\<open>f\<close> with the contents \<^verbatim>\<open>ok\<close> at \<open>0x1000\<close>, and the two literals the walks compare with.\<close>

definition example_header :: "string \<Rightarrow> string \<Rightarrow> u8 list" where
  "example_header filesize namesize =
     bytes_of ''070701'' @ replicate 48 48 @ bytes_of filesize @ replicate 32 48 @ bytes_of namesize @ replicate 8 48"

definition example_archive :: bytes where
  "example_archive a =
     (if a < 0x2000
      then blob 0x1000 (example_header ''00000002'' ''00000002'' @ [102, 0] @ [111, 107, 0, 0] @
             example_header ''00000000'' ''0000000b'' @ trailer_name @ [0]) a
      else if a < 0x3000 then blob 0x2000 [102, 0] a else blob 0x3000 (trailer_name @ [0]) a)"

lemma upt_8: "[0..<8] = [0, 1, 2, 3, 4, 5, 6, 7]" "[0..<5] = [0, 1, 2, 3, 4]"
  by (simp_all add: upt_rec)

lemmas example_simps = example_archive_def blob_def example_header_def bytes_of_def nth_append trailer_name_def
  nth_Cons'

lemma example_fields:
  "c_filesize example_archive 0x1000 = 2" "c_namesize example_archive 0x1000 = 2"
  by (simp_all add: c_filesize_def c_namesize_def hex_to_ul_def upt_8 example_simps hex_digit_def)

lemma example_archive_ok:
  "archive_at example_archive 0x1000 [([102], [111, 107])]"
  "cstring example_archive 0x3000 trailer_name" "cstring example_archive 0x2000 [102]"
proof -
  have m: "magic_ok 5 example_archive 0x1000" "magic_ok 5 example_archive 0x1074"
    unfolding magic_ok_def upt_8 by (simp_all add: example_simps)
  have n: "data_addr example_archive 0x1000 = 0x1070" "following example_archive 0x1000 = 0x1074"
    by (simp_all add: data_addr_def following_def example_fields align4_def CPIO_HEADER_SIZE_def)
  have t: "cstring example_archive 0x10e2 trailer_name" "cstring example_archive 0x106e [102]"
    by (simp_all add: example_simps)
  have d: "bytes_at example_archive 0x1070 [111, 107]"
    by (simp add: bytes_at_def upt_rec example_simps)
  show "archive_at example_archive 0x1000 [([102], [111, 107])]"
    using m n t d by (simp add: example_fields CPIO_HEADER_SIZE_def) (simp add: trailer_name_def bytes_of_def)
  show "cstring example_archive 0x3000 trailer_name" "cstring example_archive 0x2000 [102]"
    by (simp_all add: example_simps)
qed

subsection \<open>Properties\<close>

text \<open>C13: the private string comparison of the ram disk reader is the kernel's \<^verbatim>\<open>strcmp\<close>: same result on
  every memory and every two pointers, and neither returns when the other does not. On two
  strings the result is zero exactly when they are equal and negative exactly when the first is
  lexicographically smaller.\<close>

theorem strcmp_correct:
  "cpio_strcmp m p q = strcmp m p q \<and>
   (\<forall>s t. cstring m p s \<and> cstring m q t \<longrightarrow>
      (\<exists>d. strcmp m p q = Some d \<and> (d = 0 \<longleftrightarrow> s = t) \<and> (d < 0 \<longleftrightarrow> ord_class.lexordp s t)))"
  using cpio_strcmp_eq strcmp_str_diff str_diff_zero str_diff_less cstring_nonzero by blast

theorem strcmp_correct_witness:
  "\<exists>d. strcmp example_archive 0x2000 0x3000 = Some d \<and> d \<noteq> 0 \<and> cpio_strcmp example_archive 0x2000 0x3000 = Some d"
proof -
  have "[102] \<noteq> trailer_name" by (simp add: trailer_name_def bytes_of_def)
  then show ?thesis
    using strcmp_correct [of example_archive "0x2000" "0x3000"] example_archive_ok(2,3) by fastforce
qed

text \<open>C14: on a well-formed archive \<^verbatim>\<open>cpio_find\<close> returns, and finds exactly the first entry of the given
  name: address and size of its contents, or failure when there is none. It never stops on a
  bad header or runs on.\<close>

theorem cpio_find_correct:
  assumes "archive_at m cpio_addr es" "cstring m trailer trailer_name" "cstring m target name"
    "archive \<noteq> NULL" "target \<noteq> NULL"
  shows "case map_of es name of
      None \<Rightarrow> cpio_find m trailer cpio_addr archive target = Some Not_Found
    | Some d \<Rightarrow> \<exists>a. cpio_find m trailer cpio_addr archive target = Some (Found a (of_nat (length d))) \<and> bytes_at m a d"
proof -
  have "cpio_find m trailer cpio_addr archive target = cpio_find_from m trailer target cpio_addr"
    using assms(4,5) by (simp add: cpio_find_def)
  then show ?thesis using find_from_correct [OF assms(1-3)] by (simp only:)
qed

theorem cpio_find_correct_witness:
  "\<exists>a. cpio_find example_archive 0x3000 0x1000 1 0x2000 = Some (Found a 2) \<and> bytes_at example_archive a [111, 107]"
  using cpio_find_correct [OF example_archive_ok, of 1] by simp

text \<open>C15: the two printing walks agree with the archive: \<^verbatim>\<open>cpio_ls\<close> prints the number of entries and
  one line per entry, \<^verbatim>\<open>cpio_cat\<close> the contents of the first entry of the given name, ended by a
  line feed, or a message. (They align offsets from the start of the archive, \<^verbatim>\<open>cpio_find\<close> aligns
  addresses; both step alike on a word-aligned archive.)\<close>

theorem cpio_print_correct:
  assumes "archive_at m addr es" "cstring m trailer trailer_name" "cstring m filename name"
    "addr AND 3 = 0" "length es < 2 ^ 64"
  shows "cpio_ls m trailer addr =
      Some (bytes_of ''Total '' @ decimal (length es) @ bytes_of '' files.'' @ [10] @ concat (map list_line es)) \<and>
    cpio_cat m trailer addr filename =
      Some (case map_of es name of None \<Rightarrow> not_found_text name | Some d \<Rightarrow> with_newline d)"
  using count_correct [OF assms(1,2,4), of 0] list_correct [OF assms(1,2,4)] cat_from_correct [OF assms(1-4)]
    unat_of_nat_small [OF assms(5)]
  by (simp add: cpio_ls_def cpio_cat_def)

theorem cpio_print_correct_witness:
  "cpio_cat example_archive 0x3000 0x1000 0x2000 = Some [111, 107, 10]"
  using cpio_print_correct [OF example_archive_ok] by (simp add: with_newline_def)

lemma hex_from_progress:
  "uart_inv s \<Longrightarrow> 2 * n + k \<le> ready_count es \<Longrightarrow>
   \<exists>es' s'. uart_hex_from n h es s = Some (es', s') \<and> k \<le> ready_count es'"
proof (induction n arbitrary: es s)
  case (Suc n)
  obtain es1 s1 where a: "uart_putc (ucast (hex_char h (4 * n))) es s = Some (es1, s1)" "2 * n + k \<le> ready_count es1"
    using putc_progress [OF Suc.prems(1), of "2 * n + k" es "ucast (hex_char h (4 * n))"] Suc.prems(2) by auto
  have "uart_inv s1" using putc_moved [OF Suc.prems(1) a(1)] by (auto simp: moved_def)
  then show ?case using Suc.IH [OF _ a(2)] a(1) by auto
qed simp

lemma hex_progress:
  assumes inv: "uart_inv s" and n: "36 \<le> ready_count es"
  shows "\<exists>es' s'. uart_hex h es s = Some (es', s')"
proof -
  let ?s = "s\<lparr>sie := False\<rparr>\<lparr>sie := False\<rparr>"
  have inv': "uart_inv ?s" using inv by (simp add: uart_inv_def)
  obtain es1 s1 where a: "uart_putcs [48, 120] es ?s = Some (es1, s1)" "32 \<le> ready_count es1"
    using putcs_progress [OF inv', of "[48, 120]" 32 es] n by auto
  have "uart_inv (csrs False s1)" using putcs_moved [OF inv' a(1)] by (auto simp: moved_def csrs_def uart_inv_def)
  then obtain es2 s2 where b: "uart_hex_from 16 h es1 (csrs False s1) = Some (es2, s2)"
    using hex_from_progress [of "csrs False s1" 16 0 es1 h] a(2) by auto
  have "uart_puts [48, 120] es (s\<lparr>sie := False\<rparr>) = Some (es1, csrs False s1)"
    using a(1) by (simp add: uart_puts_def csrrci_def)
  then show ?thesis using b by (simp add: uart_hex_def csrrci_def)
qed

text \<open>For any number \<^verbatim>\<open>uart_hex\<close> returns, and the hexadecimal number it prints after its prefix is read back by
  \<^verbatim>\<open>hex_to_ul\<close> as the same number, for all 64 bits.\<close>

theorem uart_hex_roundtrip:
  assumes "uart_inv s" "36 \<le> ready_count es"
  shows "\<exists>es' s' ds. uart_hex h es s = Some (es', s') \<and>
    thr_log s' @ tx_queue s' = thr_log s @ tx_queue s @ bytes_of ''0x'' @ ds \<and> length ds = 16 \<and>
    (\<forall>m p. bytes_at m p ds \<longrightarrow> hex_to_ul m p 16 = h)"
proof -
  obtain es' s' where ret: "uart_hex h es s = Some (es', s')" using hex_progress [OF assms] by blast
  have "length (hex_text h) = 16" "\<And>m p. bytes_at m p (hex_text h) \<Longrightarrow> hex_to_ul m p 16 = h"
    using hex_read_back [of _ _ h 16] by (simp_all add: hex_text_def)
  then show ?thesis using hex_moved [OF assms(1) ret] ret by (auto simp: moved_def sent_def bytes_of_def)
qed

end
