(* ===== verification/Dtb.thy ===== *)
theory Dtb
  imports Buddy Utils "HOL-Library.Monad_Syntax"
begin

text \<open>
  The flattened device tree reader \<^verbatim>\<open>kernel/src/dtb.c\<close> on byte memory. The global \<^verbatim>\<open>dtb_addr\<close> is an
  argument. Paths and property names are string literals in every call, given by their
  characters. The scans for a terminating zero and the loops over the structure block need not
  end on a malformed tree, so they are partial functions.
\<close>

subsection \<open>Words and strings\<close>

definition FDT_BEGIN_NODE :: u32 where "FDT_BEGIN_NODE = 1"
definition FDT_END_NODE :: u32 where "FDT_END_NODE = 2"
definition FDT_PROP :: u32 where "FDT_PROP = 3"
definition FDT_NOP :: u32 where "FDT_NOP = 4"
definition FDT_END :: u32 where "FDT_END = 9"
definition FDT_HEADER_MAGIC :: u32 where "FDT_HEADER_MAGIC = 0xD00DFEED"

lemmas fdt_tokens = FDT_BEGIN_NODE_def FDT_END_NODE_def FDT_PROP_def FDT_NOP_def FDT_END_def

text \<open>A 32-bit load of the little-endian machine.\<close>

definition load32 :: "bytes \<Rightarrow> u64 \<Rightarrow> u32" where
  "load32 m a = ucast (m a) OR push_bit 8 (ucast (m (a + 1))) OR push_bit 16 (ucast (m (a + 2))) OR
     push_bit 24 (ucast (m (a + 3)))"

definition bswap_32 :: "u32 \<Rightarrow> u32" where
  "bswap_32 x =
     drop_bit 24 (x AND 0xFF000000) OR drop_bit 8 (x AND 0x00FF0000) OR
     push_bit 8 (x AND 0x0000FF00) OR push_bit 24 (x AND 0x000000FF)"

definition bswap_64 :: "u64 \<Rightarrow> u64" where
  "bswap_64 x =
     (let hi = bswap_32 (ucast (drop_bit 32 x)); lo = bswap_32 (ucast (x AND 0xFFFFFFFF))
      in push_bit 32 (ucast hi) OR ucast lo)"

definition align_32 :: "u64 \<Rightarrow> u64" where
  "align_32 addr = (addr + 3) AND NOT 3"

text \<open>\<open>64\<close> is the character \<open>@\<close>, \<open>47\<close> the slash.\<close>

fun node_name_match :: "bytes \<Rightarrow> u64 \<Rightarrow> u8 list \<Rightarrow> bool" where
  "node_name_match m node_name [] \<longleftrightarrow> m node_name = 0 \<or> m node_name = 64"
| "node_name_match m node_name (c # seg) \<longleftrightarrow>
     (if m node_name = 0 \<or> m node_name = 64 then False
      else if m node_name \<noteq> c then False
      else node_name_match m (node_name + 1) seg)"

text \<open>The \<open>idx\<close>-th component of the rest \<open>p\<close> of a path, which starts with component \<open>i\<close>.\<close>

function path_segment_from :: "u8 list \<Rightarrow> int \<Rightarrow> int \<Rightarrow> u8 list option" where
  "path_segment_from p i idx =
     (if p = [] then None
      else let start = takeWhile (\<lambda>c. c \<noteq> 47) p; p' = dropWhile (\<lambda>c. c \<noteq> 47) p
           in if i = idx then Some start
              else path_segment_from (if p' \<noteq> [] then tl p' else p') (i + 1) idx)"
  by pat_completeness auto
termination
proof (relation "measure (\<lambda>(p, i, idx). length p)")
  fix p :: "u8 list" and i idx :: int and p'
  assume p: "p \<noteq> []" "p' = dropWhile (\<lambda>c. c \<noteq> 47) p"
  have "length p' \<le> length p" unfolding p(2) by (rule length_dropWhile_le)
  then have "length (if p' \<noteq> [] then tl p' else p') < length p" using p(1) by (cases p') auto
  then show "((if p' \<noteq> [] then tl p' else p', i + 1, idx), p, i, idx) \<in> measure (\<lambda>(p, i, idx). length p)" by simp
qed simp

declare path_segment_from.simps [simp del]

definition path_segment :: "u8 list \<Rightarrow> int \<Rightarrow> u8 list option" where
  "path_segment path idx =
     (if path = [] \<or> hd path \<noteq> 47 then None else path_segment_from (tl path) 0 idx)"

definition path_depth :: "u8 list \<Rightarrow> int" where
  "path_depth path =
     (if path = [] \<or> hd path \<noteq> 47 then - 1
      else if tl path = [] then 0
      else fold (\<lambda>c n. if c = 47 then n + 1 else n) (tl path) 0 + 1)"

text \<open>The address behind the terminating zero of a string.\<close>

partial_function (option) skip_string :: "bytes \<Rightarrow> u64 \<Rightarrow> u64 option" where
  "skip_string m cur = (if m cur \<noteq> 0 then skip_string m (cur + 1) else Some (cur + 1))"

subsection \<open>Properties\<close>

definition fdt_magic :: "bytes \<Rightarrow> u64 \<Rightarrow> u32" where
  "fdt_magic m header = bswap_32 (load32 m header)"

definition off_dt_struct :: "bytes \<Rightarrow> u64 \<Rightarrow> u32" where
  "off_dt_struct m header = bswap_32 (load32 m (header + 8))"

definition off_dt_strings :: "bytes \<Rightarrow> u64 \<Rightarrow> u32" where
  "off_dt_strings m header = bswap_32 (load32 m (header + 12))"

definition size_dt_struct :: "bytes \<Rightarrow> u64 \<Rightarrow> u32" where
  "size_dt_struct m header = bswap_32 (load32 m (header + 36))"

text \<open>The depth of the target node after entering the node \<open>name\<close> at \<open>depth\<close>, if none was matched.\<close>

definition match_node :: "bytes \<Rightarrow> u8 list \<Rightarrow> int \<Rightarrow> u64 \<Rightarrow> int \<Rightarrow> int \<Rightarrow> int" where
  "match_node m path wanted_depth name depth matched =
     (if matched < 0 then
        if depth = 0 then (if wanted_depth = 0 then 0 else matched)
        else case path_segment path (depth - 1) of
               None \<Rightarrow> matched
             | Some seg \<Rightarrow>
                 (if node_name_match m name (take 63 seg) \<and> depth = wanted_depth then depth else matched)
      else matched)"

text \<open>The result: the returned pointer and what is stored through \<^verbatim>\<open>lenp\<close>.\<close>

partial_function (option) getprop_loop ::
  "bytes \<Rightarrow> u64 \<Rightarrow> u8 list \<Rightarrow> u8 list \<Rightarrow> int \<Rightarrow> u64 \<Rightarrow> u64 \<Rightarrow> int \<Rightarrow> int \<Rightarrow> (u64 \<times> int) option" where
  "getprop_loop m dt_strings path prop_name wanted_depth struct_end cur current_depth matched_depth =
     (if cur < struct_end then
        (let token = bswap_32 (load32 m cur); cur = cur + 4
         in if token = FDT_BEGIN_NODE then
              do {
                past \<leftarrow> skip_string m cur;
                let depth = current_depth + 1;
                getprop_loop m dt_strings path prop_name wanted_depth struct_end (align_32 past) depth
                  (match_node m path wanted_depth cur depth matched_depth)
              }
            else if token = FDT_END_NODE then
              getprop_loop m dt_strings path prop_name wanted_depth struct_end cur (current_depth - 1)
                (if matched_depth = current_depth then - 1 else matched_depth)
            else if token = FDT_PROP then
              (let prop_len = bswap_32 (load32 m cur);
                   name = dt_strings + ucast (bswap_32 (load32 m (cur + 4)));
                   data = cur + 8
               in if matched_depth \<ge> 0 \<and> strcmp_lit m name prop_name = 0 then Some (data, sint prop_len)
                  else getprop_loop m dt_strings path prop_name wanted_depth struct_end
                         (align_32 (data + ucast prop_len)) current_depth matched_depth)
            else if token = FDT_NOP then
              getprop_loop m dt_strings path prop_name wanted_depth struct_end cur current_depth matched_depth
            else Some (NULL, 0))
      else Some (NULL, 0))"

definition dtb_getprop :: "bytes \<Rightarrow> u64 \<Rightarrow> u8 list \<Rightarrow> u8 list \<Rightarrow> (u64 \<times> int option) option" where
  "dtb_getprop m dtb_addr node_path prop_name =
     (if dtb_addr = NULL then Some (NULL, None)
      else if fdt_magic m dtb_addr \<noteq> FDT_HEADER_MAGIC then Some (NULL, None)
      else let dt_struct = dtb_addr + ucast (off_dt_struct m dtb_addr)
           in map_option (\<lambda>(p, len). (p, Some len))
                (getprop_loop m (dtb_addr + ucast (off_dt_strings m dtb_addr)) node_path prop_name
                   (path_depth node_path) (dt_struct + ucast (size_dt_struct m dtb_addr)) dt_struct (- 1) (- 1)))"

text \<open>A caller's \<^verbatim>\<open>int len = 0\<close> keeps its value when nothing is stored.\<close>

definition stored_len :: "int option \<Rightarrow> int" where
  "stored_len l = (case l of None \<Rightarrow> 0 | Some n \<Rightarrow> n)"

definition cell32 :: "bytes \<Rightarrow> u64 \<Rightarrow> nat \<Rightarrow> u64" where
  "cell32 m p i = ucast (bswap_32 (load32 m (p + 4 * of_nat i)))"

definition dtb_get_reg :: "bytes \<Rightarrow> u64 \<Rightarrow> u8 list \<Rightarrow> u64 option" where
  "dtb_get_reg m dtb_addr path =
     do {
       (val, l) \<leftarrow> dtb_getprop m dtb_addr path (bytes_of ''reg'');
       let len = stored_len l;
       Some (if val = NULL \<or> len < 4 then 0
             else if len \<ge> 8 then push_bit 32 (cell32 m val 0) OR cell32 m val 1
             else cell32 m val 0)
     }"

definition initrd_start_name :: "u8 list" where
  "initrd_start_name = bytes_of ''linux,initrd-start''"

text \<open>The new value of the global \<^verbatim>\<open>cpio_addr\<close>.\<close>

definition dtb_load_initrd_addr :: "bytes \<Rightarrow> u64 \<Rightarrow> u64 \<Rightarrow> u64 option" where
  "dtb_load_initrd_addr m dtb_addr cpio_addr =
     do {
       (prop, l) \<leftarrow> dtb_getprop m dtb_addr (bytes_of ''/chosen'') initrd_start_name;
       let len = stored_len l;
       Some (if prop = NULL \<or> len = 0 then cpio_addr
             else if len \<ge> 8 then push_bit 32 (cell32 m prop 0) OR cell32 m prop 1
             else cell32 m prop 0)
     }"

definition dtb_get_totalsize :: "bytes \<Rightarrow> u64 \<Rightarrow> u64" where
  "dtb_get_totalsize m dtb_addr =
     (if dtb_addr = NULL then 0 else ucast (bswap_32 (load32 m (dtb_addr + 4))))"

definition dtb_get_memory_region :: "bytes \<Rightarrow> u64 \<Rightarrow> (u64 \<times> u64) option" where
  "dtb_get_memory_region m dtb_addr =
     do {
       (prop, l) \<leftarrow> dtb_getprop m dtb_addr (bytes_of ''/memory'') (bytes_of ''reg'');
       let len = stored_len l;
       Some (if prop = NULL \<or> len < 4 then (0, 0)
             else if len \<ge> 16 then (push_bit 32 (cell32 m prop 0) OR cell32 m prop 1,
                                    push_bit 32 (cell32 m prop 2) OR cell32 m prop 3)
             else if len \<ge> 8 then (cell32 m prop 0, cell32 m prop 1)
             else (0, 0))
     }"

subsection \<open>Reserved memory\<close>

text \<open>The region a \<^verbatim>\<open>reg\<close> property of the given length describes, if it is long enough.\<close>

definition reserve_reg :: "bytes \<Rightarrow> u64 \<Rightarrow> u32 \<Rightarrow> 'a buddy_state_scheme \<Rightarrow> 'a buddy_state_scheme" where
  "reserve_reg m val prop_len s =
     (if prop_len \<ge> 16
      then memory_reserve (push_bit 32 (cell32 m val 0) OR cell32 m val 1)
             (push_bit 32 (cell32 m val 2) OR cell32 m val 3) s
      else if prop_len \<ge> 8 then memory_reserve (cell32 m val 0) (cell32 m val 1) s
      else s)"

partial_function (option) reserve_loop ::
  "bytes \<Rightarrow> u64 \<Rightarrow> u64 \<Rightarrow> u64 \<Rightarrow> int \<Rightarrow> int \<Rightarrow> 'a buddy_state_scheme \<Rightarrow> 'a buddy_state_scheme option" where
  "reserve_loop m dt_strings struct_end cur current_depth reserved_memory_depth s =
     (if cur < struct_end then
        (let token = bswap_32 (load32 m cur); cur = cur + 4
         in if token = FDT_BEGIN_NODE then
              do {
                past \<leftarrow> skip_string m cur;
                let depth = current_depth + 1;
                reserve_loop m dt_strings struct_end (align_32 past) depth
                  (if reserved_memory_depth < 0 \<and> depth = 1 \<and> node_name_match m cur (bytes_of ''reserved-memory'')
                   then depth else reserved_memory_depth) s
              }
            else if token = FDT_END_NODE then
              reserve_loop m dt_strings struct_end cur (current_depth - 1)
                (if reserved_memory_depth = current_depth then - 1 else reserved_memory_depth) s
            else if token = FDT_PROP then
              (let prop_len = bswap_32 (load32 m cur);
                   name = dt_strings + ucast (bswap_32 (load32 m (cur + 4)));
                   prop_val = cur + 8;
                   s' = (if reserved_memory_depth \<ge> 0 \<and> current_depth = reserved_memory_depth + 1 \<and>
                            strcmp_lit m name (bytes_of ''reg'') = 0
                         then reserve_reg m prop_val prop_len s else s)
               in reserve_loop m dt_strings struct_end (align_32 (prop_val + ucast prop_len)) current_depth
                    reserved_memory_depth s')
            else if token = FDT_NOP then
              reserve_loop m dt_strings struct_end cur current_depth reserved_memory_depth s
            else Some s)
      else Some s)"

definition dtb_find_and_reserve_memory :: "bytes \<Rightarrow> u64 \<Rightarrow> 'a buddy_state_scheme \<Rightarrow> 'a buddy_state_scheme option" where
  "dtb_find_and_reserve_memory m dtb_addr s =
     (if dtb_addr = NULL then Some s
      else if fdt_magic m dtb_addr \<noteq> FDT_HEADER_MAGIC then Some s
      else let dt_struct = dtb_addr + ucast (off_dt_struct m dtb_addr)
           in reserve_loop m (dtb_addr + ucast (off_dt_strings m dtb_addr))
                (dt_struct + ucast (size_dt_struct m dtb_addr)) dt_struct (- 1) (- 1) s)"

end
