(* ===== verification/Dtb_Spec.thy ===== *)
theory Dtb_Spec
  imports Dtb
begin

text \<open>
  The device tree reader against trees: a structure block in memory encodes a sequence of tokens,
  the tokens of a tree; the two scanning loops compute a search of the tree.
\<close>

subsection \<open>Byte order\<close>

lemma bswap_pieces:
  "bit (drop_bit 24 ((x :: u32) AND push_bit 24 (mask 8))) n \<longleftrightarrow> n < 8 \<and> bit x (n + 24)"
  "bit (drop_bit 8 (x AND push_bit 16 (mask 8))) n \<longleftrightarrow> 8 \<le> n \<and> n < 16 \<and> bit x (n + 8)"
  "bit (push_bit 8 (x AND push_bit 8 (mask 8))) n \<longleftrightarrow> 16 \<le> n \<and> n < 24 \<and> bit x (n - 8)"
  "bit (push_bit 24 (x AND mask 8)) n \<longleftrightarrow> 24 \<le> n \<and> n < 32 \<and> bit x (n - 24)"
  by (auto simp: bit_simps add.commute)

lemma bit_bswap_32:
  "bit (bswap_32 x) n \<longleftrightarrow> n < 8 \<and> bit x (n + 24) \<or> 8 \<le> n \<and> n < 16 \<and> bit x (n + 8) \<or>
     16 \<le> n \<and> n < 24 \<and> bit x (n - 8) \<or> 24 \<le> n \<and> n < 32 \<and> bit x (n - 24)"
proof -
  have mask: "(0xFF000000 :: u32) = push_bit 24 (mask 8)" "(0x00FF0000 :: u32) = push_bit 16 (mask 8)"
    "(0x0000FF00 :: u32) = push_bit 8 (mask 8)" "(0x000000FF :: u32) = mask 8"
    by (simp_all add: mask_eq_exp_minus_1)
  show ?thesis unfolding bswap_32_def mask bit_or_iff bswap_pieces by blast
qed

lemma bswap_32_involution: "bswap_32 (bswap_32 x) = x"
proof (rule bit_word_eqI)
  fix n assume "n < LENGTH(32)"
  then consider "n < 8" | "8 \<le> n" "n < 16" | "16 \<le> n" "n < 24" | "24 \<le> n" "n < 32" by fastforce
  then show "bit (bswap_32 (bswap_32 x)) n = bit x n" by cases (auto simp: bit_bswap_32)
qed

subsection \<open>Tokens\<close>

datatype fdt_token = Begin "u8 list" | End_Node | Prop "u8 list" u64 u32 | Nop

abbreviation be32 :: "bytes \<Rightarrow> u64 \<Rightarrow> u32" where "be32 m a \<equiv> bswap_32 (load32 m a)"

text \<open>
  The tokens in memory from \<open>cur\<close> on, up to the end token; a property token carries its name, the
  address of its value and its length.
\<close>

fun tokens_at :: "bytes \<Rightarrow> u64 \<Rightarrow> u64 \<Rightarrow> u64 \<Rightarrow> fdt_token list \<Rightarrow> bool" where
  "tokens_at m strs stop cur [] \<longleftrightarrow> cur < stop \<and> be32 m cur = FDT_END"
| "tokens_at m strs stop cur (Begin n # ts) \<longleftrightarrow>
     cur < stop \<and> be32 m cur = FDT_BEGIN_NODE \<and> cstring m (cur + 4) n \<and>
     tokens_at m strs stop (align_32 (cur + 4 + of_nat (length n) + 1)) ts"
| "tokens_at m strs stop cur (End_Node # ts) \<longleftrightarrow>
     cur < stop \<and> be32 m cur = FDT_END_NODE \<and> tokens_at m strs stop (cur + 4) ts"
| "tokens_at m strs stop cur (Prop n d l # ts) \<longleftrightarrow>
     cur < stop \<and> be32 m cur = FDT_PROP \<and> be32 m (cur + 4) = l \<and> d = cur + 12 \<and>
     cstring m (strs + ucast (be32 m (cur + 8))) n \<and> tokens_at m strs stop (align_32 (d + ucast l)) ts"
| "tokens_at m strs stop cur (Nop # ts) \<longleftrightarrow>
     cur < stop \<and> be32 m cur = FDT_NOP \<and> tokens_at m strs stop (cur + 4) ts"

lemma skip_string_end: "cstring m p s \<Longrightarrow> skip_string m p = Some (p + of_nat (length s) + 1)"
proof (induction m p s rule: cstring.induct)
  case (1 m p)
  then show ?case by (subst skip_string.simps) simp
next
  case (2 m p c cs)
  then show ?case by (subst skip_string.simps) (simp add: algebra_simps)
qed

text \<open>A node name up to its unit address.\<close>

abbreviation base_name :: "u8 list \<Rightarrow> u8 list" where "base_name n \<equiv> takeWhile (\<lambda>c. c \<noteq> 64) n"

lemma node_name_match_base: "cstring m p n \<Longrightarrow> node_name_match m p seg \<longleftrightarrow> base_name n = seg"
proof (induction m p seg arbitrary: n rule: node_name_match.induct)
  case (1 m p)
  then show ?case by (cases n) auto
next
  case (2 m p c seg)
  then show ?case by (cases n) auto
qed

subsection \<open>The search over tokens\<close>

definition enter :: "u8 list \<Rightarrow> int \<Rightarrow> u8 list \<Rightarrow> int \<Rightarrow> int \<Rightarrow> int" where
  "enter path wanted n depth matched =
     (if matched < 0 then
        if depth = 0 then (if wanted = 0 then 0 else matched)
        else case path_segment path (depth - 1) of None \<Rightarrow> matched
             | Some seg \<Rightarrow> (if base_name n = take 63 seg \<and> depth = wanted then depth else matched)
      else matched)"

fun search :: "u8 list \<Rightarrow> u8 list \<Rightarrow> int \<Rightarrow> int \<Rightarrow> int \<Rightarrow> fdt_token list \<Rightarrow> u64 \<times> int" where
  "search path name wanted depth matched [] = (NULL, 0)"
| "search path name wanted depth matched (Begin n # ts) =
     search path name wanted (depth + 1) (enter path wanted n (depth + 1) matched) ts"
| "search path name wanted depth matched (End_Node # ts) =
     search path name wanted (depth - 1) (if matched = depth then - 1 else matched) ts"
| "search path name wanted depth matched (Prop n d l # ts) =
     (if matched \<ge> 0 \<and> n = name then (d, sint l) else search path name wanted depth matched ts)"
| "search path name wanted depth matched (Nop # ts) = search path name wanted depth matched ts"

lemma getprop_loop_search:
  "tokens_at m strs stop cur ts \<Longrightarrow> 0 \<notin> set name \<Longrightarrow>
   getprop_loop m strs path name wanted stop cur depth matched = Some (search path name wanted depth matched ts)"
proof (induction m strs stop cur ts arbitrary: depth matched rule: tokens_at.induct)
  case (2 m strs stop cur n ts)
  have "match_node m path wanted (cur + 4) (depth + 1) matched = enter path wanted n (depth + 1) matched"
    using 2(2) by (auto simp: match_node_def enter_def node_name_match_base split: option.splits)
  then show ?case
    using 2 skip_string_end [of m "cur + 4" n]
    by (subst getprop_loop.simps) (simp add: fdt_tokens Let_def)
next
  case (4 m strs stop cur n d l ts)
  then show ?case
    using strcmp_lit_zero [of m "strs + ucast (be32 m (cur + 8))" n name]
    by (subst getprop_loop.simps) (auto simp: fdt_tokens Let_def add.assoc)
qed (subst getprop_loop.simps; simp add: fdt_tokens Let_def)+

subsection \<open>Trees\<close>

datatype fdt_node = Fdt_Node "u8 list" "(u8 list \<times> u64 \<times> u32) list" "fdt_node list"

fun prop_token :: "u8 list \<times> u64 \<times> u32 \<Rightarrow> fdt_token" where
  "prop_token (n, d, l) = Prop n d l"

fun tokens :: "fdt_node \<Rightarrow> fdt_token list" where
  "tokens (Fdt_Node n ps cs) = Begin n # map prop_token ps @ concat (map tokens cs) @ [End_Node]"

text \<open>All properties of a subtree in document order, and the first one of a name in a list.\<close>

fun all_props :: "fdt_node \<Rightarrow> (u8 list \<times> u64 \<times> u32) list" where
  "all_props (Fdt_Node n ps cs) = ps @ concat (map all_props cs)"

definition named :: "u8 list \<Rightarrow> (u8 list \<times> u64 \<times> u32) list \<Rightarrow> (u64 \<times> u32) option" where
  "named name ps = map_option snd (find (\<lambda>p. fst p = name) ps)"

primrec first_of :: "'a option list \<Rightarrow> 'a option" where
  "first_of [] = None"
| "first_of (x # xs) = (case x of None \<Rightarrow> first_of xs | Some y \<Rightarrow> Some y)"

text \<open>
  The property the reader finds in the subtree of a node at the given depth: the first one of the
  name below the first node that the path selects and that has one.
\<close>

fun first_prop :: "u8 list \<Rightarrow> u8 list \<Rightarrow> int \<Rightarrow> int \<Rightarrow> fdt_node \<Rightarrow> (u64 \<times> u32) option" where
  "first_prop path name wanted depth (Fdt_Node n ps cs) =
     (if enter path wanted n depth (- 1) \<ge> 0 then named name (all_props (Fdt_Node n ps cs))
      else first_of (map (first_prop path name wanted (depth + 1)) cs))"

lemma named_simps [simp]:
  "named name [] = None"
  "named name ((n, d, l) # ps) = (if n = name then Some (d, l) else named name ps)"
  by (simp_all add: named_def)

lemma named_append: "named name (ps @ qs) = (case named name ps of None \<Rightarrow> named name qs | Some y \<Rightarrow> Some y)"
  by (induction ps) (auto split: option.splits)

lemma search_props:
  "matched \<ge> 0 \<Longrightarrow> search path name wanted depth matched (map prop_token ps @ ts) =
     (case named name ps of Some (d, l) \<Rightarrow> (d, sint l) | None \<Rightarrow> search path name wanted depth matched ts)"
  by (induction ps) auto

lemma search_props_out:
  "search path name wanted depth (- 1) (map prop_token ps @ ts) = search path name wanted depth (- 1) ts"
  by (induction ps) auto

lemma search_inside:
  "0 \<le> matched \<Longrightarrow> matched \<le> depth \<Longrightarrow> search path name wanted depth matched (tokens t @ ts) =
     (case named name (all_props t) of Some (d, l) \<Rightarrow> (d, sint l) | None \<Rightarrow> search path name wanted depth matched ts)"
proof (induction t arbitrary: depth ts)
  case (Fdt_Node n ps cs)
  have cs: "search path name wanted (depth + 1) matched (concat (map tokens cs') @ ts') =
      (case named name (concat (map all_props cs')) of Some (d, l) \<Rightarrow> (d, sint l)
       | None \<Rightarrow> search path name wanted (depth + 1) matched ts')" if "set cs' \<subseteq> set cs" for cs' ts'
    using that
  proof (induction cs' arbitrary: ts')
    case (Cons c cs')
    then have "c \<in> set cs" by simp
    then show ?case using Fdt_Node.IH [of c "depth + 1"] Fdt_Node.prems Cons by (auto simp: named_append split: option.splits)
  qed simp
  show ?case
    using Fdt_Node.prems cs [of cs "End_Node # ts"]
    by (auto simp: search_props named_append enter_def split: option.splits)
qed

lemma enter_depth: "enter path wanted n depth (- 1) \<ge> 0 \<Longrightarrow> enter path wanted n depth (- 1) = depth"
  by (auto simp: enter_def split: if_splits option.splits)

lemma enter_out: "0 \<le> depth \<Longrightarrow> \<not> enter path wanted n depth (- 1) \<ge> 0 \<Longrightarrow> enter path wanted n depth (- 1) = - 1"
  by (auto simp: enter_def split: if_splits option.splits)

lemma search_tree:
  "- 1 \<le> depth \<Longrightarrow> search path name wanted depth (- 1) (tokens t @ ts) =
     (case first_prop path name wanted (depth + 1) t of Some (d, l) \<Rightarrow> (d, sint l)
      | None \<Rightarrow> search path name wanted depth (- 1) ts)"
proof (induction t arbitrary: depth ts)
  case (Fdt_Node n ps cs)
  show ?case
  proof (cases "enter path wanted n (depth + 1) (- 1) \<ge> 0")
    case True
    then have e: "enter path wanted n (depth + 1) (- 1) = depth + 1" by (rule enter_depth)
    have cs: "search path name wanted (depth + 1) (depth + 1) (concat (map tokens cs') @ ts') =
        (case named name (concat (map all_props cs')) of Some (d, l) \<Rightarrow> (d, sint l)
         | None \<Rightarrow> search path name wanted (depth + 1) (depth + 1) ts')" for cs' ts'
      using Fdt_Node.prems by (induction cs' arbitrary: ts') (auto simp: search_inside named_append split: option.splits)
    show ?thesis
      using True Fdt_Node.prems by (simp add: e search_props cs named_append split: option.splits)
  next
    case False
    then have e: "enter path wanted n (depth + 1) (- 1) = - 1" using Fdt_Node.prems by (intro enter_out) auto
    have cs: "search path name wanted (depth + 1) (- 1) (concat (map tokens cs') @ ts') =
        (case first_of (map (first_prop path name wanted (depth + 1 + 1)) cs') of Some (d, l) \<Rightarrow> (d, sint l)
         | None \<Rightarrow> search path name wanted (depth + 1) (- 1) ts')" if "set cs' \<subseteq> set cs" for cs' ts'
      using that
    proof (induction cs' arbitrary: ts')
      case (Cons c cs')
      then have "c \<in> set cs" by simp
      then show ?case
        using Fdt_Node.IH [of c "depth + 1"] Fdt_Node.prems Cons by (auto split: option.splits)
    qed simp
    show ?thesis
      using False Fdt_Node.prems cs [of cs "End_Node # ts"]
      by (auto simp: e search_props_out split: option.splits)
  qed
qed

subsection \<open>Reserved memory\<close>

definition reserved_name :: "u8 list" where "reserved_name = bytes_of ''reserved-memory''"
definition reg_name :: "u8 list" where "reg_name = bytes_of ''reg''"

fun reserve_tokens :: "bytes \<Rightarrow> int \<Rightarrow> int \<Rightarrow> fdt_token list \<Rightarrow> 'a buddy_state_scheme \<Rightarrow> 'a buddy_state_scheme" where
  "reserve_tokens m depth rdepth [] s = s"
| "reserve_tokens m depth rdepth (Begin n # ts) s =
     reserve_tokens m (depth + 1)
       (if rdepth < 0 \<and> depth + 1 = 1 \<and> base_name n = reserved_name then depth + 1 else rdepth) ts s"
| "reserve_tokens m depth rdepth (End_Node # ts) s =
     reserve_tokens m (depth - 1) (if rdepth = depth then - 1 else rdepth) ts s"
| "reserve_tokens m depth rdepth (Prop n d l # ts) s =
     reserve_tokens m depth rdepth ts
       (if rdepth \<ge> 0 \<and> depth = rdepth + 1 \<and> n = reg_name then reserve_reg m d l s else s)"
| "reserve_tokens m depth rdepth (Nop # ts) s = reserve_tokens m depth rdepth ts s"

lemma names_nonzero: "0 \<notin> set reg_name" "0 \<notin> set reserved_name"
  by (simp_all add: reg_name_def reserved_name_def bytes_of_def)

lemma reserve_loop_tokens:
  "tokens_at m strs stop cur ts \<Longrightarrow>
   reserve_loop m strs stop cur depth rdepth s = Some (reserve_tokens m depth rdepth ts s)"
proof (induction m strs stop cur ts arbitrary: depth rdepth s rule: tokens_at.induct)
  case (2 m strs stop cur n ts)
  then show ?case
    using skip_string_end [of m "cur + 4" n] node_name_match_base [of m "cur + 4" n reserved_name]
    by (subst reserve_loop.simps) (auto simp: fdt_tokens Let_def reserved_name_def [symmetric])
next
  case (4 m strs stop cur n d l ts)
  then show ?case
    using strcmp_lit_zero [of m "strs + ucast (be32 m (cur + 8))" n reg_name] names_nonzero
    by (subst reserve_loop.simps) (auto simp: fdt_tokens Let_def reg_name_def [symmetric] add.assoc)
qed (subst reserve_loop.simps; simp add: fdt_tokens Let_def)+

text \<open>The \<^verbatim>\<open>reg\<close> properties of the children of the root's \<^verbatim>\<open>reserved-memory\<close> nodes.\<close>

fun regs_of :: "fdt_node \<Rightarrow> (u64 \<times> u32) list" where
  "regs_of (Fdt_Node n ps cs) = map snd (filter (\<lambda>p. fst p = reg_name) ps)"

fun reserved_children :: "fdt_node \<Rightarrow> (u64 \<times> u32) list" where
  "reserved_children (Fdt_Node n ps cs) =
     (if base_name n = reserved_name then concat (map regs_of cs) else [])"

fun reserved_props :: "fdt_node \<Rightarrow> (u64 \<times> u32) list" where
  "reserved_props (Fdt_Node n ps cs) = concat (map reserved_children cs)"

definition reserve_all :: "bytes \<Rightarrow> (u64 \<times> u32) list \<Rightarrow> 'a buddy_state_scheme \<Rightarrow> 'a buddy_state_scheme" where
  "reserve_all m rs s = fold (\<lambda>(d, l). reserve_reg m d l) rs s"

lemma reserve_all_append [simp]: "reserve_all m (rs @ rs') s = reserve_all m rs' (reserve_all m rs s)"
  by (simp add: reserve_all_def)

lemma reserve_all_Nil [simp]: "reserve_all m [] s = s"
  by (simp add: reserve_all_def)

lemma reserve_props:
  "reserve_tokens m depth rdepth (map prop_token ps @ ts) s =
     reserve_tokens m depth rdepth ts
       (if rdepth \<ge> 0 \<and> depth = rdepth + 1 then reserve_all m (map snd (filter (\<lambda>p. fst p = reg_name) ps)) s else s)"
  by (induction ps arbitrary: s) (auto simp: reserve_all_def)

text \<open>Below depth 2 nothing is reserved; at depth 2 exactly the node's own properties are.\<close>

lemma reserve_deep:
  fixes s :: "'a buddy_state_scheme"
  shows "1 \<le> depth \<Longrightarrow> rdepth = - 1 \<or> rdepth = 1 \<Longrightarrow>
   reserve_tokens m depth rdepth (tokens t @ ts) s =
     reserve_tokens m depth rdepth ts (if rdepth = 1 \<and> depth = 1 then reserve_all m (regs_of t) s else s)"
proof (induction t arbitrary: depth ts s)
  case (Fdt_Node n ps cs)
  have cs: "reserve_tokens m (depth + 1) rdepth (concat (map tokens cs') @ ts') s' =
      reserve_tokens m (depth + 1) rdepth ts' s'" if "set cs' \<subseteq> set cs" for cs' ts' and s' :: "'a buddy_state_scheme"
    using that
  proof (induction cs')
    case (Cons c cs')
    then have "c \<in> set cs" by simp
    then show ?case using Fdt_Node.IH [of c "depth + 1"] Fdt_Node.prems Cons by auto
  qed simp
  show ?case using Fdt_Node.prems cs [of cs "End_Node # ts"] by (auto simp: reserve_props)
qed

lemma reserve_child:
  "reserve_tokens m 0 (- 1) (tokens t @ ts) s = reserve_tokens m 0 (- 1) ts (reserve_all m (reserved_children t) s)"
proof (cases t)
  case (Fdt_Node n ps cs)
  have cs: "reserve_tokens m 1 r (concat (map tokens cs') @ ts') s' =
      reserve_tokens m 1 r ts' (if r = 1 then reserve_all m (concat (map regs_of cs')) s' else s')"
    if "r = - 1 \<or> r = 1" for r cs' ts' s'
    using that by (induction cs' arbitrary: s') (auto simp: reserve_deep)
  show ?thesis
    using cs [of 1 cs "End_Node # ts"] cs [of "- 1" cs "End_Node # ts"]
    by (auto simp: Fdt_Node reserve_props)
qed

lemma reserve_root:
  "reserve_tokens m (- 1) (- 1) (tokens t) s = reserve_all m (reserved_props t) s"
proof (cases t)
  case (Fdt_Node n ps cs)
  have cs: "reserve_tokens m 0 (- 1) (concat (map tokens cs') @ ts') s' =
      reserve_tokens m 0 (- 1) ts' (reserve_all m (concat (map reserved_children cs')) s')" for cs' ts' s'
    by (induction cs' arbitrary: s') (auto simp: reserve_child)
  show ?thesis by (simp add: Fdt_Node reserve_props cs)
qed

subsection \<open>A device tree in memory\<close>

definition dtb_struct :: "bytes \<Rightarrow> u64 \<Rightarrow> u64" where
  "dtb_struct m a = a + ucast (off_dt_struct m a)"

definition fdt_at :: "bytes \<Rightarrow> u64 \<Rightarrow> fdt_node \<Rightarrow> bool" where
  "fdt_at m a t \<longleftrightarrow> a \<noteq> NULL \<and> fdt_magic m a = FDT_HEADER_MAGIC \<and>
     tokens_at m (a + ucast (off_dt_strings m a)) (dtb_struct m a + ucast (size_dt_struct m a)) (dtb_struct m a) (tokens t)"

lemma getprop_tree:
  assumes "fdt_at m a t" "0 \<notin> set name"
  shows "dtb_getprop m a path name =
    Some (case first_prop path name (path_depth path) 0 t of Some (d, l) \<Rightarrow> (d, Some (sint l)) | None \<Rightarrow> (NULL, Some 0))"
  using assms getprop_loop_search [OF _ assms(2)] search_tree [of "- 1" path name "path_depth path" t "[]"]
  by (auto simp: dtb_getprop_def fdt_at_def dtb_struct_def split: option.splits)

text \<open>Big-endian words in memory.\<close>

definition word_blob :: "u64 \<Rightarrow> u32 list \<Rightarrow> bytes" where
  "word_blob base ws a =
     (let i = unat (a - base)
      in if i div 4 < length ws then ucast (drop_bit (24 - 8 * (i mod 4)) (ws ! (i div 4))) else 0)"

text \<open>The tree \<^verbatim>\<open>/ { memory@8 { reg }; reserved-memory { a { reg } } }\<close> at \<open>0x4000\<close>.\<close>

definition example_dtb :: bytes where
  "example_dtb = word_blob 0x4000
     [0xD00DFEED, 0xa4, 0x28, 0xa0, 0, 17, 16, 0, 4, 0x78,
      1, 0,
      1, 0x6d656d6f, 0x72794038, 0,
      3, 16, 0, 0, 0x80000000, 0, 0x1000,
      2,
      1, 0x72657365, 0x72766564, 0x2d6d656d, 0x6f727900,
      1, 0x61000000,
      3, 8, 0, 0x84000000, 0x1000,
      2, 2, 2, 9,
      0x72656700]"

definition example_tree :: fdt_node where
  "example_tree = Fdt_Node [] []
     [Fdt_Node (bytes_of ''memory@8'') [(reg_name, 0x404c, 16)] [],
      Fdt_Node reserved_name [] [Fdt_Node (bytes_of ''a'') [(reg_name, 0x4088, 8)] []]]"

lemma example_words: "fdt_magic example_dtb 0x4000 = FDT_HEADER_MAGIC"
  by (simp add: fdt_magic_def load32_def bswap_32_def example_dtb_def word_blob_def FDT_HEADER_MAGIC_def)

lemma example_dtb_ok: "fdt_at example_dtb 0x4000 example_tree"
  by (simp add: fdt_at_def example_tree_def fdt_magic_def load32_def bswap_32_def example_dtb_def word_blob_def FDT_HEADER_MAGIC_def
     dtb_struct_def off_dt_struct_def off_dt_strings_def size_dt_struct_def fdt_tokens reg_name_def bytes_of_def reserved_name_def align_32_def)

lemma enter_same:
  "path_segment p (wanted - 1) = path_segment q (wanted - 1) \<Longrightarrow> enter p wanted n depth (- 1) = enter q wanted n depth (- 1)"
  by (cases "depth = wanted") (auto simp: enter_def split: option.splits)

lemma first_prop_same:
  "path_segment p (wanted - 1) = path_segment q (wanted - 1) \<Longrightarrow>
   first_prop p name wanted depth t = first_prop q name wanted depth t"
proof (induction t arbitrary: depth)
  case (Fdt_Node n ps cs)
  then have "map (first_prop p name wanted (depth + 1)) cs = map (first_prop q name wanted (depth + 1)) cs" by auto
  moreover have "enter p wanted n depth (- 1) = enter q wanted n depth (- 1)" by (rule enter_same) (rule Fdt_Node.prems)
  ultimately show ?case by (simp only: first_prop.simps)
qed

lemma sint_16: "sint (16 :: u32) = 16" "sint (8 :: u32) = 8"
  by simp_all

lemmas path_simps = path_segment_def path_segment_from.simps path_depth_def enter_def bytes_of_def

subsection \<open>Properties\<close>

text \<open>C16: on a device tree in memory \<^verbatim>\<open>dtb_getprop\<close> returns (it neither runs past the structure block nor
  loops) and gives the value address and length of the first property of the name, in document
  order, below the first selected node that has one; NULL and length 0 if there is none. The
  scan of the token stream with its two depth counters computes this search of the tree.\<close>

theorem dtb_getprop_correct:
  assumes "fdt_at m a t" "0 \<notin> set name"
  shows "dtb_getprop m a path name =
    Some (case first_prop path name (path_depth path) 0 t of
            Some (d, l) \<Rightarrow> (d, Some (sint l)) | None \<Rightarrow> (NULL, Some 0))"
  using getprop_tree [OF assms] .

theorem dtb_getprop_correct_witness:
  "dtb_getprop example_dtb 0x4000 (bytes_of ''/memory'') reg_name = Some (0x404c, Some 16)"
proof -
  have "first_prop (bytes_of ''/memory'') reg_name (path_depth (bytes_of ''/memory'')) 0 example_tree = Some (0x404c, 16)"
    by (simp add: example_tree_def path_simps reg_name_def)
  then show ?thesis using dtb_getprop_correct [OF example_dtb_ok names_nonzero(1)] by (simp add: sint_16)
qed

text \<open>C18: only the depth and the last component of a path select the node: two paths that agree in these
  find the same property, whatever their other components say.\<close>

theorem dtb_getprop_ignores_ancestors:
  assumes "fdt_at m a t" "0 \<notin> set name" "path_depth p = path_depth q"
    "path_segment p (path_depth p - 1) = path_segment q (path_depth q - 1)"
  shows "dtb_getprop m a p name = dtb_getprop m a q name"
  unfolding getprop_tree [OF assms(1,2)] using first_prop_same [of p "path_depth q" q] assms(3,4) by simp

theorem dtb_getprop_ignores_ancestors_witness:
  "dtb_getprop example_dtb 0x4000 (bytes_of ''/soc/a'') reg_name =
   dtb_getprop example_dtb 0x4000 (bytes_of ''/reserved-memory/a'') reg_name"
  by (rule dtb_getprop_ignores_ancestors [OF example_dtb_ok names_nonzero(1)]) (simp_all add: path_simps)


definition no_regions :: buddy_state where
  "no_regions = \<lparr>sie = True, mem = (\<lambda>_. 0), buddy_base_addr = 0, buddy_end_addr = 0, buddy_total_pages = 0,
     frame_array = (\<lambda>_. 0), ref_count = (\<lambda>_. 0), frame_array_ptr = NULL, ref_count_ptr = NULL, free_list = NULL,
     reserved_regions = []\<rparr>"


end
