(* ===== verification/Memory.thy ===== *)
theory Memory
  imports Utils
begin

text \<open>
  One memory, two views. The kernel's data structures are read as aligned 8-byte cells; file
  data, strings and user pages are read as bytes. A byte of a little-endian cell is selected by
  the low three bits of its address, and an operation on bytes acts on the cells through that
  view.
\<close>

definition load8 :: "mem \<Rightarrow> bytes" where
  "load8 m a = ucast (drop_bit (8 * unat (a AND 7)) (m (a AND NOT 7)))"

definition join8 :: "bytes \<Rightarrow> u64 \<Rightarrow> u64" where
  "join8 b a = fold (\<lambda>i w. w OR push_bit (8 * i) (ucast (b (a + of_nat i)))) [0..<8] 0"

definition with_bytes :: "(bytes \<Rightarrow> bytes) \<Rightarrow> mem \<Rightarrow> mem" where
  "with_bytes f m = (let b = f (load8 m) in (\<lambda>a. if a AND 7 = 0 then join8 b a else m a))"

definition store32 :: "u64 \<Rightarrow> u32 \<Rightarrow> bytes \<Rightarrow> bytes" where
  "store32 a w b = fold (\<lambda>i b. b(a + of_nat i := ucast (drop_bit (8 * i) w))) [0..<4] b"

subsection \<open>Bits of a cell\<close>

lemma bit_fold_or:
  "bit (fold (\<lambda>i w. w OR f i) is (w0 :: u64)) n \<longleftrightarrow> bit w0 n \<or> (\<exists>i\<in>set is. bit (f i) n)"
  by (induction "is" arbitrary: w0) (auto simp: bit_or_iff)

lemma bit_join8: "bit (join8 b a) n \<longleftrightarrow> n < 64 \<and> bit (b (a + of_nat (n div 8))) (n mod 8)"
proof -
  have "bit (push_bit (8 * i) (ucast (b (a + of_nat i))) :: u64) n \<longleftrightarrow>
      n < 64 \<and> i = n div 8 \<and> bit (b (a + of_nat (n div 8))) (n mod 8)" for i
  proof (cases "8 * i \<le> n \<and> n < 8 * i + 8")
    case True
    then have "n div 8 = i" "n mod 8 = n - 8 * i" by (auto simp: div_nat_eqI modulo_nat_def)
    then show ?thesis using True by (auto simp: bit_push_bit_iff bit_ucast_iff)
  next
    case False
    then have "i \<noteq> n div 8" by auto
    moreover have "\<not> (8 * i \<le> n \<and> bit (b (a + of_nat i)) (n - 8 * i))"
      using False bit_imp_le_length [of "b (a + of_nat i)" "n - 8 * i"] by auto
    ultimately show ?thesis by (auto simp: bit_push_bit_iff bit_ucast_iff)
  qed
  then show ?thesis unfolding join8_def bit_fold_or by (auto simp: div_less_iff_less_mult)
qed

lemma low3_unat: "unat (a AND 7 :: u64) = unat a mod 8"
proof -
  have "a AND 7 = take_bit 3 a" by (simp add: take_bit_eq_mask mask_eq_exp_minus_1)
  then show ?thesis by (simp only: unsigned_take_bit_eq) (simp add: take_bit_eq_mod)
qed

lemma cell_split: "(a :: u64) = (a AND NOT 7) + (a AND 7)"
proof -
  have "(a AND NOT 7) AND (a AND 7) = 0" by (rule bit_eqI) (auto simp: bit_simps)
  then have "(a AND NOT 7) + (a AND 7) = (a AND NOT 7) OR (a AND 7)" by (rule disjunctive_add_eq_or)
  also have "\<dots> = a" by (rule bit_eqI) (auto simp: bit_simps)
  finally show ?thesis ..
qed

lemma cell_aligned: "(a AND NOT 7) AND 7 = (0 :: u64)"
  by (rule bit_eqI) (auto simp: bit_simps)

lemma load8_with_bytes [simp]: "load8 (with_bytes f m) = f (load8 m)"
proof
  fix a :: u64
  let ?b = "f (load8 m)" and ?k = "unat (a AND 7)"
  have k: "?k < 8" unfolding low3_unat by simp
  have a: "(a AND NOT 7) + of_nat ?k = a" using cell_split [of a] by simp
  have "bit (load8 (with_bytes f m) a) n = bit (?b a) n" for n
  proof (cases "n < 8")
    case True
    have "(8 * ?k + n) div 8 = ?k" "(8 * ?k + n) mod 8 = n" using True by auto
    moreover have "8 * ?k + n < 64" using k True by linarith
    moreover have "with_bytes f m (a AND NOT 7) = join8 ?b (a AND NOT 7)"
      unfolding with_bytes_def Let_def cell_aligned by simp
    ultimately show ?thesis
      unfolding load8_def using True a by (simp add: bit_ucast_iff bit_drop_bit_eq bit_join8)
  next
    case False
    then show ?thesis using bit_imp_le_length [of "?b a" n] bit_imp_le_length [of "load8 (with_bytes f m) a" n] by auto
  qed
  then show "load8 (with_bytes f m) a = ?b a" by (rule bit_eqI)
qed

lemma byte_of_cell: "a AND 7 = 0 \<Longrightarrow> i < 8 \<Longrightarrow> load8 m (a + of_nat i) = ucast (drop_bit (8 * i) (m a))"
proof -
  assume a: "a AND 7 = 0" and i: "i < 8"
  have i7: "(of_nat i :: u64) AND 7 = of_nat i" 
    using i by (intro word_unat_eq_iff [THEN iffD2]) (simp only: low3_unat unat_of_nat_small, simp add: unat_of_nat_small)
  have "a AND of_nat i = 0"
  proof (rule bit_eqI)
    fix n
    show "bit (a AND of_nat i) n = bit 0 n"
      using arg_cong [OF a, of "\<lambda>w. bit w n"] arg_cong [OF i7, of "\<lambda>w. bit w n"] by (auto simp: bit_and_iff)
  qed
  then have s: "a + of_nat i = a OR of_nat i" by (rule disjunctive_add_eq_or)
  have "(a OR of_nat i) AND 7 = of_nat i" using a i7 by (simp add: bit.conj_disj_distrib2)
  moreover have "a AND NOT 7 = a" using cell_split [of a] a by simp
  moreover have "(of_nat i :: u64) AND NOT 7 = 0" using cell_split [of "of_nat i"] i7 by simp
  then have "(a OR of_nat i) AND NOT 7 = a AND NOT 7" by (simp only: bit.conj_disj_distrib2 or.right_neutral)
  ultimately show ?thesis using i by (simp add: load8_def s unat_of_nat_small)
qed

text \<open>A cell none of whose bytes change keeps its value; one whose bytes are all zero is zero.\<close>

lemma with_bytes_same:
  assumes "\<And>i. i < 8 \<Longrightarrow> f (load8 m) (a + of_nat i) = load8 m (a + of_nat i)"
  shows "with_bytes f m a = m a"
proof (cases "a AND 7 = 0")
  case True
  have "bit (join8 (f (load8 m)) a) n = bit (m a) n" for n
  proof (cases "n < 64")
    case n: True
    then have "n div 8 < 8" by auto
    then show ?thesis
      using n assms byte_of_cell [OF True, of "n div 8"] by (simp add: bit_join8 bit_ucast_iff bit_drop_bit_eq)
  qed (use bit_imp_le_length [of "m a" n] bit_join8 in auto)
  then show ?thesis using True by (simp add: with_bytes_def bit_eqI)
qed (simp add: with_bytes_def)

lemma with_bytes_zero:
  assumes "a AND 7 = 0" "\<And>i. i < 8 \<Longrightarrow> f (load8 m) (a + of_nat i) = 0"
  shows "with_bytes f m a = 0"
proof -
  have "join8 (f (load8 m)) a = 0"
    using assms(2) by (intro bit_eqI) (auto simp: bit_join8)
  then show ?thesis using assms(1) by (simp add: with_bytes_def)
qed

text \<open>Two memories that agree on a cell agree on its bytes.\<close>

lemma load8_cong: "m' (a AND NOT 7) = m (a AND NOT 7) \<Longrightarrow> load8 m' a = load8 m a"
  by (simp add: load8_def)

end
