(* ===== verification/Vm.thy ===== *)
theory Vm
  imports Timer Memory
begin

text \<open>
  Sv39 page tables, \<^verbatim>\<open>kernel/src/vm.c\<close>: the early mappings of the boot code, the walker that
  installs a user mapping, its removal, its lookup, and the release of a user address space.
  A page table is a page of 512 cells; entry \<open>i\<close> of the table at \<open>t\<close> is the cell \<open>t + 8 * i\<close>.
  Translations are read from the tables: the TLB and its \<^verbatim>\<open>sfence.vma\<close> flushes are not modelled.
\<close>

subsection \<open>State\<close>

text \<open>
  \<open>pg_dir\<close> and \<open>early_pages\<close> are the addresses of the static arrays, \<open>early_idx\<close> the static
  counter of \<^verbatim>\<open>early_alloc_page\<close>.
\<close>

record vm_state = timer_state +
  buddy_is_ready :: bool
  pg_dir :: u64
  early_pages :: u64
  early_idx :: nat
  satp :: u64

definition HPAGE_SIZE :: u64 where "HPAGE_SIZE = 0x200000"
definition PAGE_PRESENT :: u64 where "PAGE_PRESENT = 1"
definition PAGE_READ :: u64 where "PAGE_READ = 2"
definition PAGE_WRITE :: u64 where "PAGE_WRITE = 4"
definition PAGE_EXEC :: u64 where "PAGE_EXEC = 8"
definition PAGE_USER :: u64 where "PAGE_USER = 16"
definition PAGE_GLOBAL :: u64 where "PAGE_GLOBAL = 32"
definition PAGE_ACCESSED :: u64 where "PAGE_ACCESSED = 64"
definition PAGE_DIRTY :: u64 where "PAGE_DIRTY = 128"
definition SATP_MODE_SV39 :: u64 where "SATP_MODE_SV39 = push_bit 60 8"

lemmas page_flags = PAGE_PRESENT_def PAGE_READ_def PAGE_WRITE_def PAGE_EXEC_def PAGE_USER_def
  PAGE_GLOBAL_def PAGE_ACCESSED_def PAGE_DIRTY_def

definition pa_of :: "u64 \<Rightarrow> u64" where "pa_of v = v - PAGE_OFFSET"

subsection \<open>Entries\<close>

definition vpn2 :: "u64 \<Rightarrow> nat" where "vpn2 v = unat (drop_bit 30 v AND 0x1FF)"
definition vpn1 :: "u64 \<Rightarrow> nat" where "vpn1 v = unat (drop_bit 21 v AND 0x1FF)"
definition vpn0 :: "u64 \<Rightarrow> nat" where "vpn0 v = unat (drop_bit 12 v AND 0x1FF)"

definition entry_at :: "u64 \<Rightarrow> nat \<Rightarrow> u64" where "entry_at t i = t + 8 * of_nat i"

definition present :: "u64 \<Rightarrow> bool" where "present e \<longleftrightarrow> e AND PAGE_PRESENT \<noteq> 0"

definition entry_page :: "u64 \<Rightarrow> u64" where "entry_page e = push_bit 12 (drop_bit 10 e)"

definition table_entry :: "u64 \<Rightarrow> u64" where
  "table_entry pa = push_bit 10 (drop_bit 12 pa) OR PAGE_PRESENT"

definition leaf_entry :: "u64 \<Rightarrow> u64 \<Rightarrow> u64" where
  "leaf_entry pa prot =
     push_bit 10 (drop_bit 12 pa) OR prot OR PAGE_PRESENT OR PAGE_ACCESSED OR PAGE_DIRTY"

subsection \<open>Early mappings\<close>

text \<open>The 65th request of \<^verbatim>\<open>early_alloc_page\<close> spins for ever (\<open>None\<close>).\<close>

definition early_alloc_page :: "'a vm_state_scheme \<Rightarrow> (u64 \<times> 'a vm_state_scheme) option" where
  "early_alloc_page s =
     (if early_idx s \<ge> 64 then None
      else Some (early_pages s + of_nat (early_idx s) * PAGE_SIZE, s\<lparr>early_idx := early_idx s + 1\<rparr>))"

definition get_page_table_page :: "'a vm_state_scheme \<Rightarrow> (u64 \<times> 'a vm_state_scheme) option" where
  "get_page_table_page s =
     (if buddy_is_ready s
      then let (page, s1) = kmalloc PAGE_SIZE s
           in Some (page, s1\<lparr>mem := with_bytes (memset page 0 4096) (mem s1)\<rparr>)
      else early_alloc_page s)"

definition early_next_table :: "u64 \<Rightarrow> 'a vm_state_scheme \<Rightarrow> (u64 \<times> 'a vm_state_scheme) option" where
  "early_next_table at s =
     (if present (mem s at) then Some (entry_page (mem s at), s)
      else case get_page_table_page s of
             None \<Rightarrow> None
           | Some (new_page, s1) \<Rightarrow> Some (new_page, s1\<lparr>mem := (mem s1)(at := table_entry new_page)\<rparr>))"

partial_function (option) map_pages_4k_from ::
  "u64 \<Rightarrow> u64 \<Rightarrow> u64 \<Rightarrow> u64 \<Rightarrow> u64 \<Rightarrow> 'a vm_state_scheme \<Rightarrow> 'a vm_state_scheme option" where
  "map_pages_4k_from pgd a last_va pa prot s =
     (case early_next_table (entry_at pgd (vpn2 a)) s of
        None \<Rightarrow> None
      | Some (pmd, s1) \<Rightarrow>
          (case early_next_table (entry_at pmd (vpn1 a)) s1 of
             None \<Rightarrow> None
           | Some (pte, s2) \<Rightarrow>
               let s3 = s2\<lparr>mem := (mem s2)(entry_at pte (vpn0 a) := leaf_entry pa prot)\<rparr>
               in if a = last_va then Some s3
                  else map_pages_4k_from pgd (a + PAGE_SIZE) last_va (pa + PAGE_SIZE) prot s3))"

definition map_pages_4k :: "u64 \<Rightarrow> u64 \<Rightarrow> u64 \<Rightarrow> u64 \<Rightarrow> u64 \<Rightarrow> 'a vm_state_scheme \<Rightarrow> 'a vm_state_scheme option" where
  "map_pages_4k pgd v sz pa prot s =
     map_pages_4k_from pgd (v AND NOT (PAGE_SIZE - 1)) ((v + sz - 1) AND NOT (PAGE_SIZE - 1)) pa prot s"

partial_function (option) map_pages_2m_from ::
  "u64 \<Rightarrow> u64 \<Rightarrow> u64 \<Rightarrow> u64 \<Rightarrow> u64 \<Rightarrow> 'a vm_state_scheme \<Rightarrow> 'a vm_state_scheme option" where
  "map_pages_2m_from pgd a last_va pa prot s =
     (case early_next_table (entry_at pgd (vpn2 a)) s of
        None \<Rightarrow> None
      | Some (pmd, s1) \<Rightarrow>
          let s2 = s1\<lparr>mem := (mem s1)(entry_at pmd (vpn1 a) := leaf_entry pa prot)\<rparr>
          in if a = last_va then Some s2
             else map_pages_2m_from pgd (a + HPAGE_SIZE) last_va (pa + HPAGE_SIZE) prot s2)"

definition map_pages_2m :: "u64 \<Rightarrow> u64 \<Rightarrow> u64 \<Rightarrow> u64 \<Rightarrow> u64 \<Rightarrow> 'a vm_state_scheme \<Rightarrow> 'a vm_state_scheme option" where
  "map_pages_2m pgd v sz pa prot s =
     map_pages_2m_from pgd (v AND NOT (HPAGE_SIZE - 1)) ((v + sz - 1) AND NOT (HPAGE_SIZE - 1)) pa prot s"

text \<open>The calls of \<^verbatim>\<open>setup_vm\<close> in order: huge pages or not, virtual address, size, physical address.\<close>

definition setup_calls :: "bool \<Rightarrow> (bool \<times> u64 \<times> u64 \<times> u64) list" where
  "setup_calls qemu =
     (if qemu then
        [(True, 0x80000000, 0x80000000, 0x80000000), (True, PAGE_OFFSET + 0x80000000, 0x80000000, 0x80000000),
         (False, 0x10000000, 0x1000, 0x10000000), (False, PAGE_OFFSET + 0x10000000, 0x1000, 0x10000000),
         (False, 0x0c000000, 0x400000, 0x0c000000), (False, PAGE_OFFSET + 0x0c000000, 0x400000, 0x0c000000),
         (False, 0x02000000, 0x10000, 0x02000000), (False, PAGE_OFFSET + 0x02000000, 0x10000, 0x02000000),
         (False, 0x10001000, 0x1000, 0x10001000), (False, PAGE_OFFSET + 0x10001000, 0x1000, 0x10001000),
         (False, 0x10100000, 0x1000, 0x10100000), (False, PAGE_OFFSET + 0x10100000, 0x1000, 0x10100000)]
      else
        [(True, 0, 0x80000000, 0), (True, PAGE_OFFSET, 0x80000000, 0),
         (False, 0xD4017000, 0x1000, 0xD4017000), (False, PAGE_OFFSET + 0xD4017000, 0x1000, 0xD4017000),
         (False, 0xe0000000, 0x400000, 0xe0000000), (False, PAGE_OFFSET + 0xe0000000, 0x400000, 0xe0000000)])"

fun run_setup :: "(bool \<times> u64 \<times> u64 \<times> u64) list \<Rightarrow> 'a vm_state_scheme \<Rightarrow> 'a vm_state_scheme option" where
  "run_setup [] s = Some s"
| "run_setup ((huge, v, sz, pa) # calls) s =
     (case (if huge
            then map_pages_2m (pg_dir s) v sz pa (PAGE_READ OR PAGE_WRITE OR PAGE_EXEC OR PAGE_GLOBAL) s
            else map_pages_4k (pg_dir s) v sz pa (PAGE_READ OR PAGE_WRITE OR PAGE_GLOBAL) s) of
        None \<Rightarrow> None
      | Some s1 \<Rightarrow> run_setup calls s1)"

definition setup_vm :: "bool \<Rightarrow> 'a vm_state_scheme \<Rightarrow> 'a vm_state_scheme option" where
  "setup_vm qemu s =
     (case run_setup (setup_calls qemu) s of
        None \<Rightarrow> None
      | Some s1 \<Rightarrow> Some (s1\<lparr>satp := SATP_MODE_SV39 OR drop_bit 12 (pg_dir s1)\<rparr>))"

definition drop_identity_map :: "'a vm_state_scheme \<Rightarrow> 'a vm_state_scheme" where
  "drop_identity_map s =
     s\<lparr>mem := (mem s)(entry_at (pg_dir s) 0 := 0, entry_at (pg_dir s) 1 := 0,
                      entry_at (pg_dir s) 2 := 0, entry_at (pg_dir s) 3 := 0)\<rparr>"

subsection \<open>User mappings\<close>

definition alloc_page :: "'a buddy_state_scheme \<Rightarrow> u64 \<times> 'a buddy_state_scheme" where
  "alloc_page s =
     (let (p, s1) = buddy_alloc PAGE_SIZE s
      in (p, if p \<noteq> NULL then s1\<lparr>mem := with_bytes (memset p 0 4096) (mem s1)\<rparr> else s1))"

definition next_table :: "u64 \<Rightarrow> 'a buddy_state_scheme \<Rightarrow> u64 \<times> 'a buddy_state_scheme" where
  "next_table at s =
     (if present (mem s at) then (va (entry_page (mem s at)), s)
      else let (new_page_va, s1) = alloc_page s
           in (new_page_va, s1\<lparr>mem := (mem s1)(at := table_entry (pa_of new_page_va))\<rparr>))"

definition pagewalk :: "u64 \<Rightarrow> u64 \<Rightarrow> u64 \<Rightarrow> u64 \<Rightarrow> 'a buddy_state_scheme \<Rightarrow> 'a buddy_state_scheme" where
  "pagewalk pgd v pa prot s =
     (let (pmd, s1) = next_table (entry_at pgd (vpn2 v)) s;
          (pte, s2) = next_table (entry_at pmd (vpn1 v)) s1
      in s2\<lparr>mem := (mem s2)(entry_at pte (vpn0 v) := leaf_entry pa prot)\<rparr>)"

text \<open>\<^verbatim>\<open>for (i = 0; i < size; i += PAGE_SIZE)\<close>; it does not end when \<open>i\<close> wraps around below \<open>size\<close>.\<close>

partial_function (option) map_pages_from ::
  "u64 \<Rightarrow> u64 \<Rightarrow> u64 \<Rightarrow> u64 \<Rightarrow> u64 \<Rightarrow> u64 \<Rightarrow> 'a buddy_state_scheme \<Rightarrow> 'a buddy_state_scheme option" where
  "map_pages_from i pgd v sz pa prot s =
     (if i < sz then map_pages_from (i + PAGE_SIZE) pgd v sz pa prot (pagewalk pgd (v + i) (pa + i) prot s)
      else Some s)"

definition map_pages :: "u64 \<Rightarrow> u64 \<Rightarrow> u64 \<Rightarrow> u64 \<Rightarrow> u64 \<Rightarrow> 'a buddy_state_scheme \<Rightarrow> 'a buddy_state_scheme option" where
  "map_pages pgd v sz pa prot s = map_pages_from 0 pgd v sz pa prot s"

text \<open>The three nested loops of \<^verbatim>\<open>free_user_space\<close>, innermost first.\<close>

definition free_leaf :: "u64 \<Rightarrow> nat \<Rightarrow> 'a buddy_state_scheme \<Rightarrow> 'a buddy_state_scheme" where
  "free_leaf pte k s =
     (let e = mem s (entry_at pte k)
      in if present e \<and> e AND PAGE_USER \<noteq> 0 then buddy_free (va (entry_page e)) s else s)"

definition free_pte_table :: "u64 \<Rightarrow> nat \<Rightarrow> 'a buddy_state_scheme \<Rightarrow> 'a buddy_state_scheme" where
  "free_pte_table pmd j s =
     (let e = mem s (entry_at pmd j)
      in if present e
         then let pte = va (entry_page e) in buddy_free pte (fold (free_leaf pte) [0..<512] s)
         else s)"

definition free_pmd_table :: "u64 \<Rightarrow> nat \<Rightarrow> 'a buddy_state_scheme \<Rightarrow> 'a buddy_state_scheme" where
  "free_pmd_table pgd i s =
     (let e = mem s (entry_at pgd i)
      in if present e
         then let pmd = va (entry_page e) in buddy_free pmd (fold (free_pte_table pmd) [0..<512] s)
         else s)"

definition free_user_space :: "u64 \<Rightarrow> 'a buddy_state_scheme \<Rightarrow> 'a buddy_state_scheme" where
  "free_user_space pgd s =
     (if pgd = NULL then s else buddy_free pgd (fold (free_pmd_table pgd) [0..<256] s))"

text \<open>The address of the leaf entry for \<open>v\<close>, or NULL when a table is missing.\<close>

definition walk_pte :: "u64 \<Rightarrow> u64 \<Rightarrow> 'a buddy_state_scheme \<Rightarrow> u64" where
  "walk_pte pgd v s =
     (if pgd = NULL then NULL
      else let e2 = mem s (entry_at pgd (vpn2 v))
      in if \<not> present e2 then NULL
      else let e1 = mem s (entry_at (va (entry_page e2)) (vpn1 v))
      in if \<not> present e1 then NULL
      else entry_at (va (entry_page e1)) (vpn0 v))"

definition unmap_page :: "u64 \<Rightarrow> u64 \<Rightarrow> 'a buddy_state_scheme \<Rightarrow> 'a buddy_state_scheme" where
  "unmap_page pgd v s =
     (let e2 = mem s (entry_at pgd (vpn2 v))
      in if \<not> present e2 then s
      else let e1 = mem s (entry_at (va (entry_page e2)) (vpn1 v))
      in if \<not> present e1 then s
      else s\<lparr>mem := (mem s)(entry_at (va (entry_page e1)) (vpn0 v) := 0)\<rparr>)"

end
