(* ===== verification/Vm_Spec.thy ===== *)
theory Vm_Spec
  imports Vm
begin

text \<open>
  Page tables as a finite map. A path of indices leads from the root of an address space to a
  table; in a well-formed space every table of the user half is an owned page and no page is
  reached by two paths. The contents of the space are the leaf entries by their three indices,
  and the operations of \<^verbatim>\<open>vm.c\<close> are updates of that map.
\<close>

subsection \<open>Pages and entries\<close>

definition aligned_page :: "u64 \<Rightarrow> bool" where "aligned_page p \<longleftrightarrow> 4096 dvd unat p"

definition in_page :: "u64 \<Rightarrow> u64 \<Rightarrow> bool" where
  "in_page p c \<longleftrightarrow> unat p \<le> unat c \<and> unat c < unat p + 4096"

lemma aligned_bound: "aligned_page p \<Longrightarrow> unat p + 4096 \<le> 2 ^ 64"
  unfolding aligned_page_def by (rule dvd_next_le [OF _ _ unat_u64_bound]) simp_all

lemma aligned_mod8: "aligned_page p \<Longrightarrow> unat p mod 8 = 0"
  unfolding aligned_page_def by (rule dvd_imp_mod_0, rule dvd_trans [of 8 4096]) simp_all

lemma in_page_unique: "aligned_page p \<Longrightarrow> aligned_page q \<Longrightarrow> in_page p c \<Longrightarrow> in_page q c \<Longrightarrow> p = q"
proof -
  assume a: "aligned_page p" "aligned_page q" "in_page p c" "in_page q c"
  have "unat r = unat c div 4096 * 4096" if "aligned_page r" "in_page r c" for r
    using that by (auto simp: aligned_page_def in_page_def elim!: dvdE) 
  then show ?thesis using a by (metis word_unat_eq_iff)
qed

lemma in_page_self: "in_page p p"
  by (simp add: in_page_def)

lemma in_page_offset:
  "aligned_page p \<Longrightarrow> n < 4096 \<Longrightarrow> unat (p + of_nat n) = unat p + n"
  using aligned_bound [of p] by (subst unat_add_nowrap) (auto simp: unat_of_nat_small)

lemma entry_unat: "aligned_page t \<Longrightarrow> i < 512 \<Longrightarrow> unat (entry_at t i) = unat t + 8 * i"
  using in_page_offset [of t "8 * i"] by (simp add: entry_at_def)

lemma entry_in_page: "aligned_page t \<Longrightarrow> i < 512 \<Longrightarrow> in_page t (entry_at t i)"
  by (simp add: in_page_def entry_unat)

lemma entry_eq:
  assumes "aligned_page t" "aligned_page u" "i < 512" "j < 512"
  shows "entry_at t i = entry_at u j \<longleftrightarrow> t = u \<and> i = j"
proof
  assume e: "entry_at t i = entry_at u j"
  have "in_page t (entry_at u j)" using entry_in_page [OF assms(1,3)] unfolding e .
  then have t: "t = u" using in_page_unique [OF assms(1,2)] entry_in_page [OF assms(2,4)] by blast
  have "unat t + 8 * i = unat u + 8 * j"
    using entry_unat [OF assms(1,3)] entry_unat [OF assms(2,4)] unfolding e by metis
  then show "t = u \<and> i = j" unfolding t by simp
qed simp

lemma low3_zero: "(c :: u64) AND 7 = 0 \<longleftrightarrow> unat c mod 8 = 0"
  by (simp only: word_unat_eq_iff low3_unat unat_0)

lemma entry_cell: "aligned_page t \<Longrightarrow> i < 512 \<Longrightarrow> entry_at t i AND 7 = 0"
  using aligned_mod8 [of t] by (simp only: low3_zero entry_unat) presburger

lemma in_page_diff: "aligned_page p \<Longrightarrow> unat (c - p) < 4096 \<longleftrightarrow> in_page p c"
proof -
  assume a: "aligned_page p"
  show ?thesis
  proof
    assume "unat (c - p) < 4096"
    then show "in_page p c" using in_page_offset [OF a, of "unat (c - p)"] by (simp add: in_page_def)
  next
    assume "in_page p c"
    then have "unat (c - p) = unat c - unat p" "unat c - unat p < 4096"
      by (auto simp: in_page_def unat_sub word_le_nat_alt)
    then show "unat (c - p) < 4096" by simp
  qed
qed

lemma in_page_byte:
  assumes "aligned_page p" "c AND 7 = 0" "i < 8"
  shows "in_page p (c + of_nat i) \<longleftrightarrow> in_page p c"
proof -
  have m: "unat c mod 8 = 0" using assms(2) by (simp only: low3_zero)
  moreover have "unat p mod 8 = 0" using assms(1) by (rule aligned_mod8)
  moreover have "unat c + 8 \<le> 2 ^ 64" using m unat_u64_bound [of c] by (intro dvd_next_le) auto
  then have "unat (c + of_nat i) = unat c + i"
    using assms(3) by (subst unat_add_nowrap) (auto simp: unat_of_nat_small)
  ultimately show ?thesis unfolding in_page_def using assms(3) by presburger
qed

lemma memset_page:
  assumes "aligned_page p"
  shows "with_bytes (memset p 0 4096) m c = (if in_page p c \<and> c AND 7 = 0 then 0 else m c)"
proof -
  have b: "memset p 0 4096 b a = (if in_page p a then 0 else b a)" for b a
    by (simp add: memset_def memset_loop_apply in_page_diff [OF assms])
  show ?thesis
  proof (cases "c AND 7 = 0")
    case True
    show ?thesis
    proof (cases "in_page p c")
      case In: True
      then show ?thesis
        using True in_page_byte [OF assms True] by (simp add: with_bytes_zero b)
    next
      case False
      then show ?thesis using in_page_byte [OF assms True] by (simp add: with_bytes_same b)
    qed
  qed (simp add: with_bytes_def)
qed

lemma page_shift: "aligned_page p \<Longrightarrow> push_bit 12 (drop_bit 12 p) = p"
proof -
  assume "aligned_page p"
  then have "take_bit 12 (unat p) = 0" by (simp add: aligned_page_def take_bit_eq_mod)
  then have "take_bit 12 p = 0" by (simp only: word_unat_eq_iff unsigned_take_bit_eq unat_0)
  then show ?thesis using bits_ident [of 12 p] by simp
qed

lemma entry_page_of: "aligned_page p \<Longrightarrow> va (entry_page (table_entry (pa_of p))) = p"
proof -
  assume "aligned_page p"
  then have "pa_of p = push_bit 12 (drop_bit 12 p) - push_bit 12 0xfffffffc000000"
    by (simp add: page_shift pa_of_def)
  then have x: "pa_of p = push_bit 12 (drop_bit 12 p - 0xfffffffc000000)"
    by (simp add: push_bit_eq_mult algebra_simps)
  have "entry_page (table_entry (push_bit 12 q)) = push_bit 12 q" for q
    by (rule bit_eqI) (auto simp: entry_page_def table_entry_def PAGE_PRESENT_def bit_simps)
  then have "entry_page (table_entry (pa_of p)) = pa_of p" by (simp add: x)
  then show ?thesis by (simp add: va_def pa_of_def)
qed

lemma present_table [simp]: "present (table_entry x)"
proof -
  have "bit (table_entry x AND PAGE_PRESENT) 0" by (simp add: table_entry_def PAGE_PRESENT_def bit_simps)
  then show ?thesis unfolding present_def by force
qed

lemma present_zero [simp]: "\<not> present 0"
  by (simp add: present_def)


subsection \<open>Owned pages\<close>

definition own_page :: "'a buddy_state_scheme \<Rightarrow> u64 \<Rightarrow> bool" where
  "own_page s p \<longleftrightarrow> (\<exists>b. p = idx_to_addr s b \<and> owned s b 0)"

definition page_inv :: "'a buddy_state_scheme \<Rightarrow> bool" where
  "page_inv s \<longleftrightarrow> buddy_inv s \<and> base_aligned s"

lemma own_page_upd [simp]:
  "own_page (s\<lparr>mem := m\<rparr>) = own_page s" "own_page (s\<lparr>sie := e\<rparr>) = own_page s" "own_page (s\<lparr>ref_count := r\<rparr>) = own_page s"
  by (auto simp: own_page_def owned_def fun_eq_iff)

lemma base_aligned_upd [simp]:
  "base_aligned (s\<lparr>mem := m\<rparr>) = base_aligned s" "base_aligned (s\<lparr>sie := e\<rparr>) = base_aligned s"
  "base_aligned (s\<lparr>ref_count := r\<rparr>) = base_aligned s"
  by (simp_all add: base_aligned_def)

lemma free_frames_mem [simp]: "free_frames (s\<lparr>mem := m\<rparr>) = free_frames s"
  by (simp add: free_frames_def)

lemma list_area_mem [simp]: "list_area (s\<lparr>mem := m\<rparr>) = list_area s"
  by (simp add: fun_eq_iff list_area_def)

lemma finite_free: "finite (free_frames s)"
  by (simp add: free_frames_def)

lemma owned_index: "owned s b k \<Longrightarrow> b < buddy_total_pages s"
  using block_bound [of "buddy_total_pages s" b k b] by (simp add: owned_def)

lemma frame_page:
  assumes "page_inv s" "b < buddy_total_pages s"
  shows "aligned_page (idx_to_addr s b)" "idx_to_addr s b \<noteq> NULL"
proof -
  have g: "geometry s" using assms inv_geometry by (auto simp: page_inv_def)
  show "aligned_page (idx_to_addr s b)"
    using addr_unat [OF g, of b] assms by (simp add: aligned_page_def page_inv_def base_aligned_def)
  show "idx_to_addr s b \<noteq> NULL" by (rule addr_in_range(1) [OF g assms(2)])
qed

lemma own_page_props:
  assumes "page_inv s" "own_page s p"
  shows "aligned_page p" "p \<noteq> NULL" "in_page p c \<Longrightarrow> c \<notin> list_area s (free_frames s)"
proof -
  obtain b where b: "p = idx_to_addr s b" "owned s b 0" using assms by (auto simp: own_page_def)
  then show "aligned_page p" "p \<noteq> NULL" using frame_page [OF assms(1) owned_index] by auto
  show "c \<notin> list_area s (free_frames s)" if "in_page p c"
    using that b assms(1) owned_page_cell [of s b c] by (simp add: page_inv_def in_page_def)
qed

lemma page_write:
  assumes "page_inv s" "own_page s p" "in_page p c"
  shows "page_inv (s\<lparr>mem := (mem s)(c := x)\<rparr>)"
  using assms own_page_props(3) [OF assms] buddy_inv_write [of s c x]
  by (auto simp: page_inv_def)

text \<open>What \<^verbatim>\<open>alloc_page\<close> does when a frame is free.\<close>

definition page_taken :: "'a buddy_state_scheme \<Rightarrow> nat \<Rightarrow> 'a buddy_state_scheme \<Rightarrow> bool" where
  "page_taken s b s' \<longleftrightarrow>
     page_inv s' \<and> b \<in> free_frames s \<and> owned s' b 0 \<and> free_frames s' = free_frames s - {b} \<and>
     ref_count s' = (ref_count s)(b := 1) \<and> address_map s' = address_map s \<and>
     (\<forall>c k. owned s c k \<longrightarrow> owned s' c k) \<and>
     (\<forall>c. in_page (idx_to_addr s b) c \<and> c AND 7 = 0 \<longrightarrow> mem s' c = 0) \<and>
     (\<forall>c. c \<notin> list_area s (free_frames s) \<and> \<not> in_page (idx_to_addr s b) c \<longrightarrow> mem s' c = mem s c) \<and>
     sie s' = sie s \<and> buddy_state.more s' = buddy_state.more s"

lemma alloc_page_cases:
  assumes inv: "page_inv s"
  shows "if free_frames s = {} then alloc_page s = (NULL, s)
    else \<exists>b. fst (alloc_page s) = idx_to_addr s b \<and> page_taken s b (snd (alloc_page s))"
proof (cases "free_frames s = {}")
  case True
  then show ?thesis
    using page_served [of s] buddy_alloc_cases [of s PAGE_SIZE] inv by (auto simp: page_inv_def alloc_page_def)
next
  case False
  let ?s1 = "snd (buddy_alloc PAGE_SIZE s)"
  have inv': "buddy_inv s" using inv by (simp add: page_inv_def)
  have "can_serve s PAGE_SIZE" using False page_served [OF inv'] by simp
  then obtain b where b: "fst (buddy_alloc PAGE_SIZE s) = idx_to_addr s b" "alloc_effect s b 0 ?s1" "sie ?s1 = sie s"
    using buddy_alloc_cases [OF inv', of PAGE_SIZE] order_of_page by auto
  note map = address_map_eqD [OF address_map_alloc [of PAGE_SIZE s]]
  have f: "frames_of b 0 = {b}" by (auto simp: frames_of_def)
  have free: "b \<in> free_frames s" and own: "owned ?s1 b 0" and inv1: "page_inv ?s1"
    using b(2) inv by (auto simp: alloc_effect_def f page_inv_def base_aligned_def alloc_base)
  then have p: "aligned_page (idx_to_addr s b)" "idx_to_addr s b \<noteq> NULL"
    using frame_page [OF inv, of b] by (auto simp: free_frames_def)
  define m where "m = with_bytes (memset (idx_to_addr s b) 0 4096) (mem ?s1)"
  have m: "m c = (if in_page (idx_to_addr s b) c \<and> c AND 7 = 0 then 0 else mem ?s1 c)" for c
    unfolding m_def by (rule memset_page [OF p(1)])
  have e: "alloc_page s = (idx_to_addr s b, ?s1\<lparr>mem := m\<rparr>)"
    using b(1) p(2) by (simp add: alloc_page_def m_def split_def Let_def)
  have "buddy_inv (?s1\<lparr>mem := m\<rparr>)"
  proof (rule buddy_inv_mem)
    show "buddy_inv ?s1" using inv1 by (simp add: page_inv_def)
    have "own_page ?s1 (idx_to_addr s b)" using own by (auto simp: own_page_def map)
    then show "c \<in> list_area ?s1 (free_frames ?s1) \<Longrightarrow> m c = mem ?s1 c" for c
      using own_page_props(3) [OF inv1] by (auto simp: m)
  qed
  moreover have "ref_count ?s1 = (ref_count s)(b := 1)" using b(2) by (auto simp: alloc_effect_def f fun_eq_iff)
  moreover have "owned (?s1\<lparr>mem := m\<rparr>) = owned ?s1" by (simp add: owned_def fun_eq_iff)
  ultimately have "page_taken s b (?s1\<lparr>mem := m\<rparr>)"
    using b(2,3) own free inv1 alloc_keeps_owned [OF inv'] m
    by (auto simp: page_taken_def page_inv_def alloc_effect_def f)
  then show ?thesis using False e by auto
qed

lemma page_taken_keeps:
  assumes inv: "page_inv s" and t: "page_taken s b s'" and q: "own_page s q"
  shows "own_page s' q" "q \<noteq> idx_to_addr s b" "in_page q c \<Longrightarrow> mem s' c = mem s c"
proof -
  obtain i where i: "q = idx_to_addr s i" "owned s i 0" using q by (auto simp: own_page_def)
  have map: "idx_to_addr s' = idx_to_addr s" using t address_map_eqD(1) by (auto simp: page_taken_def)
  show "own_page s' q" using i t by (auto simp: own_page_def page_taken_def map)
  have b: "b < buddy_total_pages s" "b \<in> free_frames s" using t by (auto simp: page_taken_def free_frames_def)
  show ne: "q \<noteq> idx_to_addr s b"
    using idx_eq_owned [of s i 0 b] owned_not_free [of s i 0] b i inv
    by (auto simp: page_inv_def frames_of_def)
  show "mem s' c = mem s c" if c: "in_page q c"
  proof -
    have "\<not> in_page (idx_to_addr s b) c"
      using in_page_unique own_page_props(1) [OF inv q] frame_page(1) [OF inv b(1)] ne c by blast
    then show ?thesis using t own_page_props(3) [OF inv q c] by (simp add: page_taken_def)
  qed
qed

lemma page_taken_own:
  "page_taken s b s' \<Longrightarrow> own_page s' (idx_to_addr s b)"
  using address_map_eqD(1) [of s' s] by (auto simp: page_taken_def own_page_def)


subsection \<open>Address spaces\<close>

text \<open>The table a path of indices leads to.\<close>

fun table_at :: "mem \<Rightarrow> u64 \<Rightarrow> nat list \<Rightarrow> u64 option" where
  "table_at m t [] = Some t"
| "table_at m t (i # is) =
     (if present (m (entry_at t i)) then table_at m (va (entry_page (m (entry_at t i)))) is else None)"

definition user_path :: "nat list \<Rightarrow> bool" where
  "user_path p \<longleftrightarrow> length p \<le> 2 \<and> (p \<noteq> [] \<longrightarrow> hd p < 256) \<and> list_all (\<lambda>i. i < 512) p"

definition wf_space :: "'a buddy_state_scheme \<Rightarrow> u64 \<Rightarrow> bool" where
  "wf_space s pgd \<longleftrightarrow>
     (\<forall>p t. user_path p \<and> table_at (mem s) pgd p = Some t \<longrightarrow> own_page s t) \<and>
     (\<forall>p q t. user_path p \<and> user_path q \<and> table_at (mem s) pgd p = Some t \<and> table_at (mem s) pgd q = Some t \<longrightarrow> p = q)"

text \<open>The contents of an address space: 0 where a table is missing, as in a zeroed table.\<close>

definition leaf :: "mem \<Rightarrow> u64 \<Rightarrow> nat \<times> nat \<times> nat \<Rightarrow> u64" where
  "leaf m pgd = (\<lambda>(i, j, k). case table_at m pgd [i, j] of None \<Rightarrow> 0 | Some t \<Rightarrow> m (entry_at t k))"

definition indices :: "u64 \<Rightarrow> nat \<times> nat \<times> nat" where
  "indices v = (vpn2 v, vpn1 v, vpn0 v)"

definition user_index :: "nat \<times> nat \<times> nat \<Rightarrow> bool" where
  "user_index = (\<lambda>(i, j, k). i < 256 \<and> j < 512 \<and> k < 512)"

text \<open>What a change of one address space leaves alone: every owned page stays owned with its
  references, and keeps its contents unless it is a table of the space; new tables are new pages.\<close>

definition others_kept :: "u64 \<Rightarrow> 'a buddy_state_scheme \<Rightarrow> 'a buddy_state_scheme \<Rightarrow> bool" where
  "others_kept pgd s s' \<longleftrightarrow>
     (\<forall>b k. owned s b k \<longrightarrow> owned s' b k \<and> (\<forall>i\<in>frames_of b k. ref_count s' i = ref_count s i)) \<and>
     (\<forall>q c. own_page s q \<and> (\<forall>p. user_path p \<longrightarrow> table_at (mem s) pgd p \<noteq> Some q) \<and> in_page q c \<longrightarrow>
        mem s' c = mem s c) \<and>
     (\<forall>p q. user_path p \<and> table_at (mem s') pgd p = Some q \<and> own_page s q \<longrightarrow> table_at (mem s) pgd p = Some q) \<and>
     address_map s' = address_map s \<and> sie s' = sie s \<and> buddy_state.more s' = buddy_state.more s"

lemma table_at_append:
  "table_at m t (p @ q) = Option.bind (table_at m t p) (\<lambda>u. table_at m u q)"
  by (induction p arbitrary: t) auto

lemma table_at_cong:
  "(\<And>n u. n < length q \<Longrightarrow> table_at m t (take n q) = Some u \<Longrightarrow> m' (entry_at u (q ! n)) = m (entry_at u (q ! n))) \<Longrightarrow>
    table_at m' t q = table_at m t q"
proof (induction q arbitrary: t)
  case (Cons i q)
  have "m' (entry_at t i) = m (entry_at t i)" using Cons.prems [of 0 t] by simp
  moreover have "table_at m' u q = table_at m u q"
    if "present (m (entry_at t i))" "u = va (entry_page (m (entry_at t i)))" for u
    using that Cons.prems [of "Suc n" for n] by (intro Cons.IH) auto
  ultimately show ?case by simp
qed simp

lemma user_path_take: "user_path q \<Longrightarrow> user_path (take n q)"
  by (cases q; cases n) (auto simp: user_path_def list_all_iff dest: in_set_takeD)

lemma user_path_nth: "user_path q \<Longrightarrow> n < length q \<Longrightarrow> q ! n < 512"
  by (auto simp: user_path_def list_all_length)

lemma wf_owned: "wf_space s pgd \<Longrightarrow> user_path p \<Longrightarrow> table_at (mem s) pgd p = Some t \<Longrightarrow> own_page s t"
  by (auto simp: wf_space_def)

lemma wf_inj: "wf_space s pgd \<Longrightarrow> user_path p \<Longrightarrow> user_path q \<Longrightarrow> table_at (mem s) pgd p = Some t \<Longrightarrow>
    table_at (mem s) pgd q = Some t \<Longrightarrow> p = q"
  unfolding wf_space_def by blast

lemma own_page_keep: "own_page s q \<Longrightarrow> others_kept pgd s s' \<Longrightarrow> own_page s' q"
  unfolding own_page_def others_kept_def using address_map_eqD(1) by metis

lemma others_kept_refl: "others_kept pgd s s"
  by (simp add: others_kept_def)

lemma others_kept_trans:
  assumes a: "others_kept pgd s s1" and b: "others_kept pgd s1 s2"
  shows "others_kept pgd s s2"
proof -
  have own: "own_page s q \<Longrightarrow> own_page s1 q" for q using own_page_keep [OF _ a] .
  have "mem s2 c = mem s c"
    if q: "own_page s q" "\<forall>p. user_path p \<longrightarrow> table_at (mem s) pgd p \<noteq> Some q" "in_page q c" for q c
  proof -
    have "\<forall>p. user_path p \<longrightarrow> table_at (mem s1) pgd p \<noteq> Some q" using a q unfolding others_kept_def by blast
    then have "mem s2 c = mem s1 c" using b own q unfolding others_kept_def by blast
    also have "\<dots> = mem s c" using a q unfolding others_kept_def by blast
    finally show ?thesis .
  qed
  moreover have "table_at (mem s) pgd p = Some q"
    if "user_path p" "table_at (mem s2) pgd p = Some q" "own_page s q" for p q
    using that own a b unfolding others_kept_def by blast
  moreover have "owned s2 c k \<and> (\<forall>i\<in>frames_of c k. ref_count s2 i = ref_count s i)" if "owned s c k" for c k
  proof -
    have "owned s1 c k \<and> (\<forall>i\<in>frames_of c k. ref_count s1 i = ref_count s i)"
      using a that unfolding others_kept_def by blast
    moreover from this have "owned s2 c k \<and> (\<forall>i\<in>frames_of c k. ref_count s2 i = ref_count s1 i)"
      using b unfolding others_kept_def by blast
    ultimately show ?thesis by simp
  qed
  moreover have "address_map s2 = address_map s \<and> sie s2 = sie s \<and> buddy_state.more s2 = buddy_state.more s"
    using a b by (simp add: others_kept_def)
  ultimately show ?thesis unfolding others_kept_def by blast
qed


text \<open>A missing table is replaced by a new zeroed page.\<close>

lemma grow_tables:
  assumes inv: "page_inv s" and wf: "wf_space s pgd" and pi: "user_path (p @ [i])"
    and t: "table_at (mem s) pgd p = Some t" and absent: "\<not> present (mem s (entry_at t i))"
    and taken: "page_taken s b s1"
  defines "r \<equiv> idx_to_addr s b"
  defines "s' \<equiv> s1\<lparr>mem := (mem s1)(entry_at t i := table_entry (pa_of r))\<rparr>"
  shows "page_inv s'" "wf_space s' pgd" "table_at (mem s') pgd (p @ [i]) = Some r"
    and "user_path q \<Longrightarrow> q \<noteq> p @ [i] \<Longrightarrow> table_at (mem s') pgd q = table_at (mem s) pgd q"
    and "user_index x \<Longrightarrow> leaf (mem s') pgd x = leaf (mem s) pgd x" and "others_kept pgd s s'"
proof -
  have p: "user_path p" and i: "i < 512" using pi user_path_take [of "p @ [i]" "length p"]
    by (auto simp: user_path_def)
  have t_own: "own_page s t" by (rule wf_owned [OF wf p t])
  note t_al = own_page_props(1) [OF inv t_own]
  have inv1: "page_inv s1" using taken by (simp add: page_taken_def)
  have r_al: "aligned_page r" using own_page_props(1) [OF inv1 page_taken_own [OF taken]] by (simp add: r_def)
  have r_new: "q \<noteq> r" if "own_page s q" for q using page_taken_keeps(2) [OF inv taken that] by (simp add: r_def)
  have cell: "mem s' c = mem s c" if "own_page s q" "in_page q c" "c \<noteq> entry_at t i" for q c
    using that page_taken_keeps(3) [OF inv taken that(1,2)] by (simp add: s'_def)
  have entry: "mem s' (entry_at u j) = mem s (entry_at u j)" if "own_page s u" "j < 512" "\<not> (u = t \<and> j = i)" for u j
    using that entry_in_page entry_eq [OF _ t_al that(2) i] own_page_props(1) [OF inv that(1)] by (intro cell) auto
  have zero: "mem s' (entry_at r j) = 0" if "j < 512" for j
    using that taken entry_cell [OF r_al that] entry_in_page [OF r_al that] entry_eq [OF r_al t_al that i] r_new [OF t_own]
    by (auto simp: s'_def page_taken_def r_def)
  show "page_inv s'"
    unfolding s'_def using entry_in_page [OF t_al i] page_taken_keeps(1) [OF inv taken t_own] by (intro page_write [OF inv1])
  have gone: "table_at (mem s) pgd (p @ i # is) = None" for "is"
    using t absent by (simp add: table_at_append)
  have other: "table_at (mem s') pgd q = table_at (mem s) pgd q"
    if q: "user_path q" "take (Suc (length p)) q \<noteq> p @ [i]" for q
  proof (rule table_at_cong)
    fix n u assume n: "n < length q" and u: "table_at (mem s) pgd (take n q) = Some u"
    have "\<not> (u = t \<and> q ! n = i)"
    proof
      assume e: "u = t \<and> q ! n = i"
      then have "take n q = p" using wf_inj [OF wf user_path_take [OF q(1)] p] u t by blast
      then have "take (Suc (length p)) q = p @ [i]" using n e by (auto simp: take_Suc_conv_app_nth)
      then show False using q(2) by simp
    qed
    then show "mem s' (entry_at u (q ! n)) = mem s (entry_at u (q ! n))"
      using entry wf_owned [OF wf user_path_take [OF q(1)] u] user_path_nth [OF q(1) n] by blast
  qed
  have p': "table_at (mem s') pgd p = Some t" using other [OF p] t by simp
  have new: "table_at (mem s') pgd (p @ i # is) = table_at (mem s') r is" for "is"
    using p' entry_page_of [OF r_al] by (simp add: table_at_append s'_def)
  show at_new: "table_at (mem s') pgd (p @ [i]) = Some r" using new [of "[]"] by simp
  show same: "table_at (mem s') pgd q = table_at (mem s) pgd q" if q: "user_path q" "q \<noteq> p @ [i]" for q
  proof (cases "take (Suc (length p)) q = p @ [i]")
    case True
    then obtain rest where rest: "q = p @ i # rest" by (metis append_take_drop_id append_Cons append_Nil append_assoc)
    then obtain j rest' where "rest = j # rest'" using q(2) by (cases rest) auto
    moreover then have "j < 512" using q(1) rest by (auto simp: user_path_def)
    ultimately show ?thesis using zero by (simp add: rest new gone)
  qed (rule other [OF q(1)])
  have r_own: "own_page s' r" using page_taken_own [OF taken] by (simp add: s'_def r_def)
  have keep: "own_page s' q" if "own_page s q" for q
    using page_taken_keeps(1) [OF inv taken that] by (simp add: s'_def)
  have tables: "q = p @ [i] \<and> u = r \<or> q \<noteq> p @ [i] \<and> table_at (mem s) pgd q = Some u \<and> own_page s u"
    if "user_path q" "table_at (mem s') pgd q = Some u" for q u
    using that same at_new wf_owned [OF wf] by (cases "q = p @ [i]") auto
  show "wf_space s' pgd"
    unfolding wf_space_def using tables r_own keep r_new wf_inj [OF wf] by metis
  show "leaf (mem s') pgd x = leaf (mem s) pgd x" if x: "user_index x"
  proof -
    obtain a c k where x': "x = (a, c, k)" "a < 256" "c < 512" "k < 512" using x by (auto simp: user_index_def)
    then have q: "user_path [a, c]" by (simp add: user_path_def)
    show ?thesis
    proof (cases "[a, c] = p @ [i]")
      case True
      have "table_at (mem s') pgd [a, c] = Some r" "table_at (mem s) pgd [a, c] = None"
        unfolding True using at_new gone [of "[]"] by simp_all
      then show ?thesis using zero [OF x'(4)] by (simp add: leaf_def x' del: table_at.simps)
    next
      case False
      have "mem s' (entry_at u k) = mem s (entry_at u k)" if u: "table_at (mem s) pgd [a, c] = Some u" for u
      proof (rule entry [OF wf_owned [OF wf q u] x'(4)])
        show "\<not> (u = t \<and> k = i)"
          using wf_inj [OF wf q p u] t pi by (auto simp: user_path_def)
      qed
      then show ?thesis
        using same [OF q False] by (auto simp: leaf_def x' simp del: table_at.simps split: option.splits)
    qed
  qed
  show "others_kept pgd s s'"
    unfolding others_kept_def
  proof (intro conjI allI impI)
    fix c k assume own: "owned s c k"
    have "b \<notin> frames_of c k" using taken owned_not_free [OF _ own] inv by (auto simp: page_taken_def page_inv_def)
    then show "owned s' c k" "\<forall>j\<in>frames_of c k. ref_count s' j = ref_count s j"
      using own taken by (auto simp: s'_def page_taken_def owned_def)
  next
    fix q c assume q: "own_page s q \<and> (\<forall>p. user_path p \<longrightarrow> table_at (mem s) pgd p \<noteq> Some q) \<and> in_page q c"
    then have "q \<noteq> t" using p t by blast
    then have "c \<noteq> entry_at t i"
      using q in_page_unique [of q t c] own_page_props(1) [OF inv] t_al entry_in_page [OF t_al i] by blast
    then show "mem s' c = mem s c" using cell q by blast
  next
    fix q u assume "user_path q \<and> table_at (mem s') pgd q = Some u \<and> own_page s u"
    then show "table_at (mem s) pgd q = Some u" using tables r_new by blast
  qed (use taken in \<open>simp_all add: s'_def page_taken_def\<close>)
qed


lemma next_table_step:
  assumes inv: "page_inv s" and wf: "wf_space s pgd" and pi: "user_path (p @ [i])"
    and t: "table_at (mem s) pgd p = Some t" and room: "free_frames s \<noteq> {}"
  defines "r \<equiv> fst (next_table (entry_at t i) s)" and "s' \<equiv> snd (next_table (entry_at t i) s)"
  shows "page_inv s'" "wf_space s' pgd" "table_at (mem s') pgd (p @ [i]) = Some r"
    and "user_index x \<Longrightarrow> leaf (mem s') pgd x = leaf (mem s) pgd x" and "others_kept pgd s s'"
    and "card (free_frames s) \<le> card (free_frames s') + 1"
    and "user_path q \<Longrightarrow> table_at (mem s) pgd q = Some u \<Longrightarrow> table_at (mem s') pgd q = Some u"
proof -
  have all: "page_inv s' \<and> wf_space s' pgd \<and> table_at (mem s') pgd (p @ [i]) = Some r \<and>
      (\<forall>x. user_index x \<longrightarrow> leaf (mem s') pgd x = leaf (mem s) pgd x) \<and> others_kept pgd s s' \<and>
      card (free_frames s) \<le> card (free_frames s') + 1 \<and>
      (\<forall>q u. user_path q \<and> table_at (mem s) pgd q = Some u \<longrightarrow> table_at (mem s') pgd q = Some u)"
  proof (cases "present (mem s (entry_at t i))")
    case True
    then have "r = va (entry_page (mem s (entry_at t i)))" "s' = s" by (simp_all add: r_def s'_def next_table_def)
    then show ?thesis using inv wf t True by (simp add: table_at_append others_kept_refl)
  next
    case False
    obtain b where b: "fst (alloc_page s) = idx_to_addr s b" "page_taken s b (snd (alloc_page s))"
      using alloc_page_cases [OF inv] room by auto
    have r: "r = idx_to_addr s b"
      and s': "s' = (snd (alloc_page s))\<lparr>mem := (mem (snd (alloc_page s)))(entry_at t i := table_entry (pa_of (idx_to_addr s b)))\<rparr>"
      using False b(1) by (simp_all add: r_def s'_def next_table_def split_def Let_def)
    note g = grow_tables [OF inv wf pi t False b(2), folded s' r]
    have "free_frames s' = free_frames s - {b}" using b(2) by (simp add: s' page_taken_def)
    then have "card (free_frames s) \<le> card (free_frames s') + 1"
      by (cases "b \<in> free_frames s") (auto simp: card_Diff_singleton_if)
    moreover have "table_at (mem s') pgd q = Some u" if "user_path q" "table_at (mem s) pgd q = Some u" for q u
    proof -
      have "q \<noteq> p @ [i]" using t False that(2) by (auto simp: table_at_append)
      then show ?thesis using g(4) that by simp
    qed
    ultimately show ?thesis using g by blast
  qed
  then show "page_inv s'" "wf_space s' pgd" "table_at (mem s') pgd (p @ [i]) = Some r" "others_kept pgd s s'"
    "card (free_frames s) \<le> card (free_frames s') + 1"
    "user_index x \<Longrightarrow> leaf (mem s') pgd x = leaf (mem s) pgd x"
    "user_path q \<Longrightarrow> table_at (mem s) pgd q = Some u \<Longrightarrow> table_at (mem s') pgd q = Some u"
    by blast+
qed

text \<open>A write to a leaf entry changes no table and one leaf.\<close>

lemma leaf_write:
  fixes e :: u64
  assumes inv: "page_inv s" and wf: "wf_space s pgd" and ij: "user_path [i, j]" and k: "k < 512"
    and t: "table_at (mem s) pgd [i, j] = Some t"
  defines "s' \<equiv> s\<lparr>mem := (mem s)(entry_at t k := e)\<rparr>"
  shows "page_inv s'" "wf_space s' pgd" "others_kept pgd s s'"
    and "user_path q \<Longrightarrow> table_at (mem s') pgd q = table_at (mem s) pgd q"
    and "user_index x \<Longrightarrow> leaf (mem s') pgd x = ((leaf (mem s) pgd)((i, j, k) := e)) x"
proof -
  have t_own: "own_page s t" by (rule wf_owned [OF wf ij t])
  note t_al = own_page_props(1) [OF inv t_own]
  show "page_inv s'" unfolding s'_def by (rule page_write [OF inv t_own entry_in_page [OF t_al k]])
  have entry: "mem s' (entry_at u n) = (if u = t \<and> n = k then e else mem s (entry_at u n))"
    if "own_page s u" "n < 512" for u n
    using entry_eq [OF own_page_props(1) [OF inv that(1)] t_al that(2) k] by (simp add: s'_def)
  show same: "table_at (mem s') pgd q = table_at (mem s) pgd q" if q: "user_path q" for q
  proof (rule table_at_cong)
    fix n u assume n: "n < length q" and u: "table_at (mem s) pgd (take n q) = Some u"
    have "take n q \<noteq> [i, j]" using q n by (auto simp: user_path_def dest: arg_cong [of _ _ length])
    then have "u \<noteq> t" using wf_inj [OF wf user_path_take [OF q] ij u] t by blast
    then show "mem s' (entry_at u (q ! n)) = mem s (entry_at u (q ! n))"
      using entry [OF wf_owned [OF wf user_path_take [OF q] u] user_path_nth [OF q n]] by simp
  qed
  moreover have "own_page s' = own_page s" by (simp add: s'_def)
  ultimately show "wf_space s' pgd" using wf unfolding wf_space_def by metis
  show "leaf (mem s') pgd x = ((leaf (mem s) pgd)((i, j, k) := e)) x" if x: "user_index x"
  proof -
    obtain a c n where x': "x = (a, c, n)" "a < 256" "c < 512" "n < 512" using x by (auto simp: user_index_def)
    then have q: "user_path [a, c]" by (simp add: user_path_def)
    have "mem s' (entry_at u n) = (if [a, c] = [i, j] \<and> n = k then e else mem s (entry_at u n))"
      if u: "table_at (mem s) pgd [a, c] = Some u" for u
      using entry [OF wf_owned [OF wf q u] x'(4)] wf_inj [OF wf q ij u] t u by (auto simp del: table_at.simps)
    then show ?thesis
      using same [OF q] t by (auto simp: leaf_def x' simp del: table_at.simps split: option.splits)
  qed
  show "others_kept pgd s s'"
    unfolding others_kept_def
  proof (intro conjI allI impI)
    fix q c assume q: "own_page s q \<and> (\<forall>p. user_path p \<longrightarrow> table_at (mem s) pgd p \<noteq> Some q) \<and> in_page q c"
    then have "q \<noteq> t" using ij t by blast
    then show "mem s' c = mem s c"
      using q in_page_unique [OF own_page_props(1) [OF inv] t_al, of q c] entry_in_page [OF t_al k] by (auto simp: s'_def)
  qed (use same in \<open>auto simp: s'_def owned_def\<close>)
qed


lemma vpn_bounds: "vpn2 v < 512" "vpn1 v < 512" "vpn0 v < 512"
proof -
  have "unat (w AND 0x1FF :: u64) < 512" for w
  proof -
    have "w AND 0x1FF = take_bit 9 w" by (simp add: take_bit_eq_mask mask_eq_exp_minus_1)
    then show ?thesis by (simp only: unsigned_take_bit_eq) (simp add: take_bit_eq_mod)
  qed
  then show "vpn2 v < 512" "vpn1 v < 512" "vpn0 v < 512" by (simp_all add: vpn2_def vpn1_def vpn0_def)
qed

lemma leaf_entry_present: "present (leaf_entry pa prot)"
proof -
  have "bit (leaf_entry pa prot AND PAGE_PRESENT) 0" by (simp add: leaf_entry_def page_flags bit_simps)
  then show ?thesis unfolding present_def by force
qed

lemma walk_pte_table:
  "pgd \<noteq> NULL \<Longrightarrow> walk_pte pgd v s =
    (case table_at (mem s) pgd [vpn2 v, vpn1 v] of None \<Rightarrow> NULL | Some t \<Rightarrow> entry_at t (vpn0 v))"
  by (simp add: walk_pte_def Let_def)

definition user_address :: "u64 \<Rightarrow> bool" where "user_address v \<longleftrightarrow> vpn2 v < 256"

lemma pagewalk_step:
  fixes pa prot :: u64
  assumes inv: "page_inv s" and wf: "wf_space s pgd" and v: "user_address v" and room: "2 \<le> card (free_frames s)"
  defines "s' \<equiv> pagewalk pgd v pa prot s"
  shows "page_inv s'" "wf_space s' pgd" "others_kept pgd s s'"
    and "user_index x \<Longrightarrow> leaf (mem s') pgd x = ((leaf (mem s) pgd)(indices v := leaf_entry pa prot)) x"
    and "card (free_frames s) \<le> card (free_frames s') + 2"
    and "\<exists>t. own_page s' t \<and> walk_pte pgd v s' = entry_at t (vpn0 v) \<and> mem s' (entry_at t (vpn0 v)) = leaf_entry pa prot"
proof -
  let ?i = "vpn2 v" and ?j = "vpn1 v" and ?k = "vpn0 v"
  obtain pmd s1 where 1: "next_table (entry_at pgd ?i) s = (pmd, s1)" by fastforce
  obtain pte s2 where 2: "next_table (entry_at pmd ?j) s1 = (pte, s2)" by fastforce
  have p: "user_path ([] @ [?i])" "user_path ([?i] @ [?j])" "user_path []"
    using v vpn_bounds by (auto simp: user_path_def user_address_def)
  have room1: "free_frames s \<noteq> {}" using room by auto
  note a = next_table_step [OF inv wf p(1) table_at.simps(1) room1, unfolded 1 fst_conv snd_conv]
  have room2: "free_frames s1 \<noteq> {}" using a(6) room by auto
  have at: "table_at (mem s1) pgd [?i] = Some pmd" using a(3) by simp
  note b = next_table_step [OF a(1,2) p(2) at room2, unfolded 2 fst_conv snd_conv]
  have ij: "user_path [?i, ?j]" and at2: "table_at (mem s2) pgd [?i, ?j] = Some pte"
    using p(2) b(3) by (simp_all add: user_path_def)
  have s': "s' = s2\<lparr>mem := (mem s2)(entry_at pte ?k := leaf_entry pa prot)\<rparr>"
    using 1 2 by (simp add: s'_def pagewalk_def)
  note c = leaf_write [OF b(1,2) ij vpn_bounds(3) [of v] at2, where e = "leaf_entry pa prot", folded s']
  show "page_inv s'" "wf_space s' pgd" by (rule c)+
  show "others_kept pgd s s'" using others_kept_trans [OF others_kept_trans [OF a(5) b(5)] c(3)] .
  show "leaf (mem s') pgd x = ((leaf (mem s) pgd)(indices v := leaf_entry pa prot)) x" if "user_index x"
    using c(5) [OF that] b(4) [OF that] a(4) [OF that] by (simp add: indices_def)
  show "card (free_frames s) \<le> card (free_frames s') + 2" using a(6) b(6) by (simp add: s')
  have "own_page s' pte" using wf_owned [OF b(2) ij at2] by (simp add: s')
  moreover have "pgd \<noteq> NULL" using own_page_props(2) [OF inv wf_owned [OF wf p(3)]] by simp
  then have "walk_pte pgd v s' = entry_at pte ?k" using c(4) [OF ij] at2 by (simp add: walk_pte_table del: table_at.simps)
  ultimately show "\<exists>t. own_page s' t \<and> walk_pte pgd v s' = entry_at t ?k \<and> mem s' (entry_at t ?k) = leaf_entry pa prot"
    by (auto simp: s')
qed

lemma walk_pte_leaf:
  assumes inv: "page_inv s" and wf: "wf_space s pgd" and v: "user_address v"
  shows "leaf (mem s) pgd (indices v) = (if walk_pte pgd v s = NULL then 0 else mem s (walk_pte pgd v s))"
    and "walk_pte pgd v s \<noteq> NULL \<Longrightarrow> \<exists>t. table_at (mem s) pgd [vpn2 v, vpn1 v] = Some t \<and>
           walk_pte pgd v s = entry_at t (vpn0 v) \<and> own_page s t"
proof -
  have p: "user_path [vpn2 v, vpn1 v]" "user_path []" using v vpn_bounds by (auto simp: user_path_def user_address_def)
  have pgd: "pgd \<noteq> NULL" using own_page_props(2) [OF inv wf_owned [OF wf p(2)]] by simp
  have "entry_at t (vpn0 v) \<noteq> NULL" if t: "table_at (mem s) pgd [vpn2 v, vpn1 v] = Some t" for t
  proof -
    note o = wf_owned [OF wf p(1) t]
    have "unat t \<noteq> 0" using own_page_props(2) [OF inv o] by (simp add: unat_eq_0)
    then have "unat (entry_at t (vpn0 v)) \<noteq> 0"
      using entry_unat [OF own_page_props(1) [OF inv o] vpn_bounds(3)] by simp
    then show ?thesis by auto
  qed
  then show "leaf (mem s) pgd (indices v) = (if walk_pte pgd v s = NULL then 0 else mem s (walk_pte pgd v s))"
    by (auto simp: walk_pte_table [OF pgd] leaf_def indices_def simp del: table_at.simps split: option.splits)
  show "\<exists>t. table_at (mem s) pgd [vpn2 v, vpn1 v] = Some t \<and> walk_pte pgd v s = entry_at t (vpn0 v) \<and> own_page s t"
    if "walk_pte pgd v s \<noteq> NULL"
    using that wf_owned [OF wf p(1)]
    by (auto simp: walk_pte_table [OF pgd] simp del: table_at.simps split: option.splits)
qed


subsection \<open>Ranges and removal\<close>

definition map_range :: "nat \<Rightarrow> u64 \<Rightarrow> u64 \<Rightarrow> u64 \<Rightarrow> (nat \<times> nat \<times> nat \<Rightarrow> u64) \<Rightarrow> (nat \<times> nat \<times> nat \<Rightarrow> u64)" where
  "map_range n v pa prot L =
     fold (\<lambda>i L. L(indices (v + of_nat i * PAGE_SIZE) := leaf_entry (pa + of_nat i * PAGE_SIZE) prot)) [0..<n] L"

lemma page_count_less:
  assumes "i \<le> n" "n < 2 ^ 51"
  shows "of_nat i * PAGE_SIZE < of_nat n * PAGE_SIZE \<longleftrightarrow> i < n"
proof -
  have "unat (of_nat j * PAGE_SIZE) = j * 4096" if "j \<le> n" for j
    using unat_of_nat_small [of "j * 4096"] that assms(2) by simp
  then show ?thesis using assms(1) by (simp add: word_less_nat_alt)
qed

lemma map_range_user: "user_index x \<Longrightarrow> (\<And>x. user_index x \<Longrightarrow> L x = L' x) \<Longrightarrow> map_range n v pa prot L x = map_range n v pa prot L' x"
  by (induction n arbitrary: x) (auto simp: map_range_def)

lemma map_pages_run:
  assumes n: "n < 2 ^ 51" and i: "i \<le> n" and inv: "page_inv s" and wf: "wf_space s pgd"
    and room: "2 * (n - i) \<le> card (free_frames s)"
    and user: "\<And>j. j < n \<Longrightarrow> user_address (v + of_nat j * PAGE_SIZE)"
    and L: "\<And>x. user_index x \<Longrightarrow> leaf (mem s) pgd x = map_range i v pa prot L0 x"
  shows "\<exists>s'. map_pages_from (of_nat i * PAGE_SIZE) pgd v (of_nat n * PAGE_SIZE) pa prot s = Some s' \<and>
    page_inv s' \<and> wf_space s' pgd \<and> others_kept pgd s s' \<and>
    (\<forall>x. user_index x \<longrightarrow> leaf (mem s') pgd x = map_range n v pa prot L0 x)"
  using i inv wf room L
proof (induction "n - i" arbitrary: i s)
  case 0
  then show ?case using page_count_less [OF _ n, of i] others_kept_refl
    by (subst map_pages_from.simps) auto
next
  case (Suc d)
  let ?v = "v + of_nat i * PAGE_SIZE" and ?pa = "pa + of_nat i * PAGE_SIZE"
  let ?s = "pagewalk pgd ?v ?pa prot s"
  have i: "i < n" using Suc.hyps(2) by simp
  note w = pagewalk_step [OF Suc.prems(2,3), where v = ?v and pa = ?pa and prot = prot, OF user [OF i]]
  have r1: "2 \<le> card (free_frames s)" using Suc.prems(4) i by linarith
  have "2 * (n - Suc i) \<le> card (free_frames ?s)" using Suc.prems(4) i w(5) [OF r1] by linarith
  note room = r1 this
  have L: "leaf (mem ?s) pgd x = map_range (Suc i) v pa prot L0 x" if "user_index x" for x
    using w(4) [OF room(1) that] Suc.prems(5) [OF that] by (simp add: map_range_def)
  have "\<exists>s'. map_pages_from (of_nat (Suc i) * PAGE_SIZE) pgd v (of_nat n * PAGE_SIZE) pa prot ?s = Some s' \<and>
    page_inv s' \<and> wf_space s' pgd \<and> others_kept pgd ?s s' \<and>
    (\<forall>x. user_index x \<longrightarrow> leaf (mem s') pgd x = map_range n v pa prot L0 x)"
    using Suc.hyps(2) i w(1,2) [OF room(1)] room(2) L by (intro Suc.hyps(1)) auto
  then obtain s' where s': "map_pages_from (of_nat (Suc i) * PAGE_SIZE) pgd v (of_nat n * PAGE_SIZE) pa prot ?s = Some s'"
    "page_inv s'" "wf_space s' pgd" "others_kept pgd ?s s'"
    "\<forall>x. user_index x \<longrightarrow> leaf (mem s') pgd x = map_range n v pa prot L0 x" by blast
  have "of_nat i * PAGE_SIZE + PAGE_SIZE = of_nat (Suc i) * (PAGE_SIZE :: u64)" by (simp add: algebra_simps)
  then have "map_pages_from (of_nat i * PAGE_SIZE) pgd v (of_nat n * PAGE_SIZE) pa prot s = Some s'"
    using s'(1) i page_count_less [OF Suc.prems(1) n] by (subst map_pages_from.simps) (simp add: add.commute)
  then show ?case using s' others_kept_trans [OF w(3) [OF room(1)] s'(4)] by blast
qed

lemma unmap_page_step:
  assumes inv: "page_inv s" and wf: "wf_space s pgd" and v: "user_address v"
  defines "s' \<equiv> unmap_page pgd v s"
  shows "page_inv s'" "wf_space s' pgd" "others_kept pgd s s'"
    and "user_index x \<Longrightarrow> leaf (mem s') pgd x = ((leaf (mem s) pgd)(indices v := 0)) x"
proof -
  have ij: "user_path [vpn2 v, vpn1 v]" using v vpn_bounds by (auto simp: user_path_def user_address_def)
  have "page_inv s' \<and> wf_space s' pgd \<and> others_kept pgd s s' \<and>
    (\<forall>x. user_index x \<longrightarrow> leaf (mem s') pgd x = ((leaf (mem s) pgd)(indices v := 0)) x)"
  proof (cases "table_at (mem s) pgd [vpn2 v, vpn1 v]")
    case None
    then have "s' = s" by (auto simp: s'_def unmap_page_def Let_def split: if_splits)
    moreover have "leaf (mem s) pgd (indices v) = 0" using None by (simp add: leaf_def indices_def del: table_at.simps)
    ultimately show ?thesis using inv wf others_kept_refl by auto
  next
    case (Some t)
    then have "s' = s\<lparr>mem := (mem s)(entry_at t (vpn0 v) := 0)\<rparr>"
      by (auto simp: s'_def unmap_page_def Let_def split: if_splits)
    then show ?thesis
      using leaf_write [OF inv wf ij vpn_bounds(3) [of v] Some, where e = 0] by (simp add: indices_def)
  qed
  then show "page_inv s'" "wf_space s' pgd" "others_kept pgd s s'"
    "user_index x \<Longrightarrow> leaf (mem s') pgd x = ((leaf (mem s) pgd)(indices v := 0)) x" by blast+
qed


subsection \<open>Releasing an address space\<close>

text \<open>The pages \<^verbatim>\<open>free_user_space\<close> gives back, in its order.\<close>

definition leaf_page :: "mem \<Rightarrow> u64 \<Rightarrow> nat \<Rightarrow> u64 list" where
  "leaf_page m pte k =
     (let e = m (entry_at pte k) in if present e \<and> e AND PAGE_USER \<noteq> 0 then [va (entry_page e)] else [])"

definition pte_pages :: "mem \<Rightarrow> u64 \<Rightarrow> nat \<Rightarrow> u64 list" where
  "pte_pages m pmd j =
     (let e = m (entry_at pmd j); pte = va (entry_page e)
      in if present e then concat (map (leaf_page m pte) [0..<512]) @ [pte] else [])"

definition pmd_pages :: "mem \<Rightarrow> u64 \<Rightarrow> nat \<Rightarrow> u64 list" where
  "pmd_pages m pgd i =
     (let e = m (entry_at pgd i); pmd = va (entry_page e)
      in if present e then concat (map (pte_pages m pmd) [0..<512]) @ [pmd] else [])"

definition space_pages :: "mem \<Rightarrow> u64 \<Rightarrow> u64 list" where
  "space_pages m pgd = concat (map (pmd_pages m pgd) [0..<256]) @ [pgd]"

text \<open>The pages still to be read are owned and unchanged.\<close>

definition agree :: "'a buddy_state_scheme \<Rightarrow> mem \<Rightarrow> u64 set \<Rightarrow> bool" where
  "agree s m A \<longleftrightarrow> page_inv s \<and> (\<forall>q\<in>A. own_page s q \<and> (\<forall>c. in_page q c \<longrightarrow> mem s c = m c))"

lemma agree_entry: "agree s m A \<Longrightarrow> t \<in> A \<Longrightarrow> i < 512 \<Longrightarrow> mem s (entry_at t i) = m (entry_at t i)"
  using entry_in_page own_page_props(1) [of s t] by (auto simp: agree_def)

lemma agree_subset: "agree s m B \<Longrightarrow> A \<subseteq> B \<Longrightarrow> agree s m A"
  by (auto simp: agree_def)

lemma free_page_inv:
  assumes inv: "page_inv s" and p: "own_page s p"
  shows "page_inv (buddy_free p s)"
proof -
  obtain b where b: "p = idx_to_addr s b" "owned s b 0" using p by (auto simp: own_page_def)
  then show ?thesis
    using inv free_keeps_inv [of s b 0] by (simp add: page_inv_def base_aligned_def alloc_base)
qed

lemma free_page_keeps:
  assumes inv: "page_inv s" and p: "own_page s p" and q: "own_page s q" "q \<noteq> p"
  shows "own_page (buddy_free p s) q" "in_page q c \<Longrightarrow> mem (buddy_free p s) c = mem s c"
proof -
  have inv': "buddy_inv s" using inv by (simp add: page_inv_def)
  obtain b where b: "p = idx_to_addr s b" "owned s b 0" using p by (auto simp: own_page_def)
  obtain d where d: "q = idx_to_addr s d" "owned s d 0" using q by (auto simp: own_page_def)
  have bd: "d \<noteq> b" using b d q(2) by auto
  then have "owned (buddy_free p s) d 0" unfolding b(1) using free_keeps_owned [OF inv' b(2) d(2)] by simp
  then show "own_page (buddy_free p s) q"
    using d(1) address_map_eqD(1) [OF address_map_free [of p s]] by (auto simp: own_page_def)
  show "mem (buddy_free p s) c = mem s c" if c: "in_page q c"
  proof -
    have "c \<notin> list_area s (free_frames s \<union> frames_of b 0)"
    proof (rule page_not_list [OF inv_geometry [OF inv'], of d])
      show "d < buddy_total_pages s" "safe_page s d" using d(2) owned_index by (auto simp: owned_def)
      show "d \<notin> free_frames s \<union> frames_of b 0"
        using owned_not_free [OF inv' d(2)] bd by (auto simp: frames_of_def)
      show "free_frames s \<union> frames_of b 0 \<subseteq> {..<buddy_total_pages s}"
        using owned_index [OF b(2)] by (auto simp: free_frames_def frames_of_def)
    qed (use c d(1) in \<open>simp_all add: in_page_def\<close>)
    then show ?thesis unfolding b(1) by (rule free_mem [OF inv' b(2)])
  qed
qed

lemma free_agree: "agree s m (insert p A) \<Longrightarrow> p \<notin> A \<Longrightarrow> agree (buddy_free p s) m A"
  using free_page_inv [of s p] free_page_keeps [of s p] unfolding agree_def by (metis insertCI)

lemma frees_agree:
  "distinct ps \<Longrightarrow> set ps \<inter> A = {} \<Longrightarrow> agree s m (set ps \<union> A) \<Longrightarrow> agree (fold buddy_free ps s) m A"
proof (induction ps arbitrary: s)
  case (Cons p ps)
  then have "agree (buddy_free p s) m (set ps \<union> A)" by (intro free_agree) auto
  then show ?case using Cons by auto
qed simp

lemma fold_pages:
  assumes step: "\<And>i s. i \<in> set is \<Longrightarrow> agree s m (insert t (set (l i))) \<Longrightarrow> distinct (l i) \<Longrightarrow> t \<notin> set (l i) \<Longrightarrow>
      f i s = fold buddy_free (l i) s"
    and ag: "agree s m (insert t (set (concat (map l is))))" and d: "distinct (concat (map l is))"
    and t: "t \<notin> set (concat (map l is))"
  shows "fold f is s = fold buddy_free (concat (map l is)) s"
  using assms
proof (induction "is" arbitrary: s)
  case (Cons i "is")
  have "f i s = fold buddy_free (l i) s"
    using Cons.prems(2-4) by (intro Cons.prems(1)) (auto elim: agree_subset)
  moreover have "agree (fold buddy_free (l i) s) m (insert t (set (concat (map l is))))"
    using Cons.prems(2-4) by (intro frees_agree) (auto simp: insert_commute Un_ac)
  ultimately show ?case using Cons by simp
qed simp

lemma free_leaf_pages:
  "k < 512 \<Longrightarrow> agree s m (insert t (set (leaf_page m t k))) \<Longrightarrow> free_leaf t k s = fold buddy_free (leaf_page m t k) s"
  using agree_entry [of s m _ t k] by (auto simp: free_leaf_def leaf_page_def Let_def)

lemma free_pte_pages:
  assumes "j < 512" "agree s m (insert t (set (pte_pages m t j)))" "distinct (pte_pages m t j)" "t \<notin> set (pte_pages m t j)"
  shows "free_pte_table t j s = fold buddy_free (pte_pages m t j) s"
proof -
  let ?pte = "va (entry_page (m (entry_at t j)))"
  have "fold (free_leaf ?pte) [0..<512] s = fold buddy_free (concat (map (leaf_page m ?pte) [0..<512])) s"
    if "present (m (entry_at t j))"
    using assms(2,3) that
    by (intro fold_pages [where m = m] free_leaf_pages) (auto simp: pte_pages_def Let_def elim!: agree_subset)
  then show ?thesis
    using agree_entry [OF assms(2) _ assms(1), of t] by (auto simp: free_pte_table_def pte_pages_def Let_def)
qed

lemma free_pmd_pages:
  assumes "i < 512" "agree s m (insert t (set (pmd_pages m t i)))" "distinct (pmd_pages m t i)" "t \<notin> set (pmd_pages m t i)"
  shows "free_pmd_table t i s = fold buddy_free (pmd_pages m t i) s"
proof -
  let ?pmd = "va (entry_page (m (entry_at t i)))"
  have "fold (free_pte_table ?pmd) [0..<512] s = fold buddy_free (concat (map (pte_pages m ?pmd) [0..<512])) s"
    if "present (m (entry_at t i))"
    using assms(2,3) that
    by (intro fold_pages [where m = m] free_pte_pages) (auto simp: pmd_pages_def Let_def elim!: agree_subset)
  then show ?thesis
    using agree_entry [OF assms(2) _ assms(1), of t] by (auto simp: free_pmd_table_def pmd_pages_def Let_def)
qed

definition space_ok :: "'a buddy_state_scheme \<Rightarrow> u64 \<Rightarrow> bool" where
  "space_ok s pgd \<longleftrightarrow> distinct (space_pages (mem s) pgd) \<and> list_all (own_page s) (space_pages (mem s) pgd)"

lemma free_user_space_pages:
  assumes inv: "page_inv s" and ok: "space_ok s pgd"
  shows "free_user_space pgd s = fold buddy_free (space_pages (mem s) pgd) s"
proof -
  have own: "own_page s q" if "q \<in> set (space_pages (mem s) pgd)" for q
    using ok that by (simp add: space_ok_def list_all_iff)
  have "agree s (mem s) (set (space_pages (mem s) pgd))" using inv own by (simp add: agree_def)
  then have "fold (free_pmd_table pgd) [0..<256] s = fold buddy_free (concat (map (pmd_pages (mem s) pgd) [0..<256])) s"
    using ok by (intro fold_pages [where m = "mem s"] free_pmd_pages) (auto simp: space_pages_def space_ok_def)
  moreover have "pgd \<noteq> NULL" using own_page_props(2) [OF inv own, of pgd] by (simp add: space_pages_def)
  ultimately show ?thesis by (simp add: free_user_space_def space_pages_def)
qed


text \<open>Which frames become free, and which only lose a reference.\<close>

definition drops :: "'a buddy_state_scheme \<Rightarrow> nat set \<Rightarrow> 'a buddy_state_scheme \<Rightarrow> bool" where
  "drops s B s' \<longleftrightarrow>
     free_frames s' = free_frames s \<union> {b \<in> B. ref_count s b \<le> 1} \<and>
     (\<forall>b\<in>B. 1 < ref_count s b \<longrightarrow> owned s' b 0 \<and> ref_count s' b = ref_count s b - 1) \<and>
     (\<forall>b. b \<notin> B \<longrightarrow> ref_count s' b = ref_count s b \<and> (owned s b 0 \<longrightarrow> owned s' b 0))"

lemma free_page_frames:
  assumes inv: "page_inv s" and own: "owned s b 0"
  defines "s' \<equiv> buddy_free (idx_to_addr s b) s"
  shows "free_frames s' = (if ref_count s b \<le> 1 then insert b (free_frames s) else free_frames s)"
    and "i \<noteq> b \<Longrightarrow> ref_count s' i = ref_count s i"
    and "1 < ref_count s b \<Longrightarrow> ref_count s' b = ref_count s b - 1 \<and> owned s' b 0"
    and "address_map s' = address_map s"
proof -
  have inv': "buddy_inv s" using inv by (simp add: page_inv_def)
  have f: "frames_of b 0 = {b}" by (auto simp: frames_of_def)
  note last = buddy_free_last(1) [OF inv' own, folded s'_def, unfolded free_effect_def f]
  note shared = buddy_free_shared [OF inv' own block_head, folded s'_def]
  show "free_frames s' = (if ref_count s b \<le> 1 then insert b (free_frames s) else free_frames s)"
    using last shared by (cases "ref_count s b \<le> 1") (auto simp: free_frames_def)
  show "i \<noteq> b \<Longrightarrow> ref_count s' i = ref_count s i"
    using last shared by (cases "ref_count s b \<le> 1") auto
  show "1 < ref_count s b \<Longrightarrow> ref_count s' b = ref_count s b - 1 \<and> owned s' b 0"
    using shared own by (simp add: owned_def)
  show "address_map s' = address_map s" by (simp add: s'_def)
qed

lemma drops_step:
  assumes inv: "page_inv s" and own: "owned s b 0" and b: "b \<notin> B"
    and d: "drops (buddy_free (idx_to_addr s b) s) B s'"
  shows "drops s (insert b B) s'"
proof -
  let ?s1 = "buddy_free (idx_to_addr s b) s"
  note fr = free_page_frames [OF inv own]
  have inv': "buddy_inv s" using inv by (simp add: page_inv_def)
  have keep: "owned ?s1 i 0" if "owned s i 0" "i \<noteq> b" for i
    using free_keeps_owned [OF inv' own that(1)] that(2) by simp
  have r: "ref_count ?s1 i = ref_count s i" if "i \<in> B" for i using fr(2) [of i] that b by auto
  have "free_frames s' = free_frames s \<union> {i \<in> insert b B. ref_count s i \<le> 1}"
    using d fr(1) r by (auto simp: drops_def split: if_splits)
  moreover have "owned s' b 0 \<and> ref_count s' b = ref_count s b - 1" if "1 < ref_count s b"
    using d b fr(3) that by (auto simp: drops_def)
  moreover have "owned s' i 0 \<and> ref_count s' i = ref_count s i - 1" if "i \<in> B" "1 < ref_count s i" for i
    using d r that by (auto simp: drops_def)
  moreover have "ref_count s' i = ref_count s i \<and> (owned s i 0 \<longrightarrow> owned s' i 0)" if "i \<notin> insert b B" for i
    using d that fr(2) [of i] keep [of i] by (auto simp: drops_def)
  ultimately show ?thesis unfolding drops_def by blast
qed

lemma frees_drops:
  "page_inv s \<Longrightarrow> distinct bs \<Longrightarrow> \<forall>b\<in>set bs. owned s b 0 \<Longrightarrow>
    drops s (set bs) (fold buddy_free (map (idx_to_addr s) bs) s)"
proof (induction bs arbitrary: s)
  case (Cons b bs)
  let ?s1 = "buddy_free (idx_to_addr s b) s"
  have own: "owned s b 0" "own_page s (idx_to_addr s b)" using Cons.prems(3) by (auto simp: own_page_def)
  have inv': "buddy_inv s" using Cons.prems(1) by (simp add: page_inv_def)
  have "\<forall>i\<in>set bs. owned ?s1 i 0" using Cons.prems(2,3) free_keeps_owned [OF inv' own(1)] by auto
  then have "drops ?s1 (set bs) (fold buddy_free (map (idx_to_addr ?s1) bs) ?s1)"
    using Cons.prems free_page_inv [OF Cons.prems(1) own(2)] by (intro Cons.IH) auto
  then show ?case
    using drops_step [OF Cons.prems(1) own(1)] Cons.prems(2) by (simp add: address_map_eqD(1) [OF address_map_free])
qed (auto simp: drops_def)

lemma page_frames:
  "list_all (own_page s) ps \<Longrightarrow> \<exists>bs. ps = map (idx_to_addr s) bs \<and> (\<forall>b\<in>set bs. owned s b 0)"
proof (induction ps)
  case (Cons p ps)
  then obtain b bs where "p = idx_to_addr s b" "owned s b 0" "ps = map (idx_to_addr s) bs" "\<forall>b\<in>set bs. owned s b 0"
    by (auto simp: own_page_def)
  then show ?case by (intro exI [of _ "b # bs"]) simp
qed simp

lemma free_user_space_drops:
  assumes inv: "page_inv s" and ok: "space_ok s pgd"
  defines "B \<equiv> {b. owned s b 0 \<and> idx_to_addr s b \<in> set (space_pages (mem s) pgd)}"
  shows "page_inv (free_user_space pgd s) \<and> drops s B (free_user_space pgd s)"
proof -
  let ?ps = "space_pages (mem s) pgd"
  have d: "distinct ?ps" "list_all (own_page s) ?ps" using ok by (auto simp: space_ok_def)
  then obtain bs where bs: "?ps = map (idx_to_addr s) bs" "\<forall>b\<in>set bs. owned s b 0" using page_frames by blast
  have inv': "buddy_inv s" using inv by (simp add: page_inv_def)
  have "B = set bs"
  proof
    show "B \<subseteq> set bs"
    proof
      fix b assume "b \<in> B"
      then obtain c where "owned s b 0" "c \<in> set bs" "idx_to_addr s b = idx_to_addr s c" by (auto simp: B_def bs(1))
      then show "b \<in> set bs" using idx_eq_owned [OF inv', of b 0 c] owned_index bs(2) by blast
    qed
    show "set bs \<subseteq> B" using bs(2) by (auto simp: B_def bs(1))
  qed
  moreover have "distinct bs" using d(1) unfolding bs(1) by (simp add: distinct_map)
  ultimately have "drops s B (fold buddy_free ?ps s)" unfolding bs(1) using frees_drops [OF inv _ bs(2)] by simp
  moreover have "agree (fold buddy_free ?ps s) (mem s) {}"
    using inv d by (intro frees_agree) (auto simp: agree_def list_all_iff)
  ultimately show ?thesis by (simp add: free_user_space_pages [OF inv ok] agree_def)
qed


subsection \<open>A booted machine\<close>

lemma fresh_space:
  assumes inv: "page_inv s" and t: "page_taken s b s'"
  shows "wf_space s' (idx_to_addr s b)" "leaf (mem s') (idx_to_addr s b) x = 0 \<or> \<not> user_index x"
    "space_ok s' (idx_to_addr s b)" "space_pages (mem s') (idx_to_addr s b) = [idx_to_addr s b]"
    "\<forall>i<512. mem s' (entry_at (idx_to_addr s b) i) = 0"
proof -
  let ?p = "idx_to_addr s b"
  have own: "own_page s' ?p" by (rule page_taken_own [OF t])
  have al: "aligned_page ?p" using own_page_props(1) [OF _ own] t by (simp add: page_taken_def)
  have zero: "mem s' (entry_at ?p i) = 0" if "i < 512" for i
    using t entry_cell [OF al that] entry_in_page [OF al that] by (simp add: page_taken_def)
  have none: "table_at (mem s') ?p q = (if q = [] then Some ?p else None)" if "user_path q" for q
    using that zero by (cases q) (auto simp: user_path_def)
  then show "wf_space s' ?p" using own by (auto simp: wf_space_def split: if_splits)
  show "leaf (mem s') ?p x = 0 \<or> \<not> user_index x"
  proof (cases x)
    case (fields i j k)
    have "table_at (mem s') ?p [i, j] = None" if "user_index x"
      using that none [of "[i, j]"] by (simp add: fields user_index_def user_path_def del: table_at.simps)
    then show ?thesis by (auto simp: fields leaf_def simp del: table_at.simps)
  qed
  have "pmd_pages (mem s') ?p i = []" if "i < 256" for i using zero [of i] that by (simp add: pmd_pages_def)
  then show pages: "space_pages (mem s') ?p = [?p]" by (simp add: space_pages_def)
  show "space_ok s' ?p" using own by (simp add: space_ok_def pages)
  show "\<forall>i<512. mem s' (entry_at ?p i) = 0" using zero by blast
qed

definition boot_pages :: buddy_state where
  "boot_pages = buddy_init True small_boot power_on"

lemma boot_pages_fields:
  "buddy_base_addr boot_pages = va 0x80000000" "buddy_total_pages boot_pages = 16"
  "reserved_regions boot_pages =
     [\<lparr>rg_start = va 0x80002000, rg_end = va 0x80004000\<rparr>, \<lparr>rg_start = va 0x80000000, rg_end = va 0x80002000\<rparr>,
      \<lparr>rg_start = va 0x80004000, rg_end = va 0x80005000\<rparr>, \<lparr>rg_start = va 0x80005000, rg_end = va 0x80006000\<rparr>]"
  unfolding boot_pages_def
  by (simp_all add: buddy_init_def set_memory_range_def reserve_boot_regions_def memory_reserve_def small_boot_def
      power_on_def va_def Let_def startup_alloc_def startup_alloc_from.simps clashes_def MAX_RESERVED_REGIONS_def
      init_frames_fields boot_fields_D [OF init_frames_fields(1)])

lemma boot_pages_ok: "page_inv boot_pages" "free_frames boot_pages = {6..<16}"
proof -
  have "frame_array_ptr (buddy_init True small_boot power_on) \<noteq> NULL"
    "ref_count_ptr (buddy_init True small_boot power_on) \<noteq> NULL"
    unfolding small_boot_arrays by (simp_all add: va_def)
  note e = buddy_init_establishes [OF small_boot_sane this, folded boot_pages_def]
  show "page_inv boot_pages" using e by (simp add: page_inv_def base_aligned_def boot_pages_fields va_def)
  have "(\<forall>r\<in>set (reserved_regions boot_pages). \<not> pins boot_pages r j) \<longleftrightarrow> 6 \<le> j" if "j < 16" for j
    using that by (simp add: boot_pages_fields pins_def region_first_def region_last_def va_def) linarith
  then have "{j. j < 16 \<and> (\<forall>r\<in>set (reserved_regions boot_pages). \<not> pins boot_pages r j)} = {j. j < 16 \<and> 6 \<le> j}"
    by blast
  moreover have "{j :: nat. j < 16 \<and> 6 \<le> j} = {6..<16}" by auto
  ultimately show "free_frames boot_pages = {6..<16}" using e by (simp only: boot_pages_fields(2))
qed


text \<open>The machine after one \<^verbatim>\<open>alloc_page\<close>: the page is an empty address space.\<close>

definition boot_pgd :: u64 where "boot_pgd = fst (alloc_page boot_pages)"
definition boot_space :: buddy_state where "boot_space = snd (alloc_page boot_pages)"

lemma boot_space_ok:
  "page_inv boot_space" "wf_space boot_space boot_pgd" "space_ok boot_space boot_pgd"
  "card (free_frames boot_space) = 9" "user_index x \<Longrightarrow> leaf (mem boot_space) boot_pgd x = 0"
  "space_pages (mem boot_space) boot_pgd = [boot_pgd]"
proof -
  obtain b where b: "boot_pgd = idx_to_addr boot_pages b" "page_taken boot_pages b boot_space"
    using alloc_page_cases [OF boot_pages_ok(1)] boot_pages_ok(2) by (auto simp: boot_pgd_def boot_space_def)
  show "wf_space boot_space boot_pgd" "space_ok boot_space boot_pgd" "user_index x \<Longrightarrow> leaf (mem boot_space) boot_pgd x = 0"
    "space_pages (mem boot_space) boot_pgd = [boot_pgd]"
    using fresh_space [OF boot_pages_ok(1) b(2)] unfolding b(1) by blast+
  show "page_inv boot_space" using b(2) by (simp add: page_taken_def)
  show "card (free_frames boot_space) = 9"
    using b(2) by (simp add: page_taken_def boot_pages_ok(2) card_Diff_singleton_if)
qed

subsection \<open>Properties\<close>

text \<open>C19: \<^verbatim>\<open>pagewalk\<close> in a well-formed address space, with two free frames for missing tables: the space
  is again well-formed, its contents are the old ones updated at the three indices of the address
  with the new leaf entry, \<^verbatim>\<open>walk_pte\<close> finds that entry, the allocator's invariant holds, and every
  other owned page keeps its owner, its references and its contents.\<close>

theorem pagewalk_correct:
  fixes pa prot :: u64
  assumes "page_inv s" "wf_space s pgd" "user_address v" "2 \<le> card (free_frames s)"
  defines "s' \<equiv> pagewalk pgd v pa prot s"
  shows "page_inv s' \<and> wf_space s' pgd \<and> others_kept pgd s s' \<and>
    mem s' (walk_pte pgd v s') = leaf_entry pa prot \<and>
    (\<forall>x. user_index x \<longrightarrow> leaf (mem s') pgd x = ((leaf (mem s) pgd)(indices v := leaf_entry pa prot)) x)"
  using pagewalk_step [OF assms(1-4), where pa = pa and prot = prot] unfolding s'_def by auto

theorem pagewalk_correct_witness:
  "leaf (mem (pagewalk boot_pgd 0x5000 0x80009000 PAGE_USER boot_space)) boot_pgd (0, 0, 5) = leaf_entry 0x80009000 PAGE_USER"
proof -
  have "indices 0x5000 = (0, 0, 5)" by (simp add: indices_def vpn2_def vpn1_def vpn0_def)
  moreover have "user_address 0x5000" by (simp add: user_address_def vpn2_def)
  ultimately show ?thesis
    using pagewalk_correct [OF boot_space_ok(1,2), of "0x5000"] boot_space_ok(4) by (simp add: user_index_def)
qed

text \<open>C21: \<^verbatim>\<open>map_pages\<close> over \<open>n\<close> pages of user addresses ends, after exactly \<open>n\<close> walks: the contents of
  the space are the old ones updated page by page, and nothing else changes.\<close>

theorem map_pages_terminates:
  assumes "page_inv s" "wf_space s pgd" "n < 2 ^ 51" "\<forall>i<n. user_address (v + of_nat i * PAGE_SIZE)"
    and "2 * n \<le> card (free_frames s)"
  shows "\<exists>s'. map_pages pgd v (of_nat n * PAGE_SIZE) pa prot s = Some s' \<and> page_inv s' \<and> wf_space s' pgd \<and>
    others_kept pgd s s' \<and> (\<forall>x. user_index x \<longrightarrow> leaf (mem s') pgd x = map_range n v pa prot (leaf (mem s) pgd) x)"
  using map_pages_run [of n 0 s pgd v pa prot "leaf (mem s) pgd"] assms
  by (simp add: map_pages_def map_range_def)

theorem map_pages_terminates_witness:
  "\<exists>s'. map_pages boot_pgd 0x3fffffa000 0x1000 0x80009000 PAGE_USER boot_space = Some s'"
proof -
  have "user_address 0x3fffffa000" by (simp add: user_address_def vpn2_def)
  then show ?thesis
    using map_pages_terminates [OF boot_space_ok(1,2), of 1 "0x3fffffa000" "0x80009000" PAGE_USER] boot_space_ok(4) by auto
qed

text \<open>\<^verbatim>\<open>unmap_page\<close> clears one leaf of the contents and changes nothing else: it undoes a
  \<^verbatim>\<open>pagewalk\<close> at an address that was not mapped.\<close>

theorem unmap_page_correct:
  fixes pa prot :: u64
  assumes "page_inv s" "wf_space s pgd" "user_address v" "2 \<le> card (free_frames s)" "leaf (mem s) pgd (indices v) = 0"
  defines "s' \<equiv> unmap_page pgd v (pagewalk pgd v pa prot s)"
  shows "page_inv s' \<and> wf_space s' pgd \<and> others_kept pgd s s' \<and>
    (\<forall>x. user_index x \<longrightarrow> leaf (mem s') pgd x = leaf (mem s) pgd x)"
proof -
  note w = pagewalk_step [OF assms(1-4), where pa = pa and prot = prot]
  note u = unmap_page_step [OF w(1,2) assms(3), folded s'_def]
  show ?thesis using u w(4) assms(5) others_kept_trans [OF w(3) u(3)] by auto
qed

text \<open>C20: \<^verbatim>\<open>free_user_space\<close> on an address space whose tables and user pages are distinct owned pages:
  a page with one reference becomes free, one with more (a copy-on-write page) stays owned with one
  reference less, every other page keeps its owner, and the invariant of the allocator holds.\<close>

theorem free_user_space_correct:
  assumes "page_inv s" "space_ok s pgd"
  defines "s' \<equiv> free_user_space pgd s"
    and "B \<equiv> {b. owned s b 0 \<and> idx_to_addr s b \<in> set (space_pages (mem s) pgd)}"
  shows "page_inv s' \<and> free_frames s' = free_frames s \<union> {b \<in> B. ref_count s b \<le> 1} \<and>
    (\<forall>b\<in>B. 1 < ref_count s b \<longrightarrow> owned s' b 0 \<and> ref_count s' b = ref_count s b - 1) \<and>
    (\<forall>b. b \<notin> B \<longrightarrow> ref_count s' b = ref_count s b \<and> (owned s b 0 \<longrightarrow> owned s' b 0))"
  using free_user_space_drops [OF assms(1,2)] by (simp add: drops_def s'_def B_def)

theorem free_user_space_correct_witness: "page_inv (free_user_space boot_pgd boot_space)"
  using free_user_space_correct [OF boot_space_ok(1,3)] by blast

end
