(* ===== verification/Thread.thy ===== *)
theory Thread
  imports Vm_Spec
begin

text \<open>
  Threads and the scheduler, the first half of \<^verbatim>\<open>kernel/src/thread.c\<close>: the run queue, a circular
  list of \<^verbatim>\<open>task_struct\<close>s linked by their \<^verbatim>\<open>next\<close> pointers, the round-robin choice of the next
  thread, the context switch of \<^verbatim>\<open>thread_switch.S\<close>, and the end of a thread. The structures the
  code allocates with \<^verbatim>\<open>kmalloc\<close> are kept by address in one map per type. Console output is not
  modelled.
\<close>

subsection \<open>Data\<close>

record trap_frame =
  tf_ra :: u64
  tf_sp :: u64
  tf_gp :: u64
  tf_tp :: u64
  tf_t0 :: u64
  tf_t1 :: u64
  tf_t2 :: u64
  tf_s0 :: u64
  tf_s1 :: u64
  tf_a0 :: u64
  tf_a1 :: u64
  tf_a2 :: u64
  tf_a3 :: u64
  tf_a4 :: u64
  tf_a5 :: u64
  tf_a6 :: u64
  tf_a7 :: u64
  tf_s2 :: u64
  tf_s3 :: u64
  tf_s4 :: u64
  tf_s5 :: u64
  tf_s6 :: u64
  tf_s7 :: u64
  tf_s8 :: u64
  tf_s9 :: u64
  tf_s10 :: u64
  tf_s11 :: u64
  tf_t3 :: u64
  tf_t4 :: u64
  tf_t5 :: u64
  tf_t6 :: u64
  tf_sepc :: u64
  tf_sstatus :: u64
  tf_scause :: u64
  tf_stval :: u64

datatype thread_state = THREAD_RUNNING | THREAD_ZOMBIE | THREAD_SLEEPING

record thread_struct =
  th_ra :: u64
  th_sp :: u64
  th_s :: "u64 list"

record vm_area_struct =
  vm_start :: u64
  vm_end :: u64
  vm_prot :: u32
  vm_flags :: u32
  vm_next :: u64
  vm_file_data :: u64
  vm_file_size :: u64

record task_struct =
  t_thread :: thread_struct
  t_pid :: int
  t_ppid :: int
  t_state :: thread_state
  t_stack :: u64
  t_next :: u64
  t_pgd :: u64
  t_tf :: u64
  t_vma_list :: u64
  t_signal_handlers :: "nat \<Rightarrow> u64"
  t_pending_signals :: u32
  t_is_handling_signal :: int
  t_signal_stack :: u64
  t_signal_saved_tf :: trap_frame

text \<open>
  \<open>tp\<close> is the current task, \<open>cpu\<close> the registers \<^verbatim>\<open>switch_to\<close> saves, \<open>tframes\<close> the trap frames by
  address. \<open>sched_saved t\<close> is the variable \<^verbatim>\<open>saved_sstatus\<close> in the stack frame of \<^verbatim>\<open>schedule\<close>
  where thread \<open>t\<close> is suspended, \<open>None\<close> for a thread that has not run yet.
\<close>

record thread_sys = vm_state +
  nr_threads :: int
  run_queue :: u64
  tp :: u64
  cpu :: thread_struct
  tasks :: "u64 \<Rightarrow> task_struct"
  vmas :: "u64 \<Rightarrow> vm_area_struct"
  tframes :: "u64 \<Rightarrow> trap_frame"
  sched_saved :: "u64 \<Rightarrow> bool option"

definition SIGNAL_MAX :: nat where "SIGNAL_MAX = 32"
definition STACK_SIZE :: u64 where "STACK_SIZE = 4096"
definition sizeof_task_struct :: u64 where "sizeof_task_struct = 736"
definition sizeof_vm_area_struct :: u64 where "sizeof_vm_area_struct = 48"
definition sizeof_trap_frame :: u64 where "sizeof_trap_frame = 280"

definition upd_task :: "u64 \<Rightarrow> (task_struct \<Rightarrow> task_struct) \<Rightarrow> 'a thread_sys_scheme \<Rightarrow> 'a thread_sys_scheme" where
  "upd_task t f s = s\<lparr>tasks := (tasks s)(t := f (tasks s t))\<rparr>"

definition upd_frame :: "u64 \<Rightarrow> (trap_frame \<Rightarrow> trap_frame) \<Rightarrow> 'a thread_sys_scheme \<Rightarrow> 'a thread_sys_scheme" where
  "upd_frame p f s = s\<lparr>tframes := (tframes s)(p := f (tframes s p))\<rparr>"

subsection \<open>Run queue\<close>

definition enqueue :: "u64 \<Rightarrow> 'a thread_sys_scheme \<Rightarrow> 'a thread_sys_scheme" where
  "enqueue t s0 =
     (let (saved, s) = csrrci s0;
          s' = (if run_queue s = NULL then upd_task t (\<lambda>x. x\<lparr>t_next := t\<rparr>) (s\<lparr>run_queue := t\<rparr>)
                else let tail = t_next (tasks s (run_queue s));
                         s1 = upd_task (run_queue s) (\<lambda>x. x\<lparr>t_next := t\<rparr>) s
                     in upd_task t (\<lambda>x. x\<lparr>t_next := tail\<rparr>) s1)
      in csrs saved s')"

text \<open>
  \<^verbatim>\<open>do { if (...) break; curr = curr->next; } while (curr != run_queue);\<close> gives the entry the loop
  stops at, or NULL. On a list that does not lead back to \<open>queue\<close> it does not end.
\<close>

partial_function (option) ring_find ::
  "(u64 \<Rightarrow> bool) \<Rightarrow> (u64 \<Rightarrow> task_struct) \<Rightarrow> u64 \<Rightarrow> u64 \<Rightarrow> u64 option" where
  "ring_find P ts queue cur =
     (if P cur then Some cur
      else if t_next (ts cur) = queue then Some NULL
      else ring_find P ts queue (t_next (ts cur)))"

definition dequeue :: "u64 \<Rightarrow> 'a thread_sys_scheme \<Rightarrow> 'a thread_sys_scheme option" where
  "dequeue t s0 =
     (if run_queue s0 = NULL then Some s0
      else let (saved, s) = csrrci s0
           in case ring_find (\<lambda>c. t_next (tasks s c) = t) (tasks s) (run_queue s) (run_queue s) of
                None \<Rightarrow> None
              | Some prev \<Rightarrow>
                  let s' = (if prev \<noteq> NULL
                            then if t_next (tasks s t) = t then s\<lparr>run_queue := NULL\<rparr>
                                 else let s1 = upd_task prev (\<lambda>x. x\<lparr>t_next := t_next (tasks s t)\<rparr>) s
                                      in if run_queue s1 = t then s1\<lparr>run_queue := t_next (tasks s1 t)\<rparr> else s1
                            else s)
                  in Some (csrs saved s'))"

definition get_current :: "'a thread_sys_scheme \<Rightarrow> u64" where "get_current s = tp s"

subsection \<open>Scheduling\<close>

partial_function (option) find_next :: "(u64 \<Rightarrow> task_struct) \<Rightarrow> u64 \<Rightarrow> u64 \<Rightarrow> u64 option" where
  "find_next ts prev nxt =
     (if t_state (ts nxt) \<noteq> THREAD_RUNNING \<and> nxt \<noteq> prev then find_next ts prev (t_next (ts nxt)) else Some nxt)"

text \<open>The stores and loads of \<^verbatim>\<open>thread_switch.S\<close>.\<close>

definition switch_to :: "u64 \<Rightarrow> u64 \<Rightarrow> 'a thread_sys_scheme \<Rightarrow> 'a thread_sys_scheme" where
  "switch_to prev nxt s =
     (let s1 = upd_task prev (\<lambda>x. x\<lparr>t_thread := cpu s\<rparr>) s
      in s1\<lparr>cpu := t_thread (tasks s1 nxt), tp := nxt\<rparr>)"

text \<open>
  The state after \<^verbatim>\<open>schedule\<close> in the thread that runs next: a thread suspended in \<^verbatim>\<open>schedule\<close>
  continues there and restores its own interrupt bit, a new one starts at its entry point.
\<close>

definition schedule :: "'a thread_sys_scheme \<Rightarrow> 'a thread_sys_scheme option" where
  "schedule s0 =
     (let (saved, s) = csrrci s0; prev = get_current s
      in case find_next (tasks s) prev (t_next (tasks s prev)) of
           None \<Rightarrow> None
         | Some nxt \<Rightarrow>
             Some (if prev \<noteq> nxt
                   then let s1 = (if t_pgd (tasks s nxt) \<noteq> NULL
                                  then s\<lparr>satp := SATP_MODE_SV39 OR drop_bit 12 (pa_of (t_pgd (tasks s nxt)))\<rparr> else s);
                            s2 = switch_to prev nxt (s1\<lparr>sched_saved := (sched_saved s1)(prev := Some saved)\<rparr>)
                        in case sched_saved s2 nxt of Some saved' \<Rightarrow> csrs saved' s2 | None \<Rightarrow> s2
                   else csrs saved s))"

subsection \<open>The end of a thread\<close>

partial_function (option) reparent :: "int \<Rightarrow> u64 \<Rightarrow> 'a thread_sys_scheme \<Rightarrow> 'a thread_sys_scheme option" where
  "reparent pid cur s =
     (let s1 = (if t_ppid (tasks s cur) = pid then upd_task cur (\<lambda>x. x\<lparr>t_ppid := 0\<rparr>) s else s);
          c = t_next (tasks s1 cur)
      in if c = run_queue s1 then Some s1 else reparent pid c s1)"

text \<open>The calling thread does not return: the result is the state in which the next thread runs.\<close>

definition thread_exit :: "'a thread_sys_scheme \<Rightarrow> 'a thread_sys_scheme option" where
  "thread_exit s0 =
     (let (saved, s) = csrrci s0; current = get_current s;
          s1 = upd_task current (\<lambda>x. x\<lparr>t_state := THREAD_ZOMBIE\<rparr>) s
      in case (if run_queue s1 \<noteq> NULL then reparent (t_pid (tasks s1 current)) (run_queue s1) s1 else Some s1) of
           None \<Rightarrow> None
         | Some s2 \<Rightarrow> schedule (csrs saved s2))"

partial_function (option) free_vmas :: "u64 \<Rightarrow> 'a thread_sys_scheme \<Rightarrow> 'a thread_sys_scheme option" where
  "free_vmas vma s =
     (if vma \<noteq> NULL then let nxt = vm_next (vmas s vma) in free_vmas nxt (kfree vma s) else Some s)"

text \<open>What \<^verbatim>\<open>kill_zombies\<close> and \<^verbatim>\<open>do_waitpid\<close> give back of a dequeued zombie.\<close>

definition release_task :: "u64 \<Rightarrow> 'a thread_sys_scheme \<Rightarrow> 'a thread_sys_scheme option" where
  "release_task z s =
     (let s1 = (if t_pgd (tasks s z) \<noteq> NULL
                then upd_task z (\<lambda>x. x\<lparr>t_pgd := NULL\<rparr>) (free_user_space (t_pgd (tasks s z)) s) else s)
      in case free_vmas (t_vma_list (tasks s1 z)) s1 of
           None \<Rightarrow> None
         | Some s2 \<Rightarrow>
             let s3 = upd_task z (\<lambda>x. x\<lparr>t_vma_list := NULL\<rparr>) s2
             in Some (kfree z (kfree (t_stack (tasks s3 z)) s3)))"

definition orphan_zombie :: "task_struct \<Rightarrow> bool" where
  "orphan_zombie x \<longleftrightarrow> t_state x = THREAD_ZOMBIE \<and> t_ppid x = 0"

definition kill_zombies :: "'a thread_sys_scheme \<Rightarrow> 'a thread_sys_scheme option" where
  "kill_zombies s0 =
     (if run_queue s0 = NULL then Some s0
      else let (saved, s) = csrrci s0
           in case ring_find (\<lambda>c. orphan_zombie (tasks s (t_next (tasks s c)))) (tasks s) (run_queue s) (run_queue s) of
                None \<Rightarrow> None
              | Some cur \<Rightarrow>
                  if cur = NULL then Some (csrs saved s)
                  else let zombie = t_next (tasks s cur)
                       in case dequeue zombie s of
                            None \<Rightarrow> None
                          | Some s1 \<Rightarrow> release_task zombie (csrs saved s1))"

text \<open>One round of the endless loop \<^verbatim>\<open>idle\<close>.\<close>

definition idle_round :: "'a thread_sys_scheme \<Rightarrow> 'a thread_sys_scheme option" where
  "idle_round s = (case kill_zombies s of None \<Rightarrow> None | Some s1 \<Rightarrow> schedule s1)"

subsection \<open>Creation\<close>

definition copy_kernel_half :: "u64 \<Rightarrow> 'a vm_state_scheme \<Rightarrow> 'a vm_state_scheme" where
  "copy_kernel_half pgd s =
     s\<lparr>mem := fold (\<lambda>i m. m(entry_at pgd i := m (entry_at (pg_dir s) i))) [256..<512] (mem s)\<rparr>"

definition thread_create :: "u64 \<Rightarrow> 'a thread_sys_scheme \<Rightarrow> u64 \<times> 'a thread_sys_scheme" where
  "thread_create threadfn s0 =
     (let (task, s1) = kmalloc sizeof_task_struct s0;
          (pgd, s2) = alloc_page s1;
          s3 = copy_kernel_half pgd (upd_task task (\<lambda>x. x\<lparr>t_pgd := pgd\<rparr>) s2);
          s4 = upd_task task (\<lambda>x. x\<lparr>t_tf := NULL, t_pid := nr_threads s3, t_ppid := 0, t_state := THREAD_RUNNING\<rparr>)
                 (s3\<lparr>nr_threads := nr_threads s3 + 1\<rparr>);
          (stack, s5) = kmalloc STACK_SIZE s4;
          s6 = upd_task task
                 (\<lambda>x. x\<lparr>t_stack := stack, t_thread := (t_thread x)\<lparr>th_ra := threadfn, th_sp := stack + STACK_SIZE\<rparr>,
                        t_signal_handlers := fill 0 0 SIGNAL_MAX NULL (t_signal_handlers x),
                        t_pending_signals := 0, t_is_handling_signal := 0, t_signal_stack := NULL, t_vma_list := NULL\<rparr>)
                 (s5\<lparr>sched_saved := (sched_saved s5)(task := None)\<rparr>)
      in (task, enqueue task s6))"

end
