(* ===== verification/Process.thy ===== *)
theory Process
  imports Thread Cpio Dtb
begin

text \<open>
  Processes and signals, the second half of \<^verbatim>\<open>kernel/src/thread.c\<close>: starting a program from the
  ram disk, \<^verbatim>\<open>fork\<close> with copy-on-write page tables, waiting for and stopping a process, sleeping,
  and the delivery of signals on a stack of their own. A system call that gives up the processor
  continues when its thread is scheduled again: what the other threads do until then is the
  argument \<open>resume\<close>.
\<close>

definition USER_SIGNAL_STACK :: u64 where "USER_SIGNAL_STACK = 0x3fffffa000"

text \<open>The addresses of the functions the code stores as entry points and callbacks.\<close>

record symbols =
  sy_user_program_start :: u64
  sy_ret_from_fork :: u64
  sy_wakeup_callback :: u64

text \<open>The bytes of memory as the kernel reads them, with the addresses of device tree, ram disk and
  the string \<^verbatim>\<open>"TRAILER!!!"\<close>.\<close>

record image =
  im_bytes :: bytes
  im_dtb_addr :: u64
  im_cpio_addr :: u64
  im_trailer :: u64

subsection \<open>Starting a program\<close>

definition lookup_program :: "image \<Rightarrow> u64 \<Rightarrow> find_result option" where
  "lookup_program im path =
     do {
       (initrd, l) \<leftarrow> dtb_getprop (im_bytes im) (im_dtb_addr im) (bytes_of ''/chosen'') initrd_start_name;
       if initrd = NULL then Some Not_Found
       else cpio_find (im_bytes im) (im_trailer im) (im_cpio_addr im) initrd path
     }"

text \<open>Allocate an area and put it in front of the task's list, if memory is left.\<close>

definition push_vma :: "u64 \<Rightarrow> vm_area_struct \<Rightarrow> 'a thread_sys_scheme \<Rightarrow> 'a thread_sys_scheme" where
  "push_vma t v s =
     (let (p, s1) = kmalloc sizeof_vm_area_struct s
      in if p \<noteq> NULL
         then upd_task t (\<lambda>x. x\<lparr>t_vma_list := p\<rparr>)
                (s1\<lparr>vmas := (vmas s1)(p := v\<lparr>vm_next := t_vma_list (tasks s1 t)\<rparr>)\<rparr>)
         else s1)"

definition code_vma :: "u64 \<Rightarrow> u64 \<Rightarrow> vm_area_struct" where
  "code_vma src src_size =
     (let code_pages = (src_size + PAGE_SIZE - 1) div PAGE_SIZE
      in \<lparr>vm_start = 0, vm_end = code_pages * PAGE_SIZE, vm_prot = 1 OR 4, vm_flags = 0, vm_next = NULL,
          vm_file_data = src, vm_file_size = src_size\<rparr>)"

definition stack_vma :: vm_area_struct where
  "stack_vma = \<lparr>vm_start = 0x3fffffc000, vm_end = 0x4000000000, vm_prot = 1 OR 2, vm_flags = 0x20, vm_next = NULL,
     vm_file_data = NULL, vm_file_size = 0\<rparr>"

definition new_space :: "'a thread_sys_scheme \<Rightarrow> 'a thread_sys_scheme" where
  "new_space s =
     (let t = get_current s; old_pgd = t_pgd (tasks s t); (pgd, s1) = alloc_page s;
          s2 = copy_kernel_half pgd (upd_task t (\<lambda>x. x\<lparr>t_pgd := pgd\<rparr>) s1)
      in free_user_space old_pgd (s2\<lparr>satp := SATP_MODE_SV39 OR drop_bit 12 (pa_of pgd)\<rparr>))"

definition do_exec :: "image \<Rightarrow> u64 \<Rightarrow> 'a thread_sys_scheme \<Rightarrow> (int \<times> 'a thread_sys_scheme) option" where
  "do_exec im path s0 =
     (let (saved, s) = csrrci s0; t = get_current s
      in case lookup_program im path of
           None \<Rightarrow> None
         | Some (Found src src_size) \<Rightarrow>
             let s1 = (if t_pgd (tasks s t) \<noteq> NULL then new_space s else s)
             in (case free_vmas (t_vma_list (tasks s1 t)) s1 of
                   None \<Rightarrow> None
                 | Some s2 \<Rightarrow>
                     let s3 = upd_task t (\<lambda>x. x\<lparr>t_vma_list := NULL\<rparr>) s2;
                         s4 = push_vma t stack_vma (push_vma t (code_vma src src_size) s3);
                         s5 = upd_frame (t_tf (tasks s4 t)) (\<lambda>f. f\<lparr>tf_sepc := 0, tf_sp := 0x4000000000\<rparr>) s4
                     in Some (0, csrs saved s5))
         | Some _ \<Rightarrow> Some (- 1, s))"

definition user_program_execute ::
  "symbols \<Rightarrow> image \<Rightarrow> u64 \<Rightarrow> 'a thread_sys_scheme \<Rightarrow> (int \<times> 'a thread_sys_scheme) option" where
  "user_program_execute sy im path s0 =
     (case lookup_program im path of
        None \<Rightarrow> None
      | Some (Found src src_size) \<Rightarrow>
          let (saved, s) = csrrci s0;
              (t, s1) = thread_create (sy_user_program_start sy) s;
              s2 = upd_task t (\<lambda>x. x\<lparr>t_ppid := t_pid (tasks s1 (get_current s1))\<rparr>) s1;
              s3 = push_vma t stack_vma (push_vma t (code_vma src src_size) s2)
          in Some (t_pid (tasks s3 t), csrs saved s3)
      | Some _ \<Rightarrow> Some (- 1, s0))"

subsection \<open>Fork\<close>

partial_function (option) dup_vmas :: "u64 \<Rightarrow> u64 \<Rightarrow> u64 \<Rightarrow> 'a thread_sys_scheme \<Rightarrow> 'a thread_sys_scheme option" where
  "dup_vmas child last_vma parent_vma s =
     (if parent_vma \<noteq> NULL
      then let (new_vma, s1) = kmalloc sizeof_vm_area_struct s;
               (last', s2) =
                 (if new_vma \<noteq> NULL
                  then let s2 = s1\<lparr>vmas := (vmas s1)(new_vma := (vmas s1 parent_vma)\<lparr>vm_next := NULL\<rparr>)\<rparr>
                       in (new_vma,
                           if t_vma_list (tasks s2 child) = NULL then upd_task child (\<lambda>x. x\<lparr>t_vma_list := new_vma\<rparr>) s2
                           else s2\<lparr>vmas := (vmas s2)(last_vma := (vmas s2 last_vma)\<lparr>vm_next := new_vma\<rparr>)\<rparr>)
                  else (last_vma, s1))
           in dup_vmas child last' (vm_next (vmas s2 parent_vma)) s2
      else Some s)"

text \<open>A counting loop that an out-of-memory return leaves early (\<open>False\<close>).\<close>

fun until_fail :: "(nat \<Rightarrow> 's \<Rightarrow> bool \<times> 's) \<Rightarrow> nat list \<Rightarrow> 's \<Rightarrow> bool \<times> 's" where
  "until_fail f [] s = (True, s)"
| "until_fail f (i # is) s = (case f i s of (ok, s1) \<Rightarrow> if ok then until_fail f is s1 else (False, s1))"

definition fork_leaf :: "u64 \<Rightarrow> u64 \<Rightarrow> nat \<Rightarrow> 'a buddy_state_scheme \<Rightarrow> 'a buddy_state_scheme" where
  "fork_leaf parent_pte child_pte k s =
     (let e = mem s (entry_at parent_pte k)
      in if present e \<and> e AND PAGE_USER \<noteq> 0
         then let s1 = s\<lparr>mem := (mem s)(entry_at parent_pte k := e AND NOT PAGE_WRITE)\<rparr>;
                  s2 = get_page_ref (va (entry_page (mem s1 (entry_at parent_pte k)))) s1
              in s2\<lparr>mem := (mem s2)(entry_at child_pte k := mem s2 (entry_at parent_pte k))\<rparr>
         else s)"

definition fork_pte_table :: "u64 \<Rightarrow> u64 \<Rightarrow> nat \<Rightarrow> 'a buddy_state_scheme \<Rightarrow> bool \<times> 'a buddy_state_scheme" where
  "fork_pte_table parent_pmd child_pmd j s =
     (let e = mem s (entry_at parent_pmd j)
      in if present e
         then let parent_pte = va (entry_page e); (child_pte, s1) = alloc_page s
              in if child_pte = NULL then (False, s1)
                 else (True, fold (fork_leaf parent_pte child_pte) [0..<512]
                               (s1\<lparr>mem := (mem s1)(entry_at child_pmd j := table_entry (pa_of child_pte))\<rparr>))
         else (True, s))"

definition fork_pmd_table :: "u64 \<Rightarrow> u64 \<Rightarrow> nat \<Rightarrow> 'a buddy_state_scheme \<Rightarrow> bool \<times> 'a buddy_state_scheme" where
  "fork_pmd_table parent_pgd child_pgd i s =
     (let e = mem s (entry_at parent_pgd i)
      in if present e
         then let parent_pmd = va (entry_page e); (child_pmd, s1) = alloc_page s
              in if child_pmd = NULL then (False, s1)
                 else until_fail (fork_pte_table parent_pmd child_pmd) [0..<512]
                        (s1\<lparr>mem := (mem s1)(entry_at child_pgd i := table_entry (pa_of child_pmd))\<rparr>)
         else (True, s))"

text \<open>The 280 bytes \<^verbatim>\<open>byte_copy\<close> copies are one trap frame.\<close>

definition copy_frame :: "u64 \<Rightarrow> u64 \<Rightarrow> 'a thread_sys_scheme \<Rightarrow> 'a thread_sys_scheme" where
  "copy_frame dst src s = upd_frame dst (\<lambda>_. tframes s src) s"

definition finish_child :: "symbols \<Rightarrow> u64 \<Rightarrow> u64 \<Rightarrow> u64 \<Rightarrow> 'a thread_sys_scheme \<Rightarrow> 'a thread_sys_scheme" where
  "finish_child sy parent child frame s =
     (let s1 = upd_task child (\<lambda>x. x\<lparr>t_ppid := t_pid (tasks s parent)\<rparr>) s;
          child_tf = t_stack (tasks s1 child) + STACK_SIZE - sizeof_trap_frame;
          s2 = copy_frame child_tf frame s1;
          s3 = upd_task child (\<lambda>x. x\<lparr>t_tf := child_tf\<rparr>) s2;
          s4 = upd_frame child_tf (\<lambda>f. f\<lparr>tf_a0 := 0, tf_tp := child\<rparr>) s3
      in upd_task child
           (\<lambda>x. x\<lparr>t_thread := (t_thread x)\<lparr>th_ra := sy_ret_from_fork sy, th_sp := child_tf\<rparr>,
                  t_signal_handlers := (\<lambda>i. if i < SIGNAL_MAX then t_signal_handlers (tasks s4 parent) i
                                             else t_signal_handlers x i),
                  t_pending_signals := 0, t_is_handling_signal := 0, t_signal_stack := NULL\<rparr>) s4)"

definition do_fork :: "symbols \<Rightarrow> u64 \<Rightarrow> 'a thread_sys_scheme \<Rightarrow> (int \<times> 'a thread_sys_scheme) option" where
  "do_fork sy frame s0 =
     (let (saved, s) = csrrci s0; parent = get_current s;
          (child, s1) = thread_create NULL s;
          parent_vma = t_vma_list (tasks s1 parent)
      in case dup_vmas child NULL parent_vma (upd_task child (\<lambda>x. x\<lparr>t_vma_list := NULL\<rparr>) s1) of
           None \<Rightarrow> None
         | Some s2 \<Rightarrow>
             (case until_fail (fork_pmd_table (t_pgd (tasks s2 parent)) (t_pgd (tasks s2 child))) [0..<256] s2 of
                (ok, s3) \<Rightarrow>
                  if \<not> ok then Some (- 1, csrs saved s3)
                  else let s4 = finish_child sy parent child frame s3
                       in Some (t_pid (tasks s4 child), csrs saved s4)))"

subsection \<open>Waiting, stopping, sleeping\<close>

text \<open>One round of the loop of \<^verbatim>\<open>do_waitpid\<close>: a result, or \<open>None\<close> when it calls \<^verbatim>\<open>schedule\<close>.\<close>

definition wait_round :: "int \<Rightarrow> 'a thread_sys_scheme \<Rightarrow> (int option \<times> 'a thread_sys_scheme) option" where
  "wait_round pid s0 =
     (let (saved, s) = csrrci s0
      in if run_queue s = NULL then Some (Some (- 1), csrs saved s)
         else case ring_find (\<lambda>c. t_pid (tasks s c) = pid) (tasks s) (run_queue s) (run_queue s) of
                None \<Rightarrow> None
              | Some c \<Rightarrow>
                  if c = NULL then Some (Some (- 1), csrs saved s)
                  else if t_state (tasks s c) = THREAD_ZOMBIE
                  then (case dequeue c s of None \<Rightarrow> None
                        | Some s1 \<Rightarrow> (case release_task c s1 of None \<Rightarrow> None
                                     | Some s2 \<Rightarrow> Some (Some pid, csrs saved s2)))
                  else Some (None, csrs saved s))"

partial_function (option) do_waitpid ::
  "('a thread_sys_scheme \<Rightarrow> 'a thread_sys_scheme option) \<Rightarrow> int \<Rightarrow> 'a thread_sys_scheme \<Rightarrow> (int \<times> 'a thread_sys_scheme) option" where
  "do_waitpid resume pid s =
     (case wait_round pid s of
        None \<Rightarrow> None
      | Some (Some r, s1) \<Rightarrow> Some (r, s1)
      | Some (None, s1) \<Rightarrow>
          (case schedule s1 of None \<Rightarrow> None
           | Some s2 \<Rightarrow> (case resume s2 of None \<Rightarrow> None | Some s3 \<Rightarrow> do_waitpid resume pid s3)))"

definition reschedule ::
  "('a thread_sys_scheme \<Rightarrow> 'a thread_sys_scheme option) \<Rightarrow> 'a thread_sys_scheme \<Rightarrow> 'a thread_sys_scheme option" where
  "reschedule resume s = (case schedule s of None \<Rightarrow> None | Some s1 \<Rightarrow> resume s1)"

definition do_stop ::
  "('a thread_sys_scheme \<Rightarrow> 'a thread_sys_scheme option) \<Rightarrow> int \<Rightarrow> 'a thread_sys_scheme \<Rightarrow> (int \<times> 'a thread_sys_scheme) option" where
  "do_stop resume pid s0 =
     (if run_queue s0 = NULL then Some (- 1, s0)
      else let (saved, s) = csrrci s0
           in case ring_find (\<lambda>c. t_pid (tasks s c) = pid) (tasks s) (run_queue s) (run_queue s) of
                None \<Rightarrow> None
              | Some c \<Rightarrow>
                  if c = NULL then Some (- 1, csrs saved s)
                  else let s1 = csrs saved (upd_task c (\<lambda>x. x\<lparr>t_state := THREAD_ZOMBIE\<rparr>) s)
                       in if c = get_current s1 then map_option (\<lambda>s2. (0, s2)) (reschedule resume s1)
                          else Some (0, s1))"

definition wakeup_callback :: "u64 \<Rightarrow> 'a thread_sys_scheme \<Rightarrow> 'a thread_sys_scheme" where
  "wakeup_callback arg s =
     (if t_state (tasks s arg) = THREAD_SLEEPING then upd_task arg (\<lambda>x. x\<lparr>t_state := THREAD_RUNNING\<rparr>) s else s)"

definition sleep_ticks :: "bool \<Rightarrow> u32 \<Rightarrow> u64" where
  "sleep_ticks qemu usec =
     (let ticks = (ucast usec * get_timer_freq qemu) div 1000000 in if ticks = 0 then 1 else ticks)"

definition do_usleep ::
  "bool \<Rightarrow> symbols \<Rightarrow> ('a thread_sys_scheme \<Rightarrow> 'a thread_sys_scheme option) \<Rightarrow> u32 \<Rightarrow> 'a thread_sys_scheme \<Rightarrow>
     (int \<times> 'a thread_sys_scheme) option" where
  "do_usleep qemu sy resume usec s =
     (if usec = 0 then Some (- 1, s)
      else let t = get_current s;
               s1 = upd_task t (\<lambda>x. x\<lparr>t_state := THREAD_SLEEPING\<rparr>) s;
               s2 = add_timer_ticks (sy_wakeup_callback sy) t (sleep_ticks qemu usec) s1
           in map_option (\<lambda>s3. (0, s3)) (reschedule resume s2))"

subsection \<open>Signals\<close>

definition do_signal :: "int \<Rightarrow> u64 \<Rightarrow> 'a thread_sys_scheme \<Rightarrow> 'a thread_sys_scheme" where
  "do_signal sig handler s =
     (if sig < 0 \<or> sig \<ge> int SIGNAL_MAX then s
      else upd_task (get_current s)
             (\<lambda>x. x\<lparr>t_signal_handlers := (t_signal_handlers x)(nat sig := handler)\<rparr>) s)"

definition do_kill :: "int \<Rightarrow> int \<Rightarrow> 'a thread_sys_scheme \<Rightarrow> (int \<times> 'a thread_sys_scheme) option" where
  "do_kill pid sig s0 =
     (if sig < 0 \<or> sig \<ge> int SIGNAL_MAX then Some (- 1, s0)
      else if run_queue s0 = NULL then Some (- 1, s0)
      else let (saved, s) = csrrci s0
           in case ring_find (\<lambda>c. t_pid (tasks s c) = pid) (tasks s) (run_queue s) (run_queue s) of
                None \<Rightarrow> None
              | Some c \<Rightarrow>
                  if c = NULL then Some (- 1, csrs saved s)
                  else if t_signal_handlers (tasks s c) (nat sig) \<noteq> NULL
                  then Some (0, upd_task c (\<lambda>x. x\<lparr>t_pending_signals := t_pending_signals x OR push_bit (nat sig) 1\<rparr>) s)
                  else Some (0, upd_task c (\<lambda>x. x\<lparr>t_state := THREAD_ZOMBIE, t_ppid := 0\<rparr>) s))"

definition do_sigreturn :: "u64 \<Rightarrow> 'a thread_sys_scheme \<Rightarrow> 'a thread_sys_scheme" where
  "do_sigreturn frame s =
     (let t = get_current s;
          s1 = upd_frame frame (\<lambda>_. t_signal_saved_tf (tasks s t)) s;
          s2 = (if t_signal_stack (tasks s1 t) \<noteq> NULL
                then upd_task t (\<lambda>x. x\<lparr>t_signal_stack := NULL\<rparr>)
                       (kfree (t_signal_stack (tasks s1 t)) (unmap_page (t_pgd (tasks s1 t)) USER_SIGNAL_STACK s1))
                else s1)
      in upd_task t (\<lambda>x. x\<lparr>t_is_handling_signal := 0\<rparr>) s2)"

definition first_pending :: "u32 \<Rightarrow> nat option" where
  "first_pending p = find (\<lambda>i. p AND push_bit i 1 \<noteq> 0) [0..<SIGNAL_MAX]"

definition clear_pending :: "nat \<Rightarrow> task_struct \<Rightarrow> task_struct" where
  "clear_pending sig x = x\<lparr>t_pending_signals := t_pending_signals x AND NOT (push_bit sig 1)\<rparr>"

text \<open>The part of \<^verbatim>\<open>signal_check\<close> that prepares the handler of signal \<open>sig\<close>.\<close>

definition signal_deliver :: "u64 \<Rightarrow> nat \<Rightarrow> u64 \<Rightarrow> 'a thread_sys_scheme \<Rightarrow> 'a thread_sys_scheme option" where
  "signal_deliver frame sig handler s =
     (let t = get_current s;
          s1 = upd_task t (\<lambda>x. x\<lparr>t_signal_saved_tf := tframes s frame\<rparr>) s;
          (stack, s2) = kmalloc STACK_SIZE s1;
          s3 = upd_task t (\<lambda>x. clear_pending sig (x\<lparr>t_signal_stack := stack, t_is_handling_signal := 1\<rparr>)) s2
      in case map_pages (t_pgd (tasks s3 t)) USER_SIGNAL_STACK STACK_SIZE (pa_of stack)
                (PAGE_USER OR PAGE_READ OR PAGE_WRITE OR PAGE_EXEC) s3 of
           None \<Rightarrow> None
         | Some s4 \<Rightarrow>
             let s5 = s4\<lparr>mem := with_bytes (store32 (stack + 4) 0x00000073 \<circ> store32 stack 0x00B00893) (mem s4)\<rparr>;
                 new_sp = (USER_SIGNAL_STACK + STACK_SIZE) AND NOT 0xf
             in Some (upd_frame frame
                        (\<lambda>f. f\<lparr>tf_sepc := handler, tf_sp := new_sp, tf_s0 := new_sp, tf_ra := USER_SIGNAL_STACK,
                               tf_a0 := of_nat sig\<rparr>) s5))"

definition signal_check :: "u64 \<Rightarrow> 'a thread_sys_scheme \<Rightarrow> 'a thread_sys_scheme option" where
  "signal_check frame s =
     (let t = get_current s
      in if tf_sstatus (tframes s frame) AND push_bit 8 1 \<noteq> 0 then Some s
         else if t_pending_signals (tasks s t) = 0 then Some s
         else if t_is_handling_signal (tasks s t) \<noteq> 0 then Some s
         else case first_pending (t_pending_signals (tasks s t)) of
                None \<Rightarrow> Some s
              | Some sig \<Rightarrow>
                  let handler = t_signal_handlers (tasks s t) sig
                  in if handler = NULL
                     then Some (upd_task t (\<lambda>x. (clear_pending sig x)\<lparr>t_state := THREAD_ZOMBIE, t_ppid := 0\<rparr>) s)
                     else signal_deliver frame sig handler s)"

end
