(* ===== verification/Syscall.thy ===== *)
theory Syscall
  imports Process
begin

text \<open>
  System calls, \<^verbatim>\<open>kernel/src/syscall.c\<close>: \<^verbatim>\<open>mmap\<close> with its search for a free address range, and
  the dispatcher, which leaves the return value in the caller's trap frame.
\<close>

definition SYS_getpid :: u64 where "SYS_getpid = 0"
definition SYS_uart_read :: u64 where "SYS_uart_read = 1"
definition SYS_uart_write :: u64 where "SYS_uart_write = 2"
definition SYS_exec :: u64 where "SYS_exec = 3"
definition SYS_fork :: u64 where "SYS_fork = 4"
definition SYS_waitpid :: u64 where "SYS_waitpid = 5"
definition SYS_exit :: u64 where "SYS_exit = 6"
definition SYS_stop :: u64 where "SYS_stop = 7"
definition SYS_display :: u64 where "SYS_display = 8"
definition SYS_usleep :: u64 where "SYS_usleep = 9"
definition SYS_signal :: u64 where "SYS_signal = 10"
definition SYS_sigreturn :: u64 where "SYS_sigreturn = 11"
definition SYS_kill :: u64 where "SYS_kill = 12"
definition SYS_mmap :: u64 where "SYS_mmap = 13"

definition PROT_READ :: u32 where "PROT_READ = 1"
definition PROT_WRITE :: u32 where "PROT_WRITE = 2"
definition PROT_EXEC :: u32 where "PROT_EXEC = 4"
definition MAP_ANONYMOUS :: u32 where "MAP_ANONYMOUS = 0x20"
definition MAP_POPULATE :: u32 where "MAP_POPULATE = 0x8000"

lemmas sys_numbers = SYS_getpid_def SYS_uart_read_def SYS_uart_write_def SYS_exec_def SYS_fork_def SYS_waitpid_def SYS_exit_def SYS_stop_def SYS_display_def SYS_usleep_def SYS_signal_def SYS_sigreturn_def SYS_kill_def SYS_mmap_def
lemmas mmap_flags = PROT_READ_def PROT_WRITE_def PROT_EXEC_def MAP_ANONYMOUS_def MAP_POPULATE_def

subsection \<open>mmap\<close>

definition page_up :: "u64 \<Rightarrow> u64" where
  "page_up n = (n + PAGE_SIZE - 1) AND NOT (PAGE_SIZE - 1)"

text \<open>The first area of the list that overlaps the range, or NULL.\<close>

partial_function (option) find_overlap :: "(u64 \<Rightarrow> vm_area_struct) \<Rightarrow> u64 \<Rightarrow> u64 \<Rightarrow> u64 \<Rightarrow> u64 option" where
  "find_overlap vs start len vma =
     (if vma \<noteq> NULL
      then if start < vm_end (vs vma) \<and> start + len > vm_start (vs vma) then Some vma
           else find_overlap vs start len (vm_next (vs vma))
      else Some NULL)"

partial_function (option) mmap_place :: "(u64 \<Rightarrow> vm_area_struct) \<Rightarrow> u64 \<Rightarrow> u64 \<Rightarrow> u64 \<Rightarrow> u64 option" where
  "mmap_place vs head len start =
     (case find_overlap vs start len head of
        None \<Rightarrow> None
      | Some vma \<Rightarrow> if vma = NULL then Some start else mmap_place vs head len (page_up (vm_end (vs vma))))"

definition mmap_hint :: "u64 \<Rightarrow> u64" where
  "mmap_hint addr =
     (if addr = 0 \<or> addr AND (PAGE_SIZE - 1) \<noteq> 0 \<or> addr < 0x1000000000 then 0x1000000000 else addr)"

definition user_prot :: "u32 \<Rightarrow> u64" where
  "user_prot prot =
     (let p1 = (if prot AND PROT_READ \<noteq> 0 then PAGE_USER OR PAGE_READ else PAGE_USER);
          p2 = (if prot AND PROT_WRITE \<noteq> 0 then p1 OR PAGE_WRITE else p1);
          p3 = (if prot AND PROT_EXEC \<noteq> 0 then p2 OR PAGE_EXEC else p2)
      in if p3 AND PAGE_WRITE \<noteq> 0 then p3 OR PAGE_READ else p3)"

text \<open>\<open>False\<close> when \<^verbatim>\<open>alloc_page\<close> fails.\<close>

partial_function (option) populate ::
  "u64 \<Rightarrow> u64 \<Rightarrow> u64 \<Rightarrow> u64 \<Rightarrow> u64 \<Rightarrow> 'a thread_sys_scheme \<Rightarrow> (bool \<times> 'a thread_sys_scheme) option" where
  "populate i pgd start len prot s =
     (if i < len
      then let (page, s1) = alloc_page s
           in if page = NULL then Some (False, s1)
              else case map_pages pgd (start + i) PAGE_SIZE (pa_of page) prot s1 of
                     None \<Rightarrow> None
                   | Some s2 \<Rightarrow> populate (i + PAGE_SIZE) pgd start len prot s2
      else Some (True, s))"

definition mmap_area :: "u64 \<Rightarrow> u64 \<Rightarrow> u32 \<Rightarrow> u32 \<Rightarrow> u64 \<Rightarrow> vm_area_struct" where
  "mmap_area start len prot flags nxt =
     \<lparr>vm_start = start, vm_end = start + len, vm_prot = prot, vm_flags = flags, vm_next = nxt,
      vm_file_data = NULL, vm_file_size = 0\<rparr>"

definition do_mmap :: "u64 \<Rightarrow> u64 \<Rightarrow> u32 \<Rightarrow> u32 \<Rightarrow> 'a thread_sys_scheme \<Rightarrow> (u64 \<times> 'a thread_sys_scheme) option" where
  "do_mmap addr len0 prot flags s =
     (if len0 = 0 then Some (- 1, s)
      else let len = page_up len0; t = get_current s
           in case mmap_place (vmas s) (t_vma_list (tasks s t)) len (mmap_hint addr) of
                None \<Rightarrow> None
              | Some start \<Rightarrow>
                  (case (if flags AND MAP_ANONYMOUS \<noteq> 0 \<and> flags AND MAP_POPULATE \<noteq> 0
                         then populate 0 (t_pgd (tasks s t)) start len (user_prot prot) s else Some (True, s)) of
                     None \<Rightarrow> None
                   | Some (ok, s1) \<Rightarrow>
                       if \<not> ok then Some (- 1, s1)
                       else let (p, s2) = kmalloc sizeof_vm_area_struct s1
                            in if p = NULL then Some (- 1, s2)
                               else Some (start,
                                 upd_task t (\<lambda>x. x\<lparr>t_vma_list := p\<rparr>)
                                   (s2\<lparr>vmas := (vmas s2)(p := mmap_area start len prot flags (t_vma_list (tasks s2 t)))\<rparr>))))"

subsection \<open>The dispatcher\<close>

text \<open>
  What the handlers use of the rest of the machine: the other threads (\<open>resume\<close>), the console
  driver, the bytes of the current address space, and the frame buffer.
\<close>

record 's sys_env =
  ev_symbols :: symbols
  ev_qemu :: bool
  ev_resume :: "'s \<Rightarrow> 's option"
  ev_image :: "'s \<Rightarrow> image"
  ev_getc :: "'s \<Rightarrow> (u8 \<times> 's) option"
  ev_putc :: "u8 \<Rightarrow> 's \<Rightarrow> 's option"
  ev_write :: "u64 \<Rightarrow> u8 \<Rightarrow> 's \<Rightarrow> 's"
  ev_display :: "u64 \<Rightarrow> u32 \<Rightarrow> u32 \<Rightarrow> 's \<Rightarrow> 's"

text \<open>\<^verbatim>\<open>for (long i = 0; i < count; i++)\<close> over the bytes of the user's buffer.\<close>

primrec read_bytes :: "('s, 'e) sys_env_scheme \<Rightarrow> u64 \<Rightarrow> nat \<Rightarrow> 's \<Rightarrow> 's option" where
  "read_bytes ev buf 0 s = Some s"
| "read_bytes ev buf (Suc n) s =
     (case ev_getc ev s of None \<Rightarrow> None | Some (c, s1) \<Rightarrow> read_bytes ev (buf + 1) n (ev_write ev buf c s1))"

primrec write_bytes :: "('s, 'e) sys_env_scheme \<Rightarrow> u64 \<Rightarrow> nat \<Rightarrow> 's \<Rightarrow> 's option" where
  "write_bytes ev buf 0 s = Some s"
| "write_bytes ev buf (Suc n) s =
     (case ev_putc ev (im_bytes (ev_image ev s) buf) s of None \<Rightarrow> None | Some s1 \<Rightarrow> write_bytes ev (buf + 1) n s1)"

text \<open>Interrupts are on during the transfer; \<^verbatim>\<open>csrw sstatus\<close> writes the saved bit back.\<close>

definition with_interrupts ::
  "('a thread_sys_scheme \<Rightarrow> 'a thread_sys_scheme option) \<Rightarrow> 'a thread_sys_scheme \<Rightarrow> 'a thread_sys_scheme option" where
  "with_interrupts f s = map_option (\<lambda>s1. s1\<lparr>sie := sie s\<rparr>) (f (s\<lparr>sie := True\<rparr>))"

text \<open>A handler returns to its caller, or its thread has ended and another one runs.\<close>

datatype 's flow = Returns 's | Switched 's

definition set_a0 :: "u64 \<Rightarrow> u64 \<Rightarrow> 'a thread_sys_scheme \<Rightarrow> 'a thread_sys_scheme" where
  "set_a0 frame ret s = upd_frame frame (\<lambda>f. f\<lparr>tf_a0 := ret\<rparr>) s"

definition ret_int :: "u64 \<Rightarrow> (int \<times> 'a thread_sys_scheme) option \<Rightarrow> 'a thread_sys_scheme flow option" where
  "ret_int frame r = map_option (\<lambda>(v, s). Returns (set_a0 frame (word_of_int v) s)) r"

definition syscall_handler ::
  "('a thread_sys_scheme, 'e) sys_env_scheme \<Rightarrow> u64 \<Rightarrow> 'a thread_sys_scheme \<Rightarrow> 'a thread_sys_scheme flow option" where
  "syscall_handler ev frame s =
     (let f = tframes s frame; n = tf_a7 f
      in if n = SYS_getpid then Some (Returns (set_a0 frame (word_of_int (t_pid (tasks s (get_current s)))) s))
         else if n = SYS_uart_read then
           map_option (\<lambda>s1. Returns (set_a0 frame (if sint (tf_a1 f) < 0 then 0 else tf_a1 f) s1))
             (with_interrupts (read_bytes ev (tf_a0 f) (nat (sint (tf_a1 f)))) s)
         else if n = SYS_uart_write then
           map_option (\<lambda>s1. Returns (set_a0 frame (if sint (tf_a1 f) < 0 then 0 else tf_a1 f) s1))
             (with_interrupts (write_bytes ev (tf_a0 f) (nat (sint (tf_a1 f)))) s)
         else if n = SYS_exec then ret_int frame (do_exec (ev_image ev s) (tf_a0 f) s)
         else if n = SYS_fork then ret_int frame (do_fork (ev_symbols ev) frame s)
         else if n = SYS_waitpid then ret_int frame (do_waitpid (ev_resume ev) (sint (tf_a0 f)) s)
         else if n = SYS_exit then map_option Switched (thread_exit s)
         else if n = SYS_stop then ret_int frame (do_stop (ev_resume ev) (sint (tf_a0 f)) s)
         else if n = SYS_display then
           Some (Returns (set_a0 frame 0 (ev_display ev (tf_a0 f) (ucast (tf_a1 f)) (ucast (tf_a2 f)) s)))
         else if n = SYS_usleep then ret_int frame (do_usleep (ev_qemu ev) (ev_symbols ev) (ev_resume ev) (ucast (tf_a0 f)) s)
         else if n = SYS_signal then
           Some (Returns (set_a0 frame 0 (do_signal (sint (ucast (tf_a0 f) :: u32)) (tf_a1 f) s)))
         else if n = SYS_sigreturn then Some (Returns (do_sigreturn frame s))
         else if n = SYS_kill then ret_int frame (do_kill (sint (ucast (tf_a0 f) :: u32)) (sint (ucast (tf_a1 f) :: u32)) s)
         else if n = SYS_mmap then
           map_option (\<lambda>(v, s1). Returns (set_a0 frame v s1))
             (do_mmap (tf_a0 f) (tf_a1 f) (ucast (tf_a2 f)) (ucast (tf_a3 f)) s)
         else Some (Returns (set_a0 frame (- 1) s)))"

end
