(* ===== verification/Thread_Spec.thy ===== *)
theory Thread_Spec
  imports Thread
begin

text \<open>
  The run queue as a ring of distinct tasks, the effect of its operations on the list of its
  members, and the round-robin order of the scheduler.
\<close>

subsection \<open>Rings\<close>

fun links_to :: "(u64 \<Rightarrow> task_struct) \<Rightarrow> u64 list \<Rightarrow> u64 \<Rightarrow> bool" where
  "links_to ts [] e \<longleftrightarrow> True"
| "links_to ts (x # xs) e \<longleftrightarrow> t_next (ts x) = hd (xs @ [e]) \<and> links_to ts xs e"

definition ring :: "(u64 \<Rightarrow> task_struct) \<Rightarrow> u64 list \<Rightarrow> bool" where
  "ring ts xs \<longleftrightarrow> xs \<noteq> [] \<and> distinct xs \<and> NULL \<notin> set xs \<and> links_to ts xs (hd xs)"

definition queue_ok :: "'a thread_sys_scheme \<Rightarrow> u64 list \<Rightarrow> bool" where
  "queue_ok s xs \<longleftrightarrow> (if xs = [] then run_queue s = NULL else ring (tasks s) xs \<and> run_queue s = hd xs)"

lemma links_to_append:
  "links_to ts (xs @ ys) e \<longleftrightarrow> links_to ts xs (hd (ys @ [e])) \<and> links_to ts ys e"
  by (induction xs) (auto simp: hd_append)

lemma links_to_cong:
  "(\<And>x. x \<in> set xs \<Longrightarrow> t_next (ts' x) = t_next (ts x)) \<Longrightarrow> links_to ts' xs e = links_to ts xs e"
  by (induction xs) auto

lemma ring_cong: "(\<And>x. x \<in> set xs \<Longrightarrow> t_next (ts' x) = t_next (ts x)) \<Longrightarrow> ring ts' xs = ring ts xs"
  using links_to_cong [of xs ts' ts] by (auto simp: ring_def)

lemma ring_rotate: "ring ts (xs @ ys) \<Longrightarrow> ring ts (ys @ xs)"
  by (cases xs; cases ys) (auto simp: ring_def links_to_append hd_append)

text \<open>The links of the ring seen from a member \<open>t\<close>: the others, then \<open>t\<close> again.\<close>

lemma ring_from:
  assumes "ring ts (as @ t # bs)"
  shows "ring ts (t # bs @ as)" "t_next (ts t) = hd (bs @ as @ [t])" "links_to ts (bs @ as) t" "t \<notin> set (bs @ as)"
proof -
  show r: "ring ts (t # bs @ as)" using ring_rotate [OF assms] by simp
  show "t_next (ts t) = hd (bs @ as @ [t])" "links_to ts (bs @ as) t" "t \<notin> set (bs @ as)"
    using r by (auto simp: ring_def)
qed

lemma ring_find_run:
  "links_to ts ys e \<Longrightarrow> ys \<noteq> [] \<Longrightarrow> e \<notin> set (tl ys) \<Longrightarrow>
    ring_find P ts e (hd ys) = Some (case find P ys of Some x \<Rightarrow> x | None \<Rightarrow> NULL)"
proof (induction ys)
  case (Cons y ys)
  show ?case
  proof (cases ys)
    case Nil
    then show ?thesis using Cons.prems by (subst ring_find.simps) simp
  next
    case (Cons z zs)
    then have "ring_find P ts e z = Some (case find P ys of Some x \<Rightarrow> x | None \<Rightarrow> NULL)"
      using Cons.IH Cons.prems by simp
    then show ?thesis using Cons Cons.prems by (subst ring_find.simps) auto
  qed
qed simp

lemma ring_find_ring:
  "ring ts xs \<Longrightarrow> ring_find P ts (hd xs) (hd xs) = Some (case find P xs of Some x \<Rightarrow> x | None \<Rightarrow> NULL)"
  by (rule ring_find_run) (simp_all add: ring_def, cases xs, simp_all)

lemma ring_head: "ring ts xs \<Longrightarrow> hd xs \<noteq> NULL"
  by (cases xs) (auto simp: ring_def)

lemma find_first:
  assumes "x \<in> set xs" "P x" "\<And>y. y \<in> set xs \<Longrightarrow> P y \<Longrightarrow> y = x"
  shows "find P xs = Some x"
  using assms
proof (induction xs)
  case (Cons a xs)
  show ?case
  proof (cases "P a")
    case True
    then have "a = x" using Cons.prems(3) [of a] by simp
    then show ?thesis using True by simp
  next
    case False
    then have "x \<in> set xs" using Cons.prems(1,2) by auto
    then have "find P xs = Some x" by (rule Cons.IH [OF _ Cons.prems(2)]) (rule Cons.prems(3), simp_all)
    then show ?thesis using False by simp
  qed
qed simp

lemma links_inj:
  assumes "ring ts xs" "x \<in> set xs" "y \<in> set xs" "t_next (ts x) = t_next (ts y)"
  shows "x = y"
proof (rule ccontr)
  assume ne: "x \<noteq> y"
  obtain as bs where xs: "xs = as @ x # bs" using assms(2) by (meson split_list)
  note r = ring_from [OF assms(1) [unfolded xs]]
  have "y \<in> set (bs @ as)" using assms(3) ne xs by auto
  then obtain us vs where uv: "bs @ as = us @ y # vs" by (meson split_list)
  have "t_next (ts y) = hd (vs @ [x])" using r(3) unfolding uv by (simp add: links_to_append)
  moreover have "t_next (ts x) = hd ((bs @ as) @ [x])" using r(2) by simp
  then have "t_next (ts x) = hd (us @ y # vs @ [x])" unfolding uv by simp
  ultimately have e: "hd (us @ y # vs @ [x]) = hd (vs @ [x])" using assms(4) by metis
  have "distinct (x # bs @ as)" using r(1) by (simp add: ring_def)
  then have "distinct (x # us @ y # vs)" unfolding uv .
  then show False using e by (cases us; cases vs) auto
qed

subsection \<open>Queue operations\<close>

lemma upd_task_simps [simp]:
  "tasks (upd_task t f s) = (tasks s)(t := f (tasks s t))" "run_queue (upd_task t f s) = run_queue s"
  "tp (upd_task t f s) = tp s" "mem (upd_task t f s) = mem s" "sie (upd_task t f s) = sie s"
  by (simp_all add: upd_task_def)

lemma queue_ok_sie [simp]: "queue_ok (s\<lparr>sie := e\<rparr>) xs = queue_ok s xs"
  by (simp add: queue_ok_def)

lemma enqueue_ok:
  assumes q: "queue_ok s xs" and t: "t \<notin> set xs" "t \<noteq> NULL"
  shows "queue_ok (enqueue t s) (case xs of [] \<Rightarrow> [t] | x # ys \<Rightarrow> x # t # ys)"
proof (cases xs)
  case Nil
  then show ?thesis using q t by (simp add: queue_ok_def enqueue_def irq_defs Let_def ring_def)
next
  case (Cons x ys)
  then have r: "t_next (tasks s x) = hd (ys @ [x])" "links_to (tasks s) ys x" "run_queue s = x" "x \<noteq> NULL"
    "distinct (x # ys)" "NULL \<notin> set ys" "t \<noteq> x" "t \<notin> set ys"
    using q t by (auto simp: queue_ok_def ring_def)
  let ?ts = "tasks (enqueue t s)"
  have e: "?ts = (tasks s)(x := (tasks s x)\<lparr>t_next := t\<rparr>, t := (tasks s t)\<lparr>t_next := hd (ys @ [x])\<rparr>)"
    "run_queue (enqueue t s) = x"
    using r by (simp_all add: enqueue_def irq_defs Let_def)
  have "links_to ?ts ys x = links_to (tasks s) ys x" using r by (intro links_to_cong) (auto simp: e)
  then have "ring ?ts (x # t # ys)" using r t by (auto simp: ring_def e(1))
  then show ?thesis using Cons e(2) by (simp add: queue_ok_def)
qed

lemma dequeue_absent:
  assumes q: "queue_ok s xs" and t: "t \<notin> set xs"
  shows "dequeue t s = Some s"
proof (cases "xs = []")
  case True
  then show ?thesis using q by (simp add: queue_ok_def dequeue_def)
next
  case False
  then have r: "ring (tasks s) xs" "run_queue s = hd xs" "run_queue s \<noteq> NULL"
    using q False ring_head by (auto simp: queue_ok_def)
  have "t_next (tasks s c) \<in> set xs" if c: "c \<in> set xs" for c
  proof -
    obtain as bs where xs: "xs = as @ c # bs" using c by (meson split_list)
    have "t_next (tasks s c) = hd (bs @ as @ [c])" using ring_from [OF r(1) [unfolded xs]] by simp
    also have "\<dots> \<in> set (bs @ as @ [c])" by (rule hd_in_set) simp
    finally show ?thesis by (auto simp: xs)
  qed
  then have "find (\<lambda>c. t_next (tasks s c) = t) xs = None" using t by (auto simp: find_None_iff)
  then show ?thesis
    using r ring_find_ring [OF r(1), of "\<lambda>c. t_next (tasks s c) = t"]
    by (simp add: dequeue_def irq_defs Let_def)
qed

text \<open>The predecessor of a member.\<close>

lemma ring_pred:
  assumes r: "ring ts xs" and xs: "xs = as @ t # bs"
  defines "p \<equiv> last (t # bs @ as)"
  shows "t_next (ts p) = t" "p \<in> set xs" "find (\<lambda>c. t_next (ts c) = t) xs = Some p"
proof -
  note f = ring_from [OF r [unfolded xs]]
  show p: "t_next (ts p) = t"
  proof (cases "bs @ as" rule: rev_cases)
    case Nil
    then show ?thesis using f(2) by (simp add: p_def)
  next
    case (snoc zs z)
    then have "p = z" "links_to ts (zs @ [z]) t" using f(3) by (simp_all add: p_def)
    then show ?thesis by (simp add: links_to_append)
  qed
  show m: "p \<in> set xs" using last_in_set [of "t # bs @ as"] by (auto simp: p_def xs)
  show "find (\<lambda>c. t_next (ts c) = t) xs = Some p"
    using m p links_inj [OF r] by (intro find_first) auto
qed


lemma dequeue_ok:
  assumes q: "queue_ok s xs" and t: "t \<in> set xs"
  shows "\<exists>s'. dequeue t s = Some s' \<and> queue_ok s' (remove1 t xs)"
proof -
  obtain as bs where xs: "xs = as @ t # bs" using t by (meson split_list)
  have r: "ring (tasks s) xs" "run_queue s = hd xs" using q t by (auto simp: queue_ok_def split: if_splits)
  then have d: "remove1 t xs = as @ bs" by (simp add: ring_def xs remove1_append)
  note f = ring_from [OF r(1) [unfolded xs]]
  define p where "p = last (t # bs @ as)"
  note pr = ring_pred [OF r(1) xs, folded p_def]
  have "p \<noteq> NULL" using pr(2) r(1) by (auto simp: ring_def)
  moreover have "run_queue s \<noteq> NULL" using ring_head [OF r(1)] r(2) by simp
  ultimately have e: "dequeue t s = Some (if t_next (tasks s t) = t then s\<lparr>run_queue := NULL\<rparr>
      else let s1 = upd_task p (\<lambda>x. x\<lparr>t_next := t_next (tasks s t)\<rparr>) s
           in if run_queue s = t then s1\<lparr>run_queue := t_next (tasks s1 t)\<rparr> else s1)"
    using ring_find_ring [OF r(1), of "\<lambda>c. t_next (tasks s c) = t"] pr(3) r(2)
    by (simp add: dequeue_def irq_defs Let_def upd_task_def)
  show ?thesis
  proof (cases "bs @ as" rule: rev_cases)
    case Nil
    then have "t_next (tasks s t) = t" using f(2) by simp
    then show ?thesis using e d Nil by (simp add: queue_ok_def)
  next
    case (snoc zs z)
    then have z: "z = p" by (simp add: p_def)
    have n: "t_next (tasks s t) = hd (zs @ [p])" using f(2) snoc z by (metis append_assoc append_is_Nil_conv hd_append2 not_Cons_self2)
    have t': "t \<notin> set (zs @ [p])" using f(4) snoc z by simp
    then have "p \<noteq> t" by auto
    moreover have "hd (zs @ [p]) \<noteq> t" using t' by (cases zs) auto
    ultimately have ne: "t_next (tasks s t) \<noteq> t" "p \<noteq> t" by (simp_all add: n)
    let ?s1 = "upd_task p (\<lambda>x. x\<lparr>t_next := t_next (tasks s t)\<rparr>) s"
    have "links_to (tasks s) (zs @ [p]) t" "distinct (zs @ [p])" "NULL \<notin> set (zs @ [p])"
      using f(1,3) snoc z by (auto simp: ring_def)
    moreover then have "links_to (tasks ?s1) zs p = links_to (tasks s) zs p" by (intro links_to_cong) auto
    ultimately have "ring (tasks ?s1) (bs @ as)"
      unfolding snoc z by (auto simp: ring_def links_to_append n)
    then have ring: "ring (tasks ?s1) (as @ bs)" by (rule ring_rotate)
    show ?thesis
    proof (cases as)
      case Nil
      then have "run_queue s = t" using r(2) xs by simp
      moreover have "hd bs = hd (zs @ [p])" using snoc z Nil by simp
      ultimately show ?thesis using e ne ring d Nil n snoc by (auto simp: queue_ok_def Let_def)
    next
      case (Cons a as')
      then have "run_queue s = a" "a \<noteq> t" using r xs by (auto simp: ring_def)
      then show ?thesis using e ne(1) ring d Cons by (simp add: queue_ok_def Let_def)
    qed
  qed
qed

subsection \<open>The interface of a task queue\<close>

datatype queue_op = Enqueue u64 | Dequeue u64

fun run_ops :: "(u64 \<Rightarrow> 's \<Rightarrow> 's) \<Rightarrow> (u64 \<Rightarrow> 's \<Rightarrow> 's option) \<Rightarrow> queue_op list \<Rightarrow> 's \<Rightarrow> 's option" where
  "run_ops ins del [] s = Some s"
| "run_ops ins del (Enqueue t # ops) s = run_ops ins del ops (ins t s)"
| "run_ops ins del (Dequeue t # ops) s = (case del t s of None \<Rightarrow> None | Some s1 \<Rightarrow> run_ops ins del ops s1)"

text \<open>The members after a sequence of operations, and when it adds only new tasks.\<close>

fun members :: "queue_op list \<Rightarrow> u64 set \<Rightarrow> u64 set" where
  "members [] A = A"
| "members (Enqueue t # ops) A = members ops (insert t A)"
| "members (Dequeue t # ops) A = members ops (A - {t})"

fun adds_new :: "queue_op list \<Rightarrow> u64 set \<Rightarrow> bool" where
  "adds_new [] A \<longleftrightarrow> True"
| "adds_new (Enqueue t # ops) A \<longleftrightarrow> t \<noteq> NULL \<and> t \<notin> A \<and> adds_new ops (insert t A)"
| "adds_new (Dequeue t # ops) A \<longleftrightarrow> adds_new ops (A - {t})"

locale task_queue =
  fixes rep :: "'s \<Rightarrow> u64 list \<Rightarrow> bool"
    and ins :: "u64 \<Rightarrow> 's \<Rightarrow> 's"
    and del :: "u64 \<Rightarrow> 's \<Rightarrow> 's option"
  assumes rep_distinct: "rep s xs \<Longrightarrow> distinct xs"
    and ins_rep: "rep s xs \<Longrightarrow> t \<notin> set xs \<Longrightarrow> t \<noteq> NULL \<Longrightarrow> \<exists>ys. rep (ins t s) ys \<and> set ys = insert t (set xs)"
    and del_rep: "rep s xs \<Longrightarrow> \<exists>s'. del t s = Some s' \<and> rep s' (remove1 t xs)"

context task_queue
begin

lemma run_ops_ok:
  "rep s xs \<Longrightarrow> adds_new ops (set xs) \<Longrightarrow>
    \<exists>s' ys. run_ops ins del ops s = Some s' \<and> rep s' ys \<and> set ys = members ops (set xs)"
proof (induction ops arbitrary: s xs)
  case (Cons op ops)
  show ?case
  proof (cases op)
    case (Enqueue t)
    then obtain ys where "rep (ins t s) ys" "set ys = insert t (set xs)"
      using ins_rep [OF Cons.prems(1), of t] Cons.prems(2) by auto
    then show ?thesis using Cons.IH [of "ins t s" ys] Cons.prems(2) Enqueue by auto
  next
    case (Dequeue t)
    obtain s1 where "del t s = Some s1" "rep s1 (remove1 t xs)" using del_rep [OF Cons.prems(1)] by blast
    moreover have "set (remove1 t xs) = set xs - {t}" using rep_distinct [OF Cons.prems(1)] by (rule set_remove1_eq)
    ultimately show ?thesis using Cons.IH [of s1 "remove1 t xs"] Cons.prems(2) Dequeue by auto
  qed
qed auto

end

interpretation run_q: task_queue queue_ok enqueue dequeue
proof
  fix s :: "'a thread_sys_scheme" and xs t
  assume q: "queue_ok s xs"
  show "distinct xs" using q by (auto simp: queue_ok_def ring_def split: if_splits)
  show "\<exists>ys. queue_ok (enqueue t s) ys \<and> set ys = insert t (set xs)" if "t \<notin> set xs" "t \<noteq> NULL"
    using enqueue_ok [OF q that] by (intro exI [of _ "case xs of [] \<Rightarrow> [t] | x # ys \<Rightarrow> x # t # ys"]) (auto split: list.split)
  show "\<exists>s'. dequeue t s = Some s' \<and> queue_ok s' (remove1 t xs)"
    using dequeue_ok [OF q] dequeue_absent [OF q] q by (cases "t \<in> set xs") (auto simp: remove1_idem)
qed


subsection \<open>Round robin\<close>

text \<open>The task the scheduler picks among the others of the ring, in ring order from the current one.\<close>

definition pick :: "(u64 \<Rightarrow> task_struct) \<Rightarrow> u64 \<Rightarrow> u64 list \<Rightarrow> u64" where
  "pick ts current others = (case find (\<lambda>t. t_state (ts t) = THREAD_RUNNING) others of Some t \<Rightarrow> t | None \<Rightarrow> current)"

lemma find_next_run:
  "links_to ts ys prev \<Longrightarrow> prev \<notin> set ys \<Longrightarrow> find_next ts prev (hd (ys @ [prev])) = Some (pick ts prev ys)"
proof (induction ys)
  case Nil
  then show ?case by (subst find_next.simps) (simp add: pick_def)
next
  case (Cons y ys)
  then show ?case by (subst find_next.simps) (auto simp: pick_def)
qed

text \<open>What one call of \<^verbatim>\<open>schedule\<close> does when the current task is on the ring.\<close>

definition switched :: "u64 \<Rightarrow> 'a thread_sys_scheme \<Rightarrow> 'a thread_sys_scheme \<Rightarrow> bool" where
  "switched nxt s s' \<longleftrightarrow>
     tp s' = nxt \<and> run_queue s' = run_queue s \<and>
     (if nxt = tp s then s' = s
      else cpu s' = t_thread (tasks s nxt) \<and> tasks s' = (tasks s)(tp s := (tasks s (tp s))\<lparr>t_thread := cpu s\<rparr>) \<and>
        sched_saved s' = (sched_saved s)(tp s := Some (sie s)) \<and>
        satp s' = (if t_pgd (tasks s nxt) = NULL then satp s
                   else SATP_MODE_SV39 OR drop_bit 12 (pa_of (t_pgd (tasks s nxt)))) \<and>
        sie s' = (sched_saved s nxt = Some True))"

lemma schedule_ring:
  assumes r: "ring (tasks s) (as @ tp s # bs)"
  shows "\<exists>s'. schedule s = Some s' \<and> switched (pick (tasks s) (tp s) (bs @ as)) s s'"
proof -
  let ?n = "pick (tasks s) (tp s) (bs @ as)"
  note f = ring_from [OF r]
  have "find_next (tasks s) (tp s) (t_next (tasks s (tp s))) = Some ?n"
    using find_next_run [OF f(3,4)] f(2) by simp
  then show ?thesis
    by (auto simp: schedule_def get_current_def switched_def switch_to_def irq_defs Let_def upd_task_def
        split: option.split)
qed

primrec schedules :: "nat \<Rightarrow> 'a thread_sys_scheme \<Rightarrow> 'a thread_sys_scheme option" where
  "schedules 0 s = Some s"
| "schedules (Suc n) s = (case schedule s of None \<Rightarrow> None | Some s1 \<Rightarrow> schedules n s1)"

lemma switched_keeps:
  assumes "switched nxt s s'"
  shows "t_next (tasks s' x) = t_next (tasks s x)" "t_state (tasks s' x) = t_state (tasks s x)"
    "ring (tasks s') xs = ring (tasks s) xs" "tp s' = nxt"
proof -
  show n: "t_next (tasks s' x) = t_next (tasks s x)" "t_state (tasks s' x) = t_state (tasks s x)" for x
    using assms by (auto simp: switched_def split: if_splits)
  show "ring (tasks s') xs = ring (tasks s) xs" by (rule ring_cong) (rule n)
  show "tp s' = nxt" using assms by (simp add: switched_def)
qed

lemma round_robin_reaches:
  assumes "ring (tasks s) (tp s # us @ t # vs)" "t_state (tasks s t) = THREAD_RUNNING"
  shows "\<exists>n s'. n \<le> length us + 1 \<and> schedules n s = Some s' \<and> tp s' = t"
  using assms
proof (induction "length us" arbitrary: s us vs rule: less_induct)
  case less
  obtain s1 where s1: "schedule s = Some s1" "switched (pick (tasks s) (tp s) (us @ t # vs)) s s1"
    using schedule_ring [of s "[]" "us @ t # vs"] less.prems(1) by auto
  note k = switched_keeps [OF s1(2)]
  show ?case
  proof (cases "find (\<lambda>x. t_state (tasks s x) = THREAD_RUNNING) us")
    case None
    then have "find (\<lambda>x. t_state (tasks s x) = THREAD_RUNNING) (us @ t # vs) = Some t"
      using less.prems(2) by (induction us) (auto split: if_splits)
    then have "tp s1 = t" using k(4) by (simp add: pick_def)
    then show ?thesis using s1(1) by (intro exI [of _ "Suc 0"] exI [of _ s1]) simp
  next
    case (Some x)
    then have "find (\<lambda>x. t_state (tasks s x) = THREAD_RUNNING) (us @ t # vs) = Some x"
      by (induction us) (auto split: if_splits)
    then have tp: "tp s1 = x" using k(4) by (simp add: pick_def)
    obtain a b where us: "us = a @ x # b" using Some by (metis find_Some_iff in_set_conv_nth split_list)
    have "ring (tasks s1) ((tp s # a) @ x # b @ t # vs)" using less.prems(1) k(3) us by simp
    then have "ring (tasks s1) (tp s1 # b @ t # (vs @ tp s # a))" using ring_from(1) tp by fastforce
    moreover have "length b < length us" using us by simp
    ultimately obtain n s' where "n \<le> length b + 1" "schedules n s1 = Some s'" "tp s' = t"
      using less.hyps [of b s1 "vs @ tp s # a"] less.prems(2) k(2) by auto
    then show ?thesis using s1(1) us by (intro exI [of _ "Suc n"] exI [of _ s']) simp
  qed
qed


subsection \<open>A concrete system\<close>

text \<open>The booted machine of the page tables with an initialised heap and no thread.\<close>

definition boot_heap :: kmalloc_state where
  "boot_heap = kmalloc_init (buddy_state.extend boot_pages
     (kmalloc_state.fields (\<lambda>_. \<lparr>chunk_size = 0, pool_free_list = NULL\<rparr>) NULL (\<lambda>_. 0)))"

lemma boot_heap_ok: "kmalloc_rep (\<lambda>_. []) boot_heap" "9 \<le> card (free_frames boot_heap)"
proof -
  let ?s = "buddy_state.extend boot_pages (kmalloc_state.fields (\<lambda>_. \<lparr>chunk_size = 0, pool_free_list = NULL\<rparr>) NULL (\<lambda>_. 0))"
  have v: "buddy_state.truncate ?s = boot_pages" by (simp add: buddy_state.truncate_def buddy_state.extend_def)
  have t: "buddy_total_pages ?s = 16" using boot_pages_fields(2) by (simp add: buddy_state.extend_def)
  have inv: "buddy_inv ?s" "free_frames ?s = {6..<16}"
    using truncate_inv(4,5) [of ?s] boot_pages_ok by (simp_all add: v page_inv_def)
  have al: "base_aligned ?s"
    using boot_pages_fields(1) by (simp add: base_aligned_def buddy_state.extend_def va_def)
  have o16: "alloc_order 16 = 0" by (rule order_of_bytes) simp
  have "can_serve ?s (of_nat (buddy_total_pages ?s))"
    unfolding t by (rule serve_bytes [OF inv(1)]) (simp_all add: inv(2))
  note k = kmalloc_init_rep [OF inv(1) al this, folded boot_heap_def]
  show "kmalloc_rep (\<lambda>_. []) boot_heap" by (rule k(1))
  have "alloc_order (of_nat (buddy_total_pages ?s)) = 0" unfolding t using o16 by simp
  then obtain b where "free_frames boot_heap = {6..<16} - frames_of b 0" using k(2) unfolding inv(2) by metis
  moreover have "frames_of b 0 = {b}" by (auto simp: frames_of_def)
  ultimately show "9 \<le> card (free_frames boot_heap)" by (simp add: card_Diff_singleton_if)
qed

definition blank_frame :: trap_frame where
  "blank_frame = trap_frame.make 0 0 0 0 0 0 0 0 0 0 0 0 0 0 0 0 0 0 0 0 0 0 0 0 0 0 0 0 0 0 0 0 0 0 0"

definition blank_regs :: thread_struct where "blank_regs = \<lparr>th_ra = 0, th_sp = 0, th_s = replicate 12 0\<rparr>"

definition blank_task :: task_struct where
  "blank_task = \<lparr>t_thread = blank_regs, t_pid = 0, t_ppid = 0, t_state = THREAD_RUNNING, t_stack = NULL, t_next = NULL,
     t_pgd = NULL, t_tf = NULL, t_vma_list = NULL, t_signal_handlers = (\<lambda>_. NULL), t_pending_signals = 0,
     t_is_handling_signal = 0, t_signal_stack = NULL, t_signal_saved_tf = blank_frame\<rparr>"

definition blank_vma :: vm_area_struct where
  "blank_vma = \<lparr>vm_start = 0, vm_end = 0, vm_prot = 0, vm_flags = 0, vm_next = NULL, vm_file_data = NULL, vm_file_size = 0\<rparr>"

definition boot_sys :: thread_sys where
  "boot_sys = kmalloc_state.extend boot_heap (task_state_ext [] (- 1)
     (timer_state_ext [] 0 (\<lambda>n. 1000 * of_nat n) 0 0 0
       (vm_state_ext True (va 0x80002000) (va 0x80003000) 0 0
         (thread_sys_ext 0 NULL NULL blank_regs (\<lambda>_. blank_task) (\<lambda>_. blank_vma) (\<lambda>_. blank_frame) (\<lambda>_. None) ()))))"

text \<open>Three threads; the second one sleeps and the first one runs.\<close>

definition three_threads :: thread_sys where
  "three_threads = boot_sys\<lparr>run_queue := 64, tp := 64,
     tasks := (\<lambda>_. blank_task)(64 := blank_task\<lparr>t_pid := 1, t_next := 128\<rparr>,
                128 := blank_task\<lparr>t_pid := 2, t_next := 192, t_state := THREAD_SLEEPING\<rparr>,
                192 := blank_task\<lparr>t_pid := 3, t_next := 64\<rparr>)\<rparr>"

lemma three_threads_simps [simp]:
  "run_queue three_threads = 64" "tp three_threads = 64"
  "t_next (tasks three_threads 64) = 128" "t_next (tasks three_threads 128) = 192" "t_next (tasks three_threads 192) = 64"
  "t_state (tasks three_threads 64) = THREAD_RUNNING" "t_state (tasks three_threads 128) = THREAD_SLEEPING"
  "t_state (tasks three_threads 192) = THREAD_RUNNING"
  "t_pid (tasks three_threads 64) = 1" "t_pid (tasks three_threads 128) = 2" "t_pid (tasks three_threads 192) = 3"
  by (simp_all add: three_threads_def blank_task_def)

lemma three_threads_queue: "queue_ok three_threads [64, 128, 192]"
  by (simp add: queue_ok_def ring_def)

subsection \<open>Properties\<close>

text \<open>C22: over any sequence of \<^verbatim>\<open>enqueue\<close> and \<^verbatim>\<open>dequeue\<close> calls that adds only tasks that are not
  queued, every call returns, the queue stays one ring of distinct tasks reached from \<^verbatim>\<open>run_queue\<close>,
  and its members are those added and not removed since.\<close>

theorem run_queue_ops_correct:
  assumes "queue_ok s xs" "adds_new ops (set xs)"
  shows "\<exists>s' ys. run_ops enqueue dequeue ops s = Some s' \<and> queue_ok s' ys \<and> set ys = members ops (set xs)"
  using run_q.run_ops_ok [OF assms] .

theorem run_queue_ops_correct_witness:
  "\<exists>s' ys. run_ops enqueue dequeue [Dequeue 128, Enqueue 256, Dequeue 64] three_threads = Some s' \<and> queue_ok s' ys \<and>
     set ys = {192, 256}"
proof -
  have "adds_new [Dequeue 128, Enqueue 256, Dequeue 64] (set [64, 128, 192])" by simp
  moreover have "members [Dequeue 128, Enqueue 256, Dequeue 64] (set [64, 128, 192]) = {192, 256}" by auto
  ultimately show ?thesis using run_queue_ops_correct [OF three_threads_queue] by metis
qed

text \<open>C23: when the current thread is queued, the search of \<^verbatim>\<open>schedule\<close> ends. It switches to the next
  runnable thread in ring order (saving and loading exactly the two contexts, the page-table root and
  the interrupt bit of the thread switched to) or stays when no other thread is runnable; the queue
  is unchanged.\<close>

theorem schedule_correct:
  assumes "queue_ok s (as @ tp s # bs)"
  defines "nxt \<equiv> pick (tasks s) (tp s) (bs @ as)"
  shows "\<exists>s'. schedule s = Some s' \<and> switched nxt s s' \<and> queue_ok s' (as @ tp s # bs) \<and>
    (if \<exists>t\<in>set (bs @ as). t_state (tasks s t) = THREAD_RUNNING then t_state (tasks s nxt) = THREAD_RUNNING else nxt = tp s)"
proof -
  have r: "ring (tasks s) (as @ tp s # bs)" using assms(1) by (simp add: queue_ok_def)
  obtain s' where s': "schedule s = Some s'" "switched nxt s s'" using schedule_ring [OF r] by (auto simp: nxt_def)
  moreover have "queue_ok s' (as @ tp s # bs)"
    using assms(1) s'(2) switched_keeps(3) [OF s'(2)] by (simp add: queue_ok_def switched_def)
  moreover have "if \<exists>t\<in>set (bs @ as). t_state (tasks s t) = THREAD_RUNNING then t_state (tasks s nxt) = THREAD_RUNNING else nxt = tp s"
  proof (cases "List.find (\<lambda>t. t_state (tasks s t) = THREAD_RUNNING) (bs @ as)")
    case None
    then have "\<not> (\<exists>t\<in>set (bs @ as). t_state (tasks s t) = THREAD_RUNNING)" by (auto simp: find_None_iff)
    moreover have "nxt = tp s" by (simp add: nxt_def pick_def None)
    ultimately show ?thesis by simp
  next
    case (Some x)
    then obtain i where "i < length (bs @ as)" "x = (bs @ as) ! i" "t_state (tasks s x) = THREAD_RUNNING"
      by (auto simp: find_Some_iff)
    then have x: "x \<in> set (bs @ as)" "t_state (tasks s x) = THREAD_RUNNING" using nth_mem by blast+
    have "nxt = x" by (simp add: nxt_def pick_def Some)
    then show ?thesis using x by auto
  qed
  ultimately show ?thesis by blast
qed

theorem schedule_correct_witness: "\<exists>s'. schedule three_threads = Some s' \<and> tp s' = 192"
proof -
  have "pick (tasks three_threads) 64 [128, 192] = 192" by (simp add: pick_def)
  then show ?thesis
    using schedule_correct [of three_threads "[]" "[128, 192]"] three_threads_queue by (auto simp: switched_def)
qed

text \<open>C29: round robin starves no thread: as long as the threads stay as they are, every runnable
  thread of the queue is the current one after fewer calls of \<^verbatim>\<open>schedule\<close> than there are threads.\<close>

theorem round_robin_fair:
  assumes "queue_ok s xs" "tp s \<in> set xs" "t \<in> set xs" "t_state (tasks s t) = THREAD_RUNNING"
  shows "\<exists>n s'. n < length xs \<and> schedules n s = Some s' \<and> tp s' = t"
proof (cases "t = tp s")
  case True
  then show ?thesis using assms(2) by (intro exI [of _ 0] exI [of _ s]) (cases xs; simp)
next
  case False
  obtain as bs where xs: "xs = as @ tp s # bs" using assms(2) by (meson split_list)
  have r: "ring (tasks s) (tp s # bs @ as)"
    using assms(1) xs ring_from(1) by (auto simp: queue_ok_def)
  have "t \<in> set (bs @ as)" using assms(3) False xs by auto
  then obtain us vs where uv: "bs @ as = us @ t # vs" by (meson split_list)
  then obtain n s' where "n \<le> length us + 1" "schedules n s = Some s'" "tp s' = t"
    using round_robin_reaches [of s us t vs] r assms(4) by auto
  moreover have "length (bs @ as) = length us + 1 + length vs" unfolding uv by simp
  then have "length us + 1 < length xs" using xs by simp
  ultimately show ?thesis by (intro exI [of _ n] exI [of _ s']) simp
qed

theorem round_robin_fair_witness: "\<exists>n s'. n < 3 \<and> schedules n three_threads = Some s' \<and> tp s' = 192"
  using round_robin_fair [OF three_threads_queue, of 192] by (simp add: numeral_3_eq_3)

end
