(* ===== verification/User_Memory.thy ===== *)
theory User_Memory
  imports Vm_Spec
begin

text \<open>
  What a process sees of memory: the bytes behind the present leaves of its address space. The
  lemmas say which changes of the kernel's memory a process cannot see, and what one leaf or one
  new page changes.
\<close>

definition leaf_target :: "u64 \<Rightarrow> u64" where "leaf_target e = va (entry_page e)"

definition user_byte :: "mem \<Rightarrow> u64 \<Rightarrow> u64 \<Rightarrow> u8 option" where
  "user_byte m pgd v =
     (let e = leaf m pgd (indices v)
      in if present e then Some (load8 m (leaf_target e + (v AND 0xFFF))) else None)"

text \<open>A well-formed space whose user pages are owned and are not among its tables.\<close>

definition sound_space :: "'a buddy_state_scheme \<Rightarrow> u64 \<Rightarrow> bool" where
  "sound_space s pgd \<longleftrightarrow> wf_space s pgd \<and>
     (\<forall>x. user_index x \<and> present (leaf (mem s) pgd x) \<longrightarrow>
        own_page s (leaf_target (leaf (mem s) pgd x)) \<and>
        (\<forall>p. user_path p \<longrightarrow> table_at (mem s) pgd p \<noteq> Some (leaf_target (leaf (mem s) pgd x))))"

lemma sound_page:
  assumes "sound_space s pgd" "user_index x" "present (leaf (mem s) pgd x)"
  shows "own_page s (leaf_target (leaf (mem s) pgd x))"
    and "\<forall>p. user_path p \<longrightarrow> table_at (mem s) pgd p \<noteq> Some (leaf_target (leaf (mem s) pgd x))"
  using assms unfolding sound_space_def by blast+

text \<open>No table of \<open>pgd\<close> is a table or a user page of \<open>r\<close>; user pages may be shared.\<close>

definition apart :: "'a buddy_state_scheme \<Rightarrow> u64 \<Rightarrow> u64 \<Rightarrow> bool" where
  "apart s pgd r \<longleftrightarrow> (\<forall>p t. user_path p \<and> table_at (mem s) pgd p = Some t \<longrightarrow>
     (\<forall>q. user_path q \<longrightarrow> table_at (mem s) r q \<noteq> Some t) \<and>
     (\<forall>x. user_index x \<and> present (leaf (mem s) r x) \<longrightarrow> leaf_target (leaf (mem s) r x) \<noteq> t))"

subsection \<open>Bytes of a page\<close>

lemma low12: "unat (v AND 0xFFF :: u64) = unat v mod 4096"
proof -
  have "v AND 0xFFF = take_bit 12 v" by (simp add: take_bit_eq_mask mask_eq_exp_minus_1)
  then show ?thesis by (simp only: unsigned_take_bit_eq) (simp add: take_bit_eq_mod)
qed

lemma page_offset_in: "aligned_page p \<Longrightarrow> in_page p (p + (v AND 0xFFF))"
proof -
  assume p: "aligned_page p"
  have "unat (v AND 0xFFF) < 4096" unfolding low12 by simp
  moreover have "v AND 0xFFF = of_nat (unat (v AND 0xFFF))" by (rule word_nat_cases) simp
  ultimately show ?thesis using in_page_offset [OF p] unfolding in_page_def by (metis add_less_cancel_left le_add1)
qed

lemma in_page_cell: "aligned_page p \<Longrightarrow> in_page p (a AND NOT 7) \<longleftrightarrow> in_page p a"
proof -
  assume p: "aligned_page p"
  have "unat (a AND 7) < 8" by (simp add: low3_unat)
  then show ?thesis using in_page_byte [OF p cell_aligned, of "unat (a AND 7)" a] cell_split [of a] by simp
qed

lemma load8_page:
  "aligned_page p \<Longrightarrow> (\<And>c. in_page p c \<Longrightarrow> m' c = m c) \<Longrightarrow> in_page p a \<Longrightarrow> load8 m' a = load8 m a"
  using in_page_cell by (intro load8_cong) blast

lemma with_bytes_page:
  assumes "aligned_page p" "\<And>a. \<not> in_page p a \<Longrightarrow> f (load8 m) a = load8 m a" "\<not> in_page p c"
  shows "with_bytes f m c = m c"
proof (cases "c AND 7 = 0")
  case True
  then show ?thesis using assms in_page_byte [OF assms(1) True] by (intro with_bytes_same) auto
qed (simp add: with_bytes_def)

lemma memcpy_page:
  assumes "aligned_page p" "aligned_page q" "p \<noteq> q"
  shows "memcpy p q 4096 b a = (if in_page p a then b (q + (a - p)) else b a)"
proof -
  have "p + of_nat i \<noteq> q + of_nat j" if "i < 4096" "j < 4096" for i j
  proof
    assume e: "p + of_nat i = q + of_nat j"
    have "in_page p (p + of_nat i)" using in_page_offset [OF assms(1) that(1)] that by (simp add: in_page_def)
    moreover have "in_page q (q + of_nat j)" using in_page_offset [OF assms(2) that(2)] that by (simp add: in_page_def)
    ultimately show False using in_page_unique assms unfolding e by blast
  qed
  then show ?thesis using memcpy_apply [of 4096 p q b a] in_page_diff [OF assms(1)] by simp
qed

text \<open>The page behind a leaf entry, whatever its flags.\<close>

lemma leaf_target_entry:
  "aligned_page p \<Longrightarrow> leaf_target (push_bit 10 (drop_bit 12 (pa_of p)) OR (f AND 0x3FF)) = p"
proof -
  assume "aligned_page p"
  then have "pa_of p = push_bit 12 (drop_bit 12 p) - push_bit 12 0xfffffffc000000"
    by (simp add: page_shift pa_of_def)
  then have x: "pa_of p = push_bit 12 (drop_bit 12 p - 0xfffffffc000000)"
    by (simp add: push_bit_eq_mult algebra_simps)
  have low: "(0x3FF :: u64) = mask 10" by (simp add: mask_eq_exp_minus_1)
  have "entry_page (push_bit 10 (drop_bit 12 (push_bit 12 q)) OR (f AND 0x3FF)) = push_bit 12 q" for q
    unfolding low by (rule bit_eqI) (auto simp: entry_page_def bit_simps)
  then have "entry_page (push_bit 10 (drop_bit 12 (pa_of p)) OR (f AND 0x3FF)) = pa_of p" by (simp add: x)
  then show ?thesis by (simp add: leaf_target_def va_def pa_of_def)
qed

subsection \<open>Changes a process does not see\<close>

text \<open>Owned pages outside \<open>T\<close> stay owned and keep their contents.\<close>

definition keeps_pages :: "u64 set \<Rightarrow> 'a buddy_state_scheme \<Rightarrow> 'a buddy_state_scheme \<Rightarrow> bool" where
  "keeps_pages T s s' \<longleftrightarrow>
     (\<forall>q. own_page s q \<and> q \<notin> T \<longrightarrow> own_page s' q \<and> (\<forall>c. in_page q c \<longrightarrow> mem s' c = mem s c))"

lemma keeps_pages_trans: "keeps_pages T s s1 \<Longrightarrow> keeps_pages U s1 s2 \<Longrightarrow> keeps_pages (T \<union> U) s s2"
  unfolding keeps_pages_def by (metis Un_iff)

lemma keeps_pages_taken: "page_inv s \<Longrightarrow> page_taken s b s' \<Longrightarrow> keeps_pages {} s s'"
  using page_taken_keeps unfolding keeps_pages_def by blast

definition unseen :: "'a buddy_state_scheme \<Rightarrow> u64 set \<Rightarrow> u64 \<Rightarrow> bool" where
  "unseen s T r \<longleftrightarrow> (\<forall>q. user_path q \<longrightarrow> (\<forall>t\<in>T. table_at (mem s) r q \<noteq> Some t)) \<and>
     (\<forall>x. user_index x \<and> present (leaf (mem s) r x) \<longrightarrow> leaf_target (leaf (mem s) r x) \<notin> T)"

lemma unseen_empty [simp]: "unseen s {} r"
  by (simp add: unseen_def)

lemma unseen_apart: "apart s pgd r \<Longrightarrow> user_path p \<Longrightarrow> table_at (mem s) pgd p = Some t \<Longrightarrow> unseen s {t} r"
  unfolding apart_def unseen_def by blast

lemma user_index_indices: "user_address v \<Longrightarrow> user_index (indices v)"
  using vpn_bounds by (auto simp: user_index_def indices_def user_address_def)

lemma leaf_cases:
  assumes "user_index x"
  obtains i j k where "x = (i, j, k)" "user_path [i, j]" "k < 512"
  using assms by (cases x) (auto simp: user_index_def user_path_def)

definition tables :: "mem \<Rightarrow> u64 \<Rightarrow> u64 set" where
  "tables m pgd = {t. \<exists>p. user_path p \<and> table_at m pgd p = Some t}"

lemma unseen_tables: "unseen s T r \<Longrightarrow> tables (mem s) r \<inter> T = {}"
  unfolding unseen_def tables_def by blast

lemma keeps_tables:
  assumes inv: "page_inv s" and r: "wf_space s r" and k: "keeps_pages T s s'" and u: "tables (mem s) r \<inter> T = {}"
  shows "user_path q \<Longrightarrow> table_at (mem s') r q = table_at (mem s) r q"
    and "user_index x \<Longrightarrow> leaf (mem s') r x = leaf (mem s) r x" and "wf_space s' r" "tables (mem s') r = tables (mem s) r"
proof -
  have notT: "t \<notin> T" if "user_path q" "table_at (mem s) r q = Some t" for q t
    using u that unfolding tables_def by blast
  have entry: "mem s' (entry_at t i) = mem s (entry_at t i)"
    if "user_path q" "table_at (mem s) r q = Some t" "i < 512" for q t i
    using k wf_owned [OF r that(1,2)] notT [OF that(1,2)]
      entry_in_page [OF own_page_props(1) [OF inv wf_owned [OF r that(1,2)]] that(3)]
    unfolding keeps_pages_def by blast
  show t: "table_at (mem s') r q = table_at (mem s) r q" if "user_path q" for q
    using that by (intro table_at_cong entry) (auto intro: user_path_take user_path_nth)
  show "leaf (mem s') r x = leaf (mem s) r x" if "user_index x" for x
    using that
  proof (rule leaf_cases)
    fix i j n assume x: "x = (i, j, n)" "user_path [i, j]" "n < 512"
    show "leaf (mem s') r x = leaf (mem s) r x"
      using t [OF x(2)] entry [OF x(2) _ x(3)] by (auto simp: leaf_def x(1) simp del: table_at.simps split: option.split)
  qed
  have own: "own_page s q \<Longrightarrow> q \<notin> T \<Longrightarrow> own_page s' q" for q using k by (simp add: keeps_pages_def)
  show "wf_space s' r"
    unfolding wf_space_def
  proof (intro conjI allI impI)
    fix p q assume p: "user_path p \<and> table_at (mem s') r p = Some q"
    then have "table_at (mem s) r p = Some q" using t by metis
    then show "own_page s' q" using p own wf_owned [OF r] notT by blast
  qed (use r t in \<open>unfold wf_space_def, metis\<close>)
  show "tables (mem s') r = tables (mem s) r" using t unfolding tables_def by auto
qed

lemma keeps_space:
  assumes inv: "page_inv s" and r: "wf_space s r" and k: "keeps_pages T s s'" and u: "unseen s T r"
  shows "user_path q \<Longrightarrow> table_at (mem s') r q = table_at (mem s) r q"
    and "user_index x \<Longrightarrow> leaf (mem s') r x = leaf (mem s) r x"
    and "wf_space s' r" "sound_space s r \<Longrightarrow> sound_space s' r"
    and "sound_space s r \<Longrightarrow> user_address v \<Longrightarrow> user_byte (mem s') r v = user_byte (mem s) r v"
proof -
  note kt = keeps_tables [OF inv r k unseen_tables [OF u]]
  show t: "table_at (mem s') r q = table_at (mem s) r q" if "user_path q" for q by (rule kt(1) [OF that])
  show l: "leaf (mem s') r x = leaf (mem s) r x" if "user_index x" for x by (rule kt(2) [OF that])
  have own: "own_page s q \<Longrightarrow> q \<notin> T \<Longrightarrow> own_page s' q" for q using k by (simp add: keeps_pages_def)
  show wf': "wf_space s' r" by (rule kt(3))
  show "sound_space s' r" if snd: "sound_space s r"
    unfolding sound_space_def
  proof (intro conjI allI impI wf')
    fix x assume "user_index x \<and> present (leaf (mem s') r x)"
    then have x: "user_index x" "present (leaf (mem s) r x)" "leaf (mem s') r x = leaf (mem s) r x" using l by metis+
    note y = sound_page [OF snd x(1,2)]
    have "leaf_target (leaf (mem s) r x) \<notin> T" using u x unfolding unseen_def by blast
    then show "own_page s' (leaf_target (leaf (mem s') r x))" unfolding x(3) by (rule own [OF y(1)])
    show "table_at (mem s') r p \<noteq> Some (leaf_target (leaf (mem s') r x))" if "user_path p" for p
      using y(2) t [OF that] that unfolding x(3) by simp
  qed
  show "user_byte (mem s') r v = user_byte (mem s) r v" if s: "sound_space s r" and v: "user_address v" for v
  proof -
    let ?e = "leaf (mem s) r (indices v)"
    note x = user_index_indices [OF v]
    have "load8 (mem s') (leaf_target ?e + (v AND 0xFFF)) = load8 (mem s) (leaf_target ?e + (v AND 0xFFF))" if "present ?e"
    proof -
      have o: "own_page s (leaf_target ?e)" "leaf_target ?e \<notin> T"
        using s u x that unfolding sound_space_def unseen_def by blast+
      note al = own_page_props(1) [OF inv o(1)]
      show ?thesis using k o by (intro load8_page [OF al _ page_offset_in [OF al]]) (simp add: keeps_pages_def)
    qed
    then show ?thesis by (simp add: user_byte_def Let_def l [OF x])
  qed
qed


subsection \<open>A change of one leaf\<close>

lemma keeps_pages_mem:
  "(\<And>q c. own_page s q \<Longrightarrow> q \<notin> T \<Longrightarrow> in_page q c \<Longrightarrow> m c = mem s c) \<Longrightarrow> keeps_pages T s (s\<lparr>mem := m\<rparr>)"
  by (auto simp: keeps_pages_def)

lemma keeps_pages_entry:
  assumes "page_inv s" "own_page s t" "k < 512"
  shows "keeps_pages {t} s (s\<lparr>mem := (mem s)(entry_at t k := e)\<rparr>)"
proof (rule keeps_pages_mem)
  fix q c assume q: "own_page s q" "q \<notin> {t}" "in_page q c"
  have "c \<noteq> entry_at t k"
    using q in_page_unique [OF own_page_props(1) [OF assms(1) q(1)] own_page_props(1) [OF assms(1,2)] q(3)]
      entry_in_page [OF own_page_props(1) [OF assms(1,2)] assms(3)] by blast
  then show "((mem s)(entry_at t k := e)) c = mem s c" by simp
qed

text \<open>A change of an entry of one space, seen from a space with other tables.\<close>

lemma write_beside:
  fixes e :: u64
  assumes inv: "page_inv s" and A: "wf_space s A" and B: "wf_space s B" and d: "tables (mem s) A \<inter> tables (mem s) B = {}"
    and ij: "user_path [i, j]" and k: "k < 512" and t: "table_at (mem s) A [i, j] = Some t"
  defines "s' \<equiv> s\<lparr>mem := (mem s)(entry_at t k := e)\<rparr>"
  shows "page_inv s'" "wf_space s' A" "wf_space s' B"
    and "user_path q \<Longrightarrow> table_at (mem s') A q = table_at (mem s) A q"
    and "user_path q \<Longrightarrow> table_at (mem s') B q = table_at (mem s) B q"
    and "user_index x \<Longrightarrow> leaf (mem s') A x = ((leaf (mem s) A)((i, j, k) := e)) x"
    and "user_index x \<Longrightarrow> leaf (mem s') B x = leaf (mem s) B x"
    and "keeps_pages {t} s s'" "tables (mem s') A = tables (mem s) A" "tables (mem s') B = tables (mem s) B"
proof -
  note w = leaf_write [OF inv A ij k t, where e = e, folded s'_def]
  show kp: "keeps_pages {t} s s'" unfolding s'_def by (rule keeps_pages_entry [OF inv wf_owned [OF A ij t] k])
  have "t \<in> tables (mem s) A" using ij t unfolding tables_def by blast
  then have "tables (mem s) B \<inter> {t} = {}" using d by blast
  note b = keeps_tables [OF inv B kp this]
  show "page_inv s'" "wf_space s' A" "wf_space s' B" "tables (mem s') B = tables (mem s) B" by (rule w b)+
  show a: "table_at (mem s') A q = table_at (mem s) A q" if "user_path q" for q by (rule w(4) [OF that])
  show "tables (mem s') A = tables (mem s) A" using a unfolding tables_def by auto
  show "user_path q \<Longrightarrow> table_at (mem s') B q = table_at (mem s) B q"
    "user_index x \<Longrightarrow> leaf (mem s') A x = ((leaf (mem s) A)((i, j, k) := e)) x"
    "user_index x \<Longrightarrow> leaf (mem s') B x = leaf (mem s) B x" by (erule b w(5))+
qed

lemma remap_leaf:
  fixes e :: u64
  assumes inv: "page_inv s" and snd: "sound_space s pgd" and ij: "user_path [i, j]" and k: "k < 512"
    and t: "table_at (mem s) pgd [i, j] = Some t" and e: "present e" "own_page s (leaf_target e)"
    and user: "\<forall>p. user_path p \<longrightarrow> table_at (mem s) pgd p \<noteq> Some (leaf_target e)"
  defines "s' \<equiv> s\<lparr>mem := (mem s)(entry_at t k := e)\<rparr>"
  shows "page_inv s'" "sound_space s' pgd" "keeps_pages {t} s s'"
    and "user_index x \<Longrightarrow> leaf (mem s') pgd x = ((leaf (mem s) pgd)((i, j, k) := e)) x"
    and "user_address v \<Longrightarrow> user_byte (mem s') pgd v =
           (if indices v = (i, j, k) then Some (load8 (mem s) (leaf_target e + (v AND 0xFFF))) else user_byte (mem s) pgd v)"
proof -
  have wf: "wf_space s pgd" using snd by (simp add: sound_space_def)
  note w = leaf_write [OF inv wf ij k t, where e = e, folded s'_def]
  show "page_inv s'" by (rule w(1))
  show lf: "leaf (mem s') pgd x = ((leaf (mem s) pgd)((i, j, k) := e)) x" if "user_index x" for x by (rule w(5) [OF that])
  have t_own: "own_page s t" by (rule wf_owned [OF wf ij t])
  have own: "own_page s' = own_page s" by (simp add: s'_def)
  have target: "own_page s (leaf_target (leaf (mem s') pgd x))"
    "user_path p \<Longrightarrow> table_at (mem s) pgd p \<noteq> Some (leaf_target (leaf (mem s') pgd x))"
    if "user_index x" "present (leaf (mem s') pgd x)" for x p
    using that e user sound_page [OF snd that(1)] lf [OF that(1)] by (auto split: if_splits)
  show "sound_space s' pgd" using w(2) target w(4) unfolding sound_space_def own by metis
  show k: "keeps_pages {t} s s'"
    unfolding s'_def by (rule keeps_pages_entry [OF inv t_own k])
  show "user_byte (mem s') pgd v =
      (if indices v = (i, j, k) then Some (load8 (mem s) (leaf_target e + (v AND 0xFFF))) else user_byte (mem s) pgd v)"
    if v: "user_address v"
  proof -
    note x = user_index_indices [OF v]
    let ?e = "leaf (mem s') pgd (indices v)"
    have "load8 (mem s') (leaf_target ?e + (v AND 0xFFF)) = load8 (mem s) (leaf_target ?e + (v AND 0xFFF))" if pr: "present ?e"
    proof -
      note al = own_page_props(1) [OF inv target(1) [OF x pr]]
      have "leaf_target ?e \<noteq> t" using target(2) [OF x pr ij] t by blast
      then show ?thesis
        using k target(1) [OF x pr] by (intro load8_page [OF al _ page_offset_in [OF al]]) (simp add: keeps_pages_def)
    qed
    then show ?thesis using lf [OF x] e(1) by (cases "indices v = (i, j, k)") (simp_all add: user_byte_def Let_def)
  qed
qed


subsection \<open>A new page with contents\<close>

lemma page_taken_page:
  assumes "page_inv s" "page_taken s b s1"
  shows "aligned_page (idx_to_addr s b)" "idx_to_addr s b \<noteq> NULL" "page_inv s1" "own_page s1 (idx_to_addr s b)"
proof -
  show "page_inv s1" "own_page s1 (idx_to_addr s b)" using assms page_taken_own by (auto simp: page_taken_def)
  then show "aligned_page (idx_to_addr s b)" "idx_to_addr s b \<noteq> NULL" using own_page_props(1,2) by blast+
qed

lemma fill_taken:
  assumes inv: "page_inv s" and t: "page_taken s b s1"
    and f: "\<And>a. \<not> in_page (idx_to_addr s b) a \<Longrightarrow> f (load8 (mem s1)) a = load8 (mem s1) a"
  defines "s2 \<equiv> s1\<lparr>mem := with_bytes f (mem s1)\<rparr>"
  shows "page_inv s2" "keeps_pages {} s s2" "own_page s2 (idx_to_addr s b)"
proof -
  let ?p = "idx_to_addr s b"
  note p = page_taken_page [OF inv t]
  have same: "mem s2 c = mem s1 c" if "\<not> in_page ?p c" for c
    using with_bytes_page [of ?p f "mem s1" c] p(1) f that by (simp add: s2_def)
  have inv1: "buddy_inv s1" using p(3) by (simp add: page_inv_def)
  have "buddy_inv s2"
    unfolding s2_def
  proof (rule buddy_inv_mem [OF inv1])
    fix c assume "c \<in> list_area s1 (free_frames s1)"
    then have "\<not> in_page ?p c" using own_page_props(3) [OF p(3,4)] by blast
    then show "with_bytes f (mem s1) c = mem s1 c" using same by (simp add: s2_def)
  qed
  then show "page_inv s2" using p(3) by (simp add: page_inv_def s2_def)
  show "own_page s2 ?p" using p(4) by (simp add: s2_def)
  have "mem s2 c = mem s c" if q: "own_page s q" "in_page q c" for q c
  proof -
    note k = page_taken_keeps [OF inv t q(1)]
    have "\<not> in_page ?p c"
      using in_page_unique [OF own_page_props(1) [OF inv q(1)] p(1) q(2)] k(2) by blast
    then show ?thesis using same k(3) [OF q(2)] by simp
  qed
  moreover have "own_page s2 q" if "own_page s q" for q using page_taken_keeps(1) [OF inv t that] by (simp add: s2_def)
  ultimately show "keeps_pages {} s s2" by (simp add: keeps_pages_def)
qed

text \<open>A process reads the same byte at every user address.\<close>

definition same_bytes :: "'a buddy_state_scheme \<Rightarrow> 'a buddy_state_scheme \<Rightarrow> u64 \<Rightarrow> bool" where
  "same_bytes s s' r \<longleftrightarrow> sound_space s' r \<and> (\<forall>w. user_address w \<longrightarrow> user_byte (mem s') r w = user_byte (mem s) r w)"

lemma same_bytes_trans: "same_bytes s s1 r \<Longrightarrow> same_bytes s1 s2 r \<Longrightarrow> same_bytes s s2 r"
  by (simp add: same_bytes_def)

lemma keeps_same_bytes:
  "page_inv s \<Longrightarrow> sound_space s r \<Longrightarrow> keeps_pages T s s' \<Longrightarrow> unseen s T r \<Longrightarrow> same_bytes s s' r"
  using keeps_space [of s r T s'] by (auto simp: same_bytes_def sound_space_def)

lemma same_bytes_refs: "same_bytes s (s'\<lparr>ref_count := c\<rparr>) r = same_bytes s s' r"
  by (simp add: same_bytes_def sound_space_def wf_space_def)


subsection \<open>Mapping a page\<close>

lemma leaf_entry_target:
  assumes "aligned_page p" "prot AND 0x3FF = prot"
  shows "leaf_target (leaf_entry (pa_of p) prot) = p"
proof -
  have "leaf_entry (pa_of p) prot =
      push_bit 10 (drop_bit 12 (pa_of p)) OR ((prot OR PAGE_PRESENT OR PAGE_ACCESSED OR PAGE_DIRTY) AND 0x3FF)"
    using assms(2) by (simp add: leaf_entry_def page_flags bit.conj_disj_distrib2 or.assoc)
  then show ?thesis using leaf_target_entry [OF assms(1)] by simp
qed

text \<open>An owned page that is not a table of the space is entered at the indices of \<open>v\<close>.\<close>

lemma map_leaf:
  assumes inv: "page_inv s" and snd: "sound_space s pgd" and v: "user_address v"
    and e: "present e" "own_page s (leaf_target e)" "\<forall>p. user_path p \<longrightarrow> table_at (mem s) pgd p \<noteq> Some (leaf_target e)"
    and inv': "page_inv s'" and wf': "wf_space s' pgd" and k: "others_kept pgd s s'"
    and l: "\<forall>x. user_index x \<longrightarrow> leaf (mem s') pgd x = ((leaf (mem s) pgd)(indices v := e)) x"
  shows "sound_space s' pgd"
    and "user_address w \<Longrightarrow> user_byte (mem s') pgd w =
           (if indices w = indices v then Some (load8 (mem s) (leaf_target e + (w AND 0xFFF))) else user_byte (mem s) pgd w)"
    and "sound_space s r \<Longrightarrow> apart s pgd r \<Longrightarrow> same_bytes s s' r"
proof -
  have target: "own_page s (leaf_target (leaf (mem s') pgd x))"
    "\<forall>p. user_path p \<longrightarrow> table_at (mem s) pgd p \<noteq> Some (leaf_target (leaf (mem s') pgd x))"
    if "user_index x" "present (leaf (mem s') pgd x)" for x
    using that e sound_page [OF snd that(1)] l [rule_format, OF that(1)] by (auto split: if_splits)
  have own: "own_page s q \<Longrightarrow> own_page s' q" for q by (rule own_page_keep [OF _ k])
  have old_table: "table_at (mem s) pgd p = Some q" if "user_path p" "table_at (mem s') pgd p = Some q" "own_page s q" for p q
    using k that unfolding others_kept_def by blast
  have kept: "mem s' c = mem s c" if "own_page s q" "\<forall>p. user_path p \<longrightarrow> table_at (mem s) pgd p \<noteq> Some q" "in_page q c" for q c
    using k that unfolding others_kept_def by blast
  show "sound_space s' pgd"
    unfolding sound_space_def using wf' target own old_table by metis
  show "user_byte (mem s') pgd w =
      (if indices w = indices v then Some (load8 (mem s) (leaf_target e + (w AND 0xFFF))) else user_byte (mem s) pgd w)"
    if w: "user_address w"
  proof -
    note x = user_index_indices [OF w]
    let ?e = "leaf (mem s') pgd (indices w)"
    have "load8 (mem s') (leaf_target ?e + (w AND 0xFFF)) = load8 (mem s) (leaf_target ?e + (w AND 0xFFF))" if pr: "present ?e"
    proof -
      note t = target [OF x pr]
      note al = own_page_props(1) [OF inv t(1)]
      show ?thesis using kept [OF t] by (intro load8_page [OF al _ page_offset_in [OF al]])
    qed
    then show ?thesis using l [rule_format, OF x] e(1) by (cases "indices w = indices v") (simp_all add: user_byte_def Let_def)
  qed
  show "same_bytes s s' r" if r: "sound_space s r" "apart s pgd r"
  proof (rule keeps_same_bytes [OF inv r(1)])
    let ?T = "{t. \<exists>p. user_path p \<and> table_at (mem s) pgd p = Some t}"
    show "keeps_pages ?T s s'" unfolding keeps_pages_def using own kept by blast
    show "unseen s ?T r" using r(2) unfolding apart_def unseen_def by blast
  qed
qed

end
