(* ===== verification/Syscall_Spec.thy ===== *)
theory Syscall_Spec
  imports Syscall Thread_Spec User_Memory
begin

text \<open>
  \<^verbatim>\<open>mmap\<close> as first fit: the areas of a process are a linked list, and the search of \<^verbatim>\<open>do_mmap\<close> ends
  at the lowest page at or above the hint from which the range is free.
\<close>

subsection \<open>The list of areas\<close>

fun vma_chain :: "(u64 \<Rightarrow> vm_area_struct) \<Rightarrow> u64 \<Rightarrow> u64 list \<Rightarrow> bool" where
  "vma_chain vs p [] \<longleftrightarrow> p = NULL"
| "vma_chain vs p (x # xs) \<longleftrightarrow> p = x \<and> x \<noteq> NULL \<and> vma_chain vs (vm_next (vs x)) xs"

definition area :: "vm_area_struct \<Rightarrow> nat set" where
  "area v = {unat (vm_start v) ..< unat (vm_end v)}"

definition overlaps :: "vm_area_struct \<Rightarrow> u64 \<Rightarrow> u64 \<Rightarrow> bool" where
  "overlaps v start len \<longleftrightarrow> start < vm_end v \<and> start + len > vm_start v"

lemma vma_chain_cong:
  "(\<And>x. x \<in> set xs \<Longrightarrow> vm_next (vs' x) = vm_next (vs x)) \<Longrightarrow> vma_chain vs' p xs = vma_chain vs p xs"
  by (induction xs arbitrary: p) auto

lemma find_overlap_chain:
  "vma_chain vs p xs \<Longrightarrow>
    find_overlap vs start len p = Some (case find (\<lambda>x. overlaps (vs x) start len) xs of None \<Rightarrow> NULL | Some x \<Rightarrow> x)"
proof (induction xs arbitrary: p)
  case Nil
  then show ?case by (subst find_overlap.simps) simp
next
  case (Cons x xs)
  then show ?case by (subst find_overlap.simps) (auto simp: overlaps_def)
qed

lemma vma_chain_nonnull: "vma_chain vs p xs \<Longrightarrow> x \<in> set xs \<Longrightarrow> x \<noteq> NULL"
  by (induction xs arbitrary: p) auto

subsection \<open>Rounding\<close>

lemma page_up_shift: "page_up n = push_bit 12 (drop_bit 12 (n + 4095))"
proof -
  have m: "PAGE_SIZE - 1 = (mask 12 :: u64)" by (simp add: mask_eq_exp_minus_1)
  have "b AND NOT (mask 12) = push_bit 12 (drop_bit 12 b)" for b :: u64
    by (rule bit_eqI) (auto simp: bit_simps)
  moreover have "n + PAGE_SIZE - 1 = n + 4095" by simp
  ultimately show ?thesis unfolding page_up_def by (simp only: m)
qed

lemma page_up_unat: "unat n + 4095 < 2 ^ 64 \<Longrightarrow> unat (page_up n) = (unat n + 4095) div 4096 * 4096"
proof -
  assume n: "unat n + 4095 < 2 ^ 64"
  have "unat (push_bit 12 (drop_bit 12 b)) = unat b div 4096 * 4096" for b :: u64
  proof -
    have "push_bit 12 (drop_bit 12 b) + take_bit 12 b = b" by (rule bits_ident)
    moreover have "unat (take_bit 12 b) = unat b mod 4096" by (simp only: unsigned_take_bit_eq) (simp add: take_bit_eq_mod)
    moreover have "push_bit 12 (drop_bit 12 b) = b - take_bit 12 b" using bits_ident [of 12 b] by (simp add: algebra_simps)
    ultimately have "unat (push_bit 12 (drop_bit 12 b)) = unat b - unat b mod 4096"
      by (simp add: unat_sub word_le_nat_alt)
    then show ?thesis by (simp add: minus_mod_eq_div_mult)
  qed
  then show ?thesis using n by (simp add: page_up_shift unat_add_nowrap)
qed

subsection \<open>First fit\<close>

definition areas_below :: "(u64 \<Rightarrow> vm_area_struct) \<Rightarrow> u64 list \<Rightarrow> bool" where
  "areas_below vs xs \<longleftrightarrow> (\<forall>x\<in>set xs. vm_start (vs x) < vm_end (vs x) \<and> unat (vm_end (vs x)) \<le> 2 ^ 62)"

definition range_free :: "(u64 \<Rightarrow> vm_area_struct) \<Rightarrow> u64 list \<Rightarrow> nat \<Rightarrow> nat \<Rightarrow> bool" where
  "range_free vs xs a n \<longleftrightarrow> (\<forall>x\<in>set xs. {a ..< a + n} \<inter> area (vs x) = {})"

definition first_fit :: "(u64 \<Rightarrow> vm_area_struct) \<Rightarrow> u64 list \<Rightarrow> nat \<Rightarrow> nat \<Rightarrow> nat \<Rightarrow> bool" where
  "first_fit vs xs hint n a \<longleftrightarrow> 4096 dvd a \<and> hint \<le> a \<and> range_free vs xs a n \<and>
     (\<forall>b. 4096 dvd b \<and> hint \<le> b \<and> b < a \<longrightarrow> \<not> range_free vs xs b n)"

lemma overlaps_area:
  assumes "vm_start v < vm_end v" "unat start \<le> 2 ^ 62 + 4096" "unat len \<le> 2 ^ 62" "len \<noteq> 0"
  shows "overlaps v start len \<longleftrightarrow> {unat start ..< unat start + unat len} \<inter> area v \<noteq> {}"
proof -
  have "unat (start + len) = unat start + unat len" using assms by (intro unat_add_nowrap) simp
  moreover have "unat len > 0" using assms(4) by (simp add: unat_gt_0)
  moreover have "unat (vm_start v) < unat (vm_end v)" using assms(1) by (simp add: word_less_nat_alt)
  moreover have "{a..<b} \<inter> {c..<d} \<noteq> {} \<longleftrightarrow> max a c < min b d" for a b c d :: nat
    by auto
  ultimately show ?thesis by (auto simp: overlaps_def area_def word_less_nat_alt)
qed

lemma mmap_place_fits:
  assumes c: "vma_chain vs p xs" and b: "areas_below vs xs" and len: "unat len \<le> 2 ^ 62" "len \<noteq> 0"
    and start: "4096 dvd unat start" "unat start \<le> 2 ^ 62 + 4096"
  shows "\<exists>st. mmap_place vs p len start = Some st \<and> first_fit vs xs (unat start) (unat len) (unat st) \<and>
    unat st \<le> 2 ^ 62 + 4096"
  using start
proof (induction "card {x \<in> set xs. start < vm_end (vs x)}" arbitrary: start rule: less_induct)
  case less
  note ov = overlaps_area [OF _ less.prems(2) len]
  show ?case
  proof (cases "find (\<lambda>x. overlaps (vs x) start len) xs")
    case None
    then have "range_free vs xs (unat start) (unat len)"
      using ov b by (auto simp: range_free_def areas_below_def find_None_iff)
    then show ?thesis
      using less.prems find_overlap_chain [OF c, of start len] None
      by (subst mmap_place.simps) (auto simp: first_fit_def)
  next
    case (Some x)
    then have x: "x \<in> set xs" "overlaps (vs x) start len" by (auto simp: find_Some_iff)
    let ?e = "vm_end (vs x)"
    have e: "unat ?e \<le> 2 ^ 62" "vm_start (vs x) < ?e" "start < ?e" using x b by (auto simp: areas_below_def overlaps_def)
    define start' where "start' = page_up ?e"
    have u: "unat start' = (unat ?e + 4095) div 4096 * 4096" unfolding start'_def using e by (intro page_up_unat) simp
    then have s': "unat ?e \<le> unat start'" "unat start' < unat ?e + 4096" "4096 dvd unat start'" by linarith+ (simp add: u)
    have "{y \<in> set xs. start' < vm_end (vs y)} \<subset> {y \<in> set xs. start < vm_end (vs y)}"
    proof
      show "{y \<in> set xs. start' < vm_end (vs y)} \<subseteq> {y \<in> set xs. start < vm_end (vs y)}"
        using e(3) s'(1) by (auto simp: word_less_nat_alt)
      have "x \<notin> {y \<in> set xs. start' < vm_end (vs y)}" "x \<in> {y \<in> set xs. start < vm_end (vs y)}"
        using x(1) e(3) s'(1) by (simp_all add: word_less_nat_alt not_less)
      then show "{y \<in> set xs. start' < vm_end (vs y)} \<noteq> {y \<in> set xs. start < vm_end (vs y)}" by metis
    qed
    then have "card {y \<in> set xs. start' < vm_end (vs y)} < card {y \<in> set xs. start < vm_end (vs y)}"
      by (intro psubset_card_mono) auto
    then obtain st where st: "mmap_place vs p len start' = Some st" "first_fit vs xs (unat start') (unat len) (unat st)"
      "unat st \<le> 2 ^ 62 + 4096"
      using less.hyps [of start'] s' e(1) by auto
    have "x \<noteq> NULL" using vma_chain_nonnull [OF c x(1)] .
    then have "mmap_place vs p len start = Some st"
      using find_overlap_chain [OF c, of start len] Some st(1) by (subst mmap_place.simps) (simp add: start'_def)
    moreover have "\<not> range_free vs xs a (unat len)" if a: "4096 dvd a" "unat start \<le> a" "a < unat start'" for a
    proof -
      have "a < unat ?e"
      proof (rule ccontr)
        assume "\<not> a < unat ?e"
        then have "unat ?e \<le> a" by simp
        moreover have "a + 4096 \<le> unat start'" by (rule dvd_next_le [OF a(1) s'(3) a(3)])
        ultimately show False using s'(2) by linarith
      qed
      moreover have "{unat start ..< unat start + unat len} \<inter> area (vs x) \<noteq> {}" using ov [OF e(2)] x(2) by simp
      then have "unat (vm_start (vs x)) < unat start + unat len" by (auto simp: area_def)
      moreover have "unat len > 0" using len(2) by (simp add: unat_gt_0)
      moreover have "unat (vm_start (vs x)) < unat ?e" using e(2) by (simp add: word_less_nat_alt)
      ultimately have "max a (unat (vm_start (vs x))) \<in> {a ..< a + unat len} \<inter> area (vs x)"
        using a(2) by (auto simp: area_def)
      then show ?thesis using x(1) unfolding range_free_def by blast
    qed
    then have "first_fit vs xs (unat start) (unat len) (unat st)"
      using st(2) s'(1) e(3) unfolding first_fit_def word_less_nat_alt
      by (meson le_trans less_imp_le_nat linorder_le_less_linear)
    ultimately show ?thesis using st(3) by blast
  qed
qed


subsection \<open>The areas of a process\<close>

definition areas_ok :: "'a thread_sys_scheme \<Rightarrow> u64 \<Rightarrow> u64 list \<Rightarrow> bool" where
  "areas_ok s t xs \<longleftrightarrow> vma_chain (vmas s) (t_vma_list (tasks s t)) xs \<and> distinct xs \<and> (\<forall>x\<in>set xs. owns_object s x) \<and>
     (\<forall>x\<in>set xs. \<forall>y\<in>set xs. x \<noteq> y \<longrightarrow> area (vmas s x) \<inter> area (vmas s y) = {})"

lemma thread_fields:
  assumes "kmalloc_state.more s' = kmalloc_state.more s"
  shows "vmas s' = vmas s" "tasks s' = tasks s" "tp s' = tp s" "run_queue s' = run_queue s"
  using assms by (cases s; cases s'; simp)+

lemma owns_object_thread [simp]:
  "owns_object (s\<lparr>vmas := v\<rparr>) = owns_object s" "owns_object (upd_task t f s) = owns_object s"
  "kmalloc_inv (s\<lparr>vmas := v\<rparr>) = kmalloc_inv s" "kmalloc_inv (upd_task t f s) = kmalloc_inv s"
  by (rule kmalloc_view, cases s, simp add: kmalloc_state.truncate_def upd_task_def)+


lemmas mmap_kmalloc_fields = thread_fields [OF kmalloc_more]

text \<open>A new area at a free place is put in front of the list.\<close>

lemma areas_ok_push:
  assumes inv: "kmalloc_inv s" and ok: "areas_ok s t xs" and p: "fst (kmalloc n s) = p" "p \<noteq> NULL"
    and v: "vm_next v = t_vma_list (tasks s t)" and free: "\<forall>x\<in>set xs. area v \<inter> area (vmas s x) = {}"
    and s1: "snd (kmalloc n s) = s1"
  defines "s' \<equiv> upd_task t (\<lambda>x. x\<lparr>t_vma_list := p\<rparr>) (s1\<lparr>vmas := (vmas s1)(p := v)\<rparr>)"
  shows "areas_ok s' t (p # xs)" "kmalloc_inv s'" "vmas s' p = v" "\<forall>x\<in>set xs. vmas s' x = vmas s x" "p \<notin> set xs"
    "\<forall>u. u \<noteq> t \<longrightarrow> tasks s' u = tasks s u"
proof -
  note f = mmap_kmalloc_fields [of n s, unfolded s1]
  have own: "owns_object s1 p" "\<not> owns_object s p" "\<forall>x. owns_object s x \<longrightarrow> owns_object s1 x"
    using kheap.alloc_owns [OF inv, of n] kheap.alloc_fresh [OF inv, of n] kheap.alloc_keeps [OF inv] p s1 by auto
  have chain: "vma_chain (vmas s) (t_vma_list (tasks s t)) xs" "distinct xs" "\<forall>x\<in>set xs. owns_object s x"
    "\<forall>x\<in>set xs. \<forall>y\<in>set xs. x \<noteq> y \<longrightarrow> area (vmas s x) \<inter> area (vmas s y) = {}"
    using ok by (auto simp: areas_ok_def)
  show fresh: "p \<notin> set xs" using own(2) chain(3) by blast
  show "vmas s' p = v" by (simp add: s'_def upd_task_def)
  show "\<forall>x\<in>set xs. vmas s' x = vmas s x" using fresh by (auto simp: s'_def upd_task_def f)
  show "kmalloc_inv s'" unfolding s'_def using kheap.alloc_inv [OF inv, of n] s1 by simp
  show "\<forall>u. u \<noteq> t \<longrightarrow> tasks s' u = tasks s u" by (simp add: s'_def upd_task_def f)
  have vm: "vmas s' = (vmas s)(p := v)" and hd: "t_vma_list (tasks s' t) = p" by (simp_all add: s'_def upd_task_def f)
  have "vma_chain (vmas s') (vm_next v) xs"
    using chain(1) fresh unfolding v by (subst vma_chain_cong [where vs = "vmas s"]) (auto simp: vm)
  moreover have "owns_object s' = owns_object s1" by (simp add: s'_def)
  ultimately show "areas_ok s' t (p # xs)"
    unfolding areas_ok_def hd using p(2) fresh chain(2-4) own free by (auto simp: vm)
qed

subsection \<open>Properties\<close>



lemma boot_sys_inv: "kmalloc_inv boot_sys"
proof -
  have "kmalloc_state.truncate boot_sys = boot_heap" by (simp add: boot_sys_def kmalloc_state.truncate_def kmalloc_state.extend_def)
  then show ?thesis using kmalloc_truncate_inv [of boot_sys] boot_heap_ok(1) by (auto simp: kmalloc_inv_def)
qed


text \<open>The hint is not compared with the end of the user half: an aligned kernel address above every
  area of the process is accepted as it is.\<close>

theorem mmap_accepts_kernel_address:
  assumes "vma_chain vs p xs" "\<forall>x\<in>set xs. vm_end (vs x) \<le> addr" "addr AND 0xFFF = 0" "PAGE_OFFSET \<le> addr"
  shows "mmap_place vs p len (mmap_hint addr) = Some addr"
proof -
  have "(0x1000000000 :: u64) \<le> addr" by (rule order_trans [OF _ assms(4)]) simp
  then have "\<not> addr < 0x1000000000" "addr \<noteq> 0" by auto
  then have h: "mmap_hint addr = addr" using assms(3) by (simp add: mmap_hint_def)
  have "find (\<lambda>x. overlaps (vs x) addr len) xs = None" using assms(2) by (auto simp: find_None_iff overlaps_def)
  then show ?thesis unfolding h using find_overlap_chain [OF assms(1), of addr len] by (subst mmap_place.simps) simp
qed

end
