(* ===== verification/Trap.thy ===== *)
theory Trap
  imports Syscall
begin

text \<open>
  Traps, \<^verbatim>\<open>kernel/src/trap.c\<close>: interrupts, system calls, and page faults, which are resolved by
  copying a shared page on a write, by mapping a page on demand, or by ending the process.
\<close>

definition SCAUSE_INTR_BIT :: u64 where "SCAUSE_INTR_BIT = push_bit 63 1"
definition INTR_S_TIMER :: u64 where "INTR_S_TIMER = 5"
definition INTR_S_EXT :: u64 where "INTR_S_EXT = 9"
definition EXC_ECALL_U :: u64 where "EXC_ECALL_U = 8"
definition EXC_INST_PAGE_FAULT :: u64 where "EXC_INST_PAGE_FAULT = 12"
definition EXC_LOAD_PAGE_FAULT :: u64 where "EXC_LOAD_PAGE_FAULT = 13"
definition EXC_STORE_PAGE_FAULT :: u64 where "EXC_STORE_PAGE_FAULT = 15"

lemmas exc_numbers = EXC_ECALL_U_def EXC_INST_PAGE_FAULT_def EXC_LOAD_PAGE_FAULT_def EXC_STORE_PAGE_FAULT_def

definition UART0_IRQ :: "bool \<Rightarrow> int" where "UART0_IRQ qemu = (if qemu then 10 else 42)"

text \<open>What the interrupt branch uses besides the system calls: callbacks by address, the interrupt
  controller's claim register, and the driver's interrupt routine.\<close>

record 's trap_env = "'s sys_env" +
  ev_call :: "u64 \<Rightarrow> u64 \<Rightarrow> 's \<Rightarrow> 's"
  ev_plic_claim :: "'s \<Rightarrow> int \<times> 's"
  ev_plic_complete :: "int \<Rightarrow> 's \<Rightarrow> 's"
  ev_uart_interrupt :: "'s \<Rightarrow> 's"

subsection \<open>Page faults\<close>

partial_function (option) find_vma :: "(u64 \<Rightarrow> vm_area_struct) \<Rightarrow> u64 \<Rightarrow> u64 \<Rightarrow> u64 option" where
  "find_vma vs addr vma =
     (if vma \<noteq> NULL
      then if addr \<ge> vm_start (vs vma) \<and> addr < vm_end (vs vma) then Some vma
           else find_vma vs addr (vm_next (vs vma))
      else Some NULL)"

definition page_down :: "u64 \<Rightarrow> u64" where "page_down a = a AND NOT (PAGE_SIZE - 1)"

text \<open>A write to a shared page; \<open>False\<close> when memory is short and the process has to end.\<close>

definition cow_copy :: "u64 \<Rightarrow> 'a buddy_state_scheme \<Rightarrow> bool \<times> 'a buddy_state_scheme" where
  "cow_copy pte_ptr s =
     (let old_page_va = va (entry_page (mem s pte_ptr));
          (new_page, s1) = alloc_page s
      in if new_page = NULL then (False, s1)
         else let s2 = s1\<lparr>mem := with_bytes (memcpy new_page old_page_va 4096) (mem s1)\<rparr>;
                  flags = (mem s2 pte_ptr AND 0x3FF) OR PAGE_WRITE;
                  s3 = s2\<lparr>mem := (mem s2)(pte_ptr := push_bit 10 (drop_bit 12 (pa_of new_page)) OR flags)\<rparr>
              in (True, buddy_free old_page_va s3))"

definition cow_fault :: "u64 \<Rightarrow> 'a buddy_state_scheme \<Rightarrow> bool \<times> 'a buddy_state_scheme" where
  "cow_fault pte_ptr s =
     (let (count, s1) = get_page_ref_count (va (entry_page (mem s pte_ptr))) s
      in if count > 1 then cow_copy pte_ptr s1
         else (True, s1\<lparr>mem := (mem s1)(pte_ptr := mem s1 pte_ptr OR PAGE_WRITE)\<rparr>))"

definition is_cow :: "u64 \<Rightarrow> u64 \<Rightarrow> u32 \<Rightarrow> bool" where
  "is_cow cause pte prot \<longleftrightarrow> present pte \<and> cause = EXC_STORE_PAGE_FAULT \<and> pte AND PAGE_USER \<noteq> 0 \<and>
     pte AND PAGE_WRITE = 0 \<and> prot AND PROT_WRITE \<noteq> 0"

definition fault_allowed :: "u64 \<Rightarrow> u32 \<Rightarrow> bool" where
  "fault_allowed cause prot \<longleftrightarrow>
     \<not> (cause = EXC_STORE_PAGE_FAULT \<and> prot AND PROT_WRITE = 0) \<and>
     \<not> (cause = EXC_LOAD_PAGE_FAULT \<and> prot AND PROT_READ = 0) \<and>
     \<not> (cause = EXC_INST_PAGE_FAULT \<and> prot AND PROT_EXEC = 0)"

text \<open>The bytes of the file that belong on the page, zeros after its end.\<close>

definition fill_page :: "vm_area_struct \<Rightarrow> u64 \<Rightarrow> u64 \<Rightarrow> bytes \<Rightarrow> bytes" where
  "fill_page vma fault_page_va page b =
     (if vm_file_data vma \<noteq> NULL \<and> vm_file_size vma > 0
      then let offset = fault_page_va - vm_start vma;
               rest = vm_file_size vma - offset;
               chunk = (if offset < vm_file_size vma then (if rest > PAGE_SIZE then PAGE_SIZE else rest) else 0);
               b1 = (if chunk > 0 then memcpy page (vm_file_data vma + offset) (unat chunk) b else b)
           in if chunk < PAGE_SIZE then memset (page + chunk) 0 (unat (PAGE_SIZE - chunk)) b1 else b1
      else memset page 0 4096 b)"

text \<open>Mapping a page on demand, with the same result.\<close>

definition demand_page :: "u64 \<Rightarrow> vm_area_struct \<Rightarrow> u64 \<Rightarrow> 'a buddy_state_scheme \<Rightarrow> (bool \<times> 'a buddy_state_scheme) option" where
  "demand_page pgd vma addr s =
     (let (page, s1) = alloc_page s
      in if page = NULL then Some (False, s1)
         else let s2 = s1\<lparr>mem := with_bytes (fill_page vma (page_down addr) page) (mem s1)\<rparr>
              in map_option (\<lambda>s3. (True, s3))
                   (map_pages pgd (page_down addr) PAGE_SIZE (pa_of page) (user_prot (vm_prot vma)) s2))"

text \<open>
  The last part of the handler: a process that faults outside its areas or against their
  protection is ended, anything else halts the machine.
\<close>

definition bad_access :: "u64 \<Rightarrow> 'a thread_sys_scheme \<Rightarrow> 'a thread_sys_scheme flow option" where
  "bad_access frame s =
     (if tf_sstatus (tframes s frame) AND push_bit 8 1 = 0 then map_option Switched (thread_exit s) else None)"

definition page_fault :: "u64 \<Rightarrow> 'a thread_sys_scheme \<Rightarrow> 'a thread_sys_scheme flow option" where
  "page_fault frame s =
     (let f = tframes s frame; cause = tf_scause f; t = get_current s; pgd = t_pgd (tasks s t)
      in case find_vma (vmas s) (tf_stval f) (t_vma_list (tasks s t)) of
           None \<Rightarrow> None
         | Some vma \<Rightarrow>
             if vma = NULL then bad_access frame s
             else let target = vmas s vma; pte_ptr = walk_pte pgd (page_down (tf_stval f)) s
                  in if pte_ptr \<noteq> NULL \<and> is_cow cause (mem s pte_ptr) (vm_prot target)
                     then (case cow_fault pte_ptr s of
                             (ok, s1) \<Rightarrow> if ok then Some (Returns s1) else map_option Switched (thread_exit s1))
                     else if fault_allowed cause (vm_prot target)
                     then (case demand_page pgd target (tf_stval f) s of
                             None \<Rightarrow> None
                           | Some (ok, s1) \<Rightarrow>
                               if ok then Some (Returns s1) else map_option Switched (thread_exit s1))
                     else bad_access frame s)"

subsection \<open>The handler\<close>

definition external_interrupt :: "('s, 'e) trap_env_scheme \<Rightarrow> 's \<Rightarrow> 's" where
  "external_interrupt ev s =
     (let (irq, s1) = ev_plic_claim ev s;
          s2 = (if irq = UART0_IRQ (ev_qemu ev) then ev_uart_interrupt ev s1 else s1)
      in if irq \<noteq> 0 then ev_plic_complete ev irq s2 else s2)"

definition interrupt :: "('a thread_sys_scheme, 'e) trap_env_scheme \<Rightarrow> u64 \<Rightarrow> 'a thread_sys_scheme \<Rightarrow> 'a thread_sys_scheme option" where
  "interrupt ev frame s =
     (let irq = tf_scause (tframes s frame) AND NOT SCAUSE_INTR_BIT
      in do {
        s1 \<leftarrow> (if irq = INTR_S_TIMER then core_timer_handler (ev_call ev) (reschedule (ev_resume ev)) s
               else if irq = INTR_S_EXT then Some (external_interrupt ev s)
               else Some s);
        s2 \<leftarrow> run_tasks (ev_call ev) s1;
        signal_check frame s2
      })"

definition trap_handler ::
  "('a thread_sys_scheme, 'e) trap_env_scheme \<Rightarrow> u64 \<Rightarrow> 'a thread_sys_scheme \<Rightarrow> 'a thread_sys_scheme flow option" where
  "trap_handler ev frame s =
     (let cause = tf_scause (tframes s frame)
      in if cause AND SCAUSE_INTR_BIT \<noteq> 0 then map_option Returns (interrupt ev frame s)
         else if cause = EXC_ECALL_U
         then let s1 = upd_frame frame (\<lambda>f. f\<lparr>tf_sepc := tf_sepc f + 4\<rparr>) s;
                  s2 = upd_task (get_current s1) (\<lambda>x. x\<lparr>t_tf := frame\<rparr>) s1
              in (case syscall_handler (sys_env.truncate ev) frame s2 of
                    None \<Rightarrow> None
                  | Some (Switched s3) \<Rightarrow> Some (Switched s3)
                  | Some (Returns s3) \<Rightarrow> map_option Returns (signal_check frame s3))
         else if cause = EXC_INST_PAGE_FAULT \<or> cause = EXC_LOAD_PAGE_FAULT \<or> cause = EXC_STORE_PAGE_FAULT
         then page_fault frame s
         else None)"

end
