(* ===== verification/Trap_Spec.thy ===== *)
theory Trap_Spec
  imports Trap User_Memory Thread_Spec
begin

text \<open>
  Page faults as the processes see them: copy-on-write changes no byte any process reads, and
  gives the writer a page of its own.
\<close>

subsection \<open>Copy on write\<close>

lemma write_flag: "(e OR PAGE_WRITE) AND PAGE_WRITE = PAGE_WRITE"
  by (rule bit_eqI) (auto simp: PAGE_WRITE_def bit_simps)

lemma present_or: "present e \<Longrightarrow> present (e OR PAGE_WRITE)"
proof -
  assume "present e"
  moreover have "(e OR PAGE_WRITE) AND PAGE_PRESENT = e AND PAGE_PRESENT"
    by (rule bit_eqI) (auto simp: PAGE_WRITE_def PAGE_PRESENT_def bit_simps)
  ultimately show ?thesis by (simp add: present_def)
qed

lemma target_or: "leaf_target (e OR PAGE_WRITE) = leaf_target e"
proof -
  have "entry_page (e OR PAGE_WRITE) = entry_page e"
    unfolding entry_page_def PAGE_WRITE_def by (rule bit_eqI) (auto simp: bit_simps)
  then show ?thesis by (simp add: leaf_target_def)
qed

text \<open>The entry \<^verbatim>\<open>trap.c\<close> builds for the copy: the new page with the old flags and the write flag.\<close>

lemma cow_entry:
  assumes "aligned_page p" "present e"
  defines "e' \<equiv> push_bit 10 (drop_bit 12 (pa_of p)) OR ((e AND 0x3FF) OR PAGE_WRITE)"
  shows "leaf_target e' = p" "present e'" "e' AND PAGE_WRITE = PAGE_WRITE" "e' AND PAGE_USER = e AND PAGE_USER"
proof -
  have f: "(e AND 0x3FF) OR PAGE_WRITE = (e OR PAGE_WRITE) AND 0x3FF"
  proof -
    have "PAGE_WRITE AND 0x3FF = PAGE_WRITE" by (simp add: PAGE_WRITE_def)
    then show ?thesis by (simp only: bit.conj_disj_distrib2)
  qed
  show "leaf_target e' = p" unfolding e'_def f by (rule leaf_target_entry [OF assms(1)])
  have low: "(push_bit 10 q OR f) AND g = f AND g" if "g AND mask 10 = g" for q f g :: u64
  proof (rule bit_eqI)
    fix n
    have "bit g n \<Longrightarrow> n < 10" using that by (metis bit_and_iff bit_mask_iff)
    then show "bit ((push_bit 10 q OR f) AND g) n = bit (f AND g) n" by (auto simp: bit_simps)
  qed
  have "PAGE_PRESENT AND mask 10 = PAGE_PRESENT" "PAGE_USER AND mask 10 = PAGE_USER" "PAGE_WRITE AND mask 10 = PAGE_WRITE"
    by (simp_all add: page_flags mask_eq_exp_minus_1)
  note low = low [OF this(1)] low [OF this(2)] low [OF this(3)]
  have small: "((e AND 0x3FF) OR PAGE_WRITE) AND PAGE_PRESENT = e AND PAGE_PRESENT"
    "((e AND 0x3FF) OR PAGE_WRITE) AND PAGE_USER = e AND PAGE_USER"
    "((e AND 0x3FF) OR PAGE_WRITE) AND PAGE_WRITE = PAGE_WRITE"
    by (simp_all add: page_flags bit.conj_disj_distrib2 and.assoc)
  have "e' AND PAGE_PRESENT = e AND PAGE_PRESENT" "e' AND PAGE_USER = e AND PAGE_USER" "e' AND PAGE_WRITE = PAGE_WRITE"
    unfolding e'_def low small by (rule refl)+
  then show "present e'" "e' AND PAGE_USER = e AND PAGE_USER" "e' AND PAGE_WRITE = PAGE_WRITE"
    using assms(2) by (simp_all add: present_def)
qed


text \<open>The leaf entry and the table it is in.\<close>

lemma present_walk:
  assumes inv: "page_inv s" and snd: "sound_space s pgd" and v: "user_address v" and e: "present (leaf (mem s) pgd (indices v))"
  obtains t where "table_at (mem s) pgd [vpn2 v, vpn1 v] = Some t" "walk_pte pgd v s = entry_at t (vpn0 v)"
    "mem s (entry_at t (vpn0 v)) = leaf (mem s) pgd (indices v)" "own_page s t" "user_path [vpn2 v, vpn1 v]"
proof -
  have wf: "wf_space s pgd" using snd by (simp add: sound_space_def)
  note w = walk_pte_leaf [OF inv wf v]
  have "walk_pte pgd v s \<noteq> NULL" using w(1) e by auto
  then show thesis
    using w that v vpn_bounds by (auto simp: user_path_def user_address_def simp del: table_at.simps)
qed

lemma cow_exclusive:
  fixes s :: "'a buddy_state_scheme"
  assumes inv: "page_inv s" and snd: "sound_space s pgd" and v: "user_address v"
    and e: "present (leaf (mem s) pgd (indices v))"
  defines "s' \<equiv> s\<lparr>mem := (mem s)(walk_pte pgd v s := leaf (mem s) pgd (indices v) OR PAGE_WRITE)\<rparr>"
  shows "page_inv s'" "same_bytes s s' pgd" "sound_space s r \<Longrightarrow> apart s pgd r \<Longrightarrow> same_bytes s s' r"
    and "leaf (mem s') pgd (indices v) = leaf (mem s) pgd (indices v) OR PAGE_WRITE"
proof -
  note x = user_index_indices [OF v]
  obtain t where t: "table_at (mem s) pgd [vpn2 v, vpn1 v] = Some t" "walk_pte pgd v s = entry_at t (vpn0 v)"
    "user_path [vpn2 v, vpn1 v]" using present_walk [OF inv snd v e] by metis
  let ?e = "leaf (mem s) pgd (indices v) OR PAGE_WRITE"
  have e': "present ?e" "own_page s (leaf_target ?e)" "\<forall>p. user_path p \<longrightarrow> table_at (mem s) pgd p \<noteq> Some (leaf_target ?e)"
    using sound_page [OF snd x e] present_or [OF e] unfolding target_or by blast+
  have s': "s' = s\<lparr>mem := (mem s)(entry_at t (vpn0 v) := ?e)\<rparr>" by (simp add: s'_def t(2))
  note r = remap_leaf [OF inv snd t(3) vpn_bounds(3) [of v] t(1) e', folded s', unfolded target_or]
  show "page_inv s'" by (rule r(1))
  show "leaf (mem s') pgd (indices v) = leaf (mem s) pgd (indices v) OR PAGE_WRITE"
    using r(4) [OF x] by (simp add: indices_def)
  show "same_bytes s s' pgd"
    using r(2,5) e by (auto simp: same_bytes_def user_byte_def Let_def indices_def)
  show "same_bytes s s' r" if "sound_space s r" "apart s pgd r"
    using keeps_same_bytes [OF inv that(1) r(3)] unseen_apart [OF that(2) t(3,1)] by blast
qed


lemma cow_shared:
  fixes s :: "'a buddy_state_scheme"
  assumes inv: "page_inv s" and snd: "sound_space s pgd" and v: "user_address v"
    and e: "present (leaf (mem s) pgd (indices v))" and room: "free_frames s \<noteq> {}"
    and b: "leaf_target (leaf (mem s) pgd (indices v)) = idx_to_addr s b" "owned s b 0" "1 < ref_count s b"
  shows "\<exists>n s'. cow_copy (walk_pte pgd v s) s = (True, s') \<and> page_inv s' \<and> same_bytes s s' pgd \<and>
    (\<forall>r. sound_space s r \<and> apart s pgd r \<longrightarrow> same_bytes s s' r) \<and>
    leaf_target (leaf (mem s') pgd (indices v)) = idx_to_addr s n \<and> n \<in> free_frames s \<and>
    leaf (mem s') pgd (indices v) AND PAGE_WRITE = PAGE_WRITE \<and>
    free_frames s' = free_frames s - {n} \<and> ref_count s' = (ref_count s)(n := 1, b := ref_count s b - 1)"
proof -
  let ?e = "leaf (mem s) pgd (indices v)" and ?old = "idx_to_addr s b"
  note x = user_index_indices [OF v]
  obtain t where t: "table_at (mem s) pgd [vpn2 v, vpn1 v] = Some t" "walk_pte pgd v s = entry_at t (vpn0 v)"
    "mem s (entry_at t (vpn0 v)) = ?e" "own_page s t" "user_path [vpn2 v, vpn1 v]"
    by (rule present_walk [OF inv snd v e])
  obtain n where n: "fst (alloc_page s) = idx_to_addr s n" "page_taken s n (snd (alloc_page s))"
    using alloc_page_cases [OF inv] room by auto
  define s1 where "s1 = snd (alloc_page s)"
  have taken: "page_taken s n s1" using n(2) by (simp add: s1_def)
  define new where "new = idx_to_addr s n"
  note new = page_taken_page [OF inv taken, folded new_def]
  have old: "own_page s ?old" "aligned_page ?old"
    using b own_page_props(1) [OF inv] by (auto simp: own_page_def)
  have fresh: "q \<noteq> new" if "own_page s q" for q using page_taken_keeps(2) [OF inv taken that] by (simp add: new_def)
  note copy = memcpy_page [OF new(1) old(2) fresh [OF old(1), symmetric]]
  define s2 where "s2 = s1\<lparr>mem := with_bytes (memcpy new ?old 4096) (mem s1)\<rparr>"
  note f = fill_taken [OF inv taken, where f = "memcpy new ?old 4096", folded new_def s2_def, unfolded copy]
  have inv2: "page_inv s2" and keep2: "keeps_pages {} s s2" and own2: "own_page s2 new" using f by simp_all
  have same2: "same_bytes s s2 r" if "sound_space s r" for r
    using keeps_same_bytes [OF inv that keep2] by simp
  have wf: "wf_space s pgd" using snd by (simp add: sound_space_def)
  note k2 = keeps_space(1,2) [OF inv wf keep2 unseen_empty]
  have snd2: "sound_space s2 pgd" using same2 [OF snd] by (simp add: same_bytes_def)
  have e2: "mem s2 (entry_at t (vpn0 v)) = ?e"
    using keep2 t(3,4) entry_in_page [OF own_page_props(1) [OF inv t(4)] vpn_bounds(3)] by (simp add: keeps_pages_def)
  define e' where "e' = push_bit 10 (drop_bit 12 (pa_of new)) OR ((?e AND 0x3FF) OR PAGE_WRITE)"
  note ce = cow_entry [OF new(1) e, folded e'_def]
  define s3 where "s3 = s2\<lparr>mem := (mem s2)(entry_at t (vpn0 v) := e')\<rparr>"
  have t2: "table_at (mem s2) pgd [vpn2 v, vpn1 v] = Some t" using k2(1) [OF t(5)] t(1) by simp
  have notab: "\<forall>p. user_path p \<longrightarrow> table_at (mem s2) pgd p \<noteq> Some (leaf_target e')"
    using k2(1) wf_owned [OF wf] fresh unfolding ce(1) by metis
  note r = remap_leaf [OF inv2 snd2 t(5) vpn_bounds(3) [of v] t2 ce(2), unfolded ce(1), OF own2 notab [unfolded ce(1)], folded s3_def]
  define s4 where "s4 = s3\<lparr>ref_count := (ref_count s3)(b := ref_count s3 b - 1)\<rparr>"
  have "owned s2 b 0" and map: "address_map s3 = address_map s" and refs: "ref_count s3 = (ref_count s)(n := 1)"
    and free: "free_frames s3 = free_frames s - {n}"
    using taken b(2) by (auto simp: page_taken_def s2_def s3_def owned_def)
  then have own3: "owned s3 b 0" by (simp add: s3_def owned_def)
  have nb: "n \<noteq> b" using fresh [OF old(1)] by (auto simp: new_def)
  have addr: "idx_to_addr s3 = idx_to_addr s" by (rule address_map_eqD(1) [OF map])
  have "buddy_free ?old s3 = s4"
    using buddy_free_shared [of s3 b 0 b] own3 b(3) r(1) refs nb by (simp add: page_inv_def s4_def addr)
  then have freed: "buddy_free ?old (s2\<lparr>mem := (mem s2)(entry_at t (vpn0 v) := e')\<rparr>) = s4" by (simp add: s3_def)
  have "fst (alloc_page s) \<noteq> NULL" "fst (alloc_page s) = new" "va (entry_page ?e) = ?old"
    using n(1) new(2) b(1) by (simp_all add: new_def leaf_target_def)
  then have "cow_copy (entry_at t (vpn0 v)) s = (True, buddy_free ?old (s2\<lparr>mem := (mem s2)(entry_at t (vpn0 v) :=
      push_bit 10 (drop_bit 12 (pa_of new)) OR ((mem s2 (entry_at t (vpn0 v)) AND 0x3FF) OR PAGE_WRITE))\<rparr>))"
    by (simp add: cow_copy_def split_def Let_def t(3) s1_def [symmetric] s2_def)
  then have eq: "cow_copy (walk_pte pgd v s) s = (True, s4)"
    unfolding e2 e'_def [symmetric] freed t(2) .
  have inv4: "page_inv s4"
    using r(1) b(3) refs nb buddy_inv_refs [of s3] by (auto simp: page_inv_def s4_def)
  have bytes2: "load8 (mem s2) (new + w) = load8 (mem s1) (?old + w)" if "in_page new (new + w)" for w
    using that by (simp add: s2_def copy)
  have bytes1: "load8 (mem s1) (?old + (w AND 0xFFF)) = load8 (mem s) (?old + (w AND 0xFFF))" for w
    using page_taken_keeps(3) [OF inv taken old(1)] by (intro load8_page [OF old(2) _ page_offset_in [OF old(2)]])
  have "same_bytes s2 s3 pgd"
    unfolding same_bytes_def
  proof (intro conjI allI impI)
    fix w assume w: "user_address w"
    show "user_byte (mem s3) pgd w = user_byte (mem s2) pgd w"
    proof (cases "indices w = indices v")
      case True
      then have "user_byte (mem s) pgd w = Some (load8 (mem s) (?old + (w AND 0xFFF)))"
        using e b(1) by (simp add: user_byte_def Let_def)
      moreover have "user_byte (mem s3) pgd w = Some (load8 (mem s2) (new + (w AND 0xFFF)))"
        using r(5) [OF w] True by (simp add: indices_def)
      moreover have "user_byte (mem s2) pgd w = user_byte (mem s) pgd w"
        using same2 [OF snd] w by (simp add: same_bytes_def)
      ultimately show ?thesis using bytes2 [OF page_offset_in [OF new(1)]] bytes1 by simp
    qed (use r(5) [OF w] in \<open>auto simp: indices_def\<close>)
  qed (rule r(2))
  then have mine: "same_bytes s s4 pgd"
    using same_bytes_trans [OF same2 [OF snd]] by (simp add: s4_def same_bytes_refs)
  have others: "same_bytes s s4 q" if q: "sound_space s q" "apart s pgd q" for q
  proof -
    have wfq: "wf_space s q" and sq: "sound_space s2 q" using q same2 by (simp_all add: sound_space_def same_bytes_def)
    have "unseen s2 {t} q"
      using unseen_apart [OF q(2) t(5,1)] keeps_space(1,2) [OF inv wfq keep2 unseen_empty] unfolding unseen_def by metis
    then have "same_bytes s2 s3 q" by (rule keeps_same_bytes [OF inv2 sq r(3)])
    then show ?thesis using same_bytes_trans [OF same2 [OF q(1)]] by (simp add: s4_def same_bytes_refs)
  qed
  have "leaf (mem s4) pgd (indices v) = e'" using r(4) [OF x] by (simp add: s4_def indices_def)
  moreover have "n \<in> free_frames s" using taken by (simp add: page_taken_def)
  moreover have "ref_count s4 = (ref_count s)(n := 1, b := ref_count s b - 1)" "free_frames s4 = free_frames s - {n}"
    using refs nb free by (simp_all add: s4_def free_frames_def)
  ultimately show ?thesis
    using eq inv4 mine others ce by (intro exI [of _ n] exI [of _ s4]) (simp add: new_def)
qed


lemma cow_fault_cases:
  fixes s :: "'a buddy_state_scheme"
  assumes inv: "page_inv s" and snd: "sound_space s pgd" and v: "user_address v"
    and e: "present (leaf (mem s) pgd (indices v))"
    and b: "leaf_target (leaf (mem s) pgd (indices v)) = idx_to_addr s b" "owned s b 0"
  shows "cow_fault (walk_pte pgd v s) s =
    (if 1 < ref_count s b then cow_copy (walk_pte pgd v s) s
     else (True, s\<lparr>mem := (mem s)(walk_pte pgd v s := leaf (mem s) pgd (indices v) OR PAGE_WRITE)\<rparr>))"
proof -
  obtain t where t: "walk_pte pgd v s = entry_at t (vpn0 v)" "mem s (entry_at t (vpn0 v)) = leaf (mem s) pgd (indices v)"
    using present_walk [OF inv snd v e] by metis
  have "get_page_ref_count (idx_to_addr s b) s = (ref_count s b, s)"
    using get_page_ref_count_owned [of s b 0 b] inv b(2) by (simp add: page_inv_def)
  then show ?thesis using b(1) by (simp add: cow_fault_def t leaf_target_def)
qed

lemma cow_no_room: "page_inv s \<Longrightarrow> free_frames s = {} \<Longrightarrow> cow_copy p s = (False, s)"
  using alloc_page_cases [of s] by (simp add: cow_copy_def)

subsection \<open>Demand paging\<close>

text \<open>The byte of the file, or zero, at an address of the area.\<close>

definition area_byte :: "bytes \<Rightarrow> vm_area_struct \<Rightarrow> u64 \<Rightarrow> u8" where
  "area_byte b vma w =
     (let off = w - vm_start vma
      in if vm_file_data vma \<noteq> NULL \<and> off < vm_file_size vma then b (vm_file_data vma + off) else 0)"

lemma memset_apply: "n \<le> 2 ^ 63 \<Longrightarrow> memset p 0 n b a = (if unat (a - p) < n then 0 else b a)"
  by (simp add: memset_def memset_loop_apply)

lemma source_apart:
  fixes data off sz :: u64
  assumes p: "aligned_page page" and src: "\<And>i. i < unat sz \<Longrightarrow> \<not> in_page page (data + of_nat i)"
    and i: "i < 4096" and j: "j < unat (if off < sz then (if sz - off > PAGE_SIZE then PAGE_SIZE else sz - off) else 0)"
  shows "page + of_nat i \<noteq> data + off + of_nat j"
proof
  assume e: "page + of_nat i = data + off + of_nat j"
  have "off < sz" using j by (auto split: if_splits)
  then have "unat off + j < unat sz"
    using j by (auto simp: unat_sub word_less_nat_alt word_le_nat_alt split: if_splits)
  from src [OF this] have "\<not> in_page page (page + of_nat i)" by (simp add: e add.assoc)
  then show False using i in_page_offset [OF p, of i] by (simp add: in_page_def)
qed

lemma fill_page_outside:
  assumes p: "aligned_page page" and a: "\<not> in_page page a"
    and src: "\<And>i. i < unat (vm_file_size vma) \<Longrightarrow> \<not> in_page page (vm_file_data vma + of_nat i)"
  shows "fill_page vma fp page b a = b a"
proof -
  have d: "4096 \<le> unat (a - page)" using a in_page_diff [OF p, of a] by (metis not_less)
  let ?rest = "vm_file_size vma - (fp - vm_start vma)"
  define chunk where "chunk = (if fp - vm_start vma < vm_file_size vma then (if ?rest > PAGE_SIZE then PAGE_SIZE else ?rest) else 0)"
  have c: "unat chunk \<le> 4096" by (auto simp: chunk_def word_le_nat_alt not_less)
  have "memcpy page (vm_file_data vma + (fp - vm_start vma)) (unat chunk) b a = b a"
  proof (subst memcpy_apply)
    show "page + of_nat i \<noteq> vm_file_data vma + (fp - vm_start vma) + of_nat j" if "i < unat chunk" "j < unat chunk" for i j
      using that c by (intro source_apart [OF p src]) (simp_all add: chunk_def)
  qed (use c d in auto)
  moreover have "memset (page + chunk) 0 (unat (PAGE_SIZE - chunk)) b' a = b' a" for b'
  proof -
    have "unat (a - (page + chunk)) = unat (a - page) - unat chunk"
      using c d by (subst diff_diff_eq [symmetric]) (simp add: unat_sub word_le_nat_alt)
    moreover have "unat (PAGE_SIZE - chunk) = 4096 - unat chunk" using c by (simp add: unat_sub word_le_nat_alt)
    ultimately have "\<not> unat (a - (page + chunk)) < unat (PAGE_SIZE - chunk)" using d by linarith
    then show ?thesis using c by (simp add: memset_apply unat_sub word_le_nat_alt)
  qed
  moreover have "memset page 0 4096 b a = b a" using d by (simp add: memset_apply)
  ultimately show ?thesis by (auto simp: fill_page_def Let_def chunk_def [symmetric])
qed

lemma fill_page_inside:
  assumes p: "aligned_page page" and d: "unat d < 4096" and w: "w = fp + d" "unat (w - vm_start vma) = unat (fp - vm_start vma) + unat d"
    and src: "\<And>i. i < unat (vm_file_size vma) \<Longrightarrow> \<not> in_page page (vm_file_data vma + of_nat i)"
  shows "fill_page vma fp page b (page + d) = area_byte b vma w"
proof -
  let ?off = "fp - vm_start vma"
  let ?rest = "vm_file_size vma - ?off"
  define chunk where "chunk = (if ?off < vm_file_size vma then (if ?rest > PAGE_SIZE then PAGE_SIZE else ?rest) else 0)"
  have c: "unat chunk \<le> 4096" by (auto simp: chunk_def word_le_nat_alt not_less)
  have below: "unat d < unat chunk \<longleftrightarrow> w - vm_start vma < vm_file_size vma"
    using d by (auto simp: chunk_def word_less_nat_alt word_le_nat_alt unat_sub w(2) not_less)
  have cp: "memcpy page (vm_file_data vma + ?off) (unat chunk) b (page + d) =
      (if unat d < unat chunk then b (vm_file_data vma + (w - vm_start vma)) else b (page + d))"
  proof (subst memcpy_apply)
    show "page + of_nat i \<noteq> vm_file_data vma + ?off + of_nat j" if "i < unat chunk" "j < unat chunk" for i j
      using that c by (intro source_apart [OF p src]) (simp_all add: chunk_def)
  qed (use c in \<open>auto simp: w(1) algebra_simps\<close>)
  have rest: "memset (page + chunk) 0 (unat (PAGE_SIZE - chunk)) b' (page + d) = (if unat d < unat chunk then b' (page + d) else 0)" for b'
  proof -
    have len: "unat (PAGE_SIZE - chunk) = 4096 - unat chunk" using c by (simp add: unat_sub word_le_nat_alt)
    have "unat (page + d - (page + chunk)) < 4096 - unat chunk \<longleftrightarrow> \<not> unat d < unat chunk"
    proof (cases "unat d < unat chunk")
      case True
      have "unat (d - chunk) = 2 ^ 64 + unat d - unat chunk"
        using True unat_u64_bound [of chunk] by (simp add: unat_sub_if_size word_size)
      then show ?thesis using True c by simp
    next
      case False
      then have "unat (d - chunk) = unat d - unat chunk" by (simp add: unat_sub word_le_nat_alt)
      then show ?thesis using False c d by simp
    qed
    then show ?thesis using c by (simp add: memset_apply len)
  qed
  have "unat d < unat chunk \<Longrightarrow> \<not> (vm_file_data vma \<noteq> NULL \<and> vm_file_size vma > 0) \<Longrightarrow> vm_file_data vma = NULL"
    by (auto simp: chunk_def word_less_nat_alt split: if_splits)
  moreover have "memset page 0 4096 b (page + d) = 0" using d by (simp add: memset_apply)
  moreover have "chunk > 0 \<longleftrightarrow> unat chunk \<noteq> 0" by (auto simp: word_less_nat_alt)
  moreover have "chunk < PAGE_SIZE \<longleftrightarrow> unat chunk < 4096" by (simp add: word_less_nat_alt)
  ultimately show ?thesis
    using below cp rest d
    by (auto simp: fill_page_def area_byte_def Let_def chunk_def [symmetric])
qed

text \<open>Bytes outside the free memory of the allocator.\<close>

definition stable_byte :: "'a buddy_state_scheme \<Rightarrow> u64 \<Rightarrow> bool" where
  "stable_byte s a \<longleftrightarrow> a AND NOT 7 \<notin> list_area s (free_frames s) \<and>
     (\<forall>b\<in>free_frames s. \<not> in_page (idx_to_addr s b) a)"

lemma stable_taken:
  assumes inv: "page_inv s" and t: "page_taken s b s1" and a: "stable_byte s a"
  shows "load8 (mem s1) a = load8 (mem s) a" "\<not> in_page (idx_to_addr s b) a"
proof -
  note p = page_taken_page [OF inv t]
  have b: "b \<in> free_frames s" using t by (simp add: page_taken_def)
  then show n: "\<not> in_page (idx_to_addr s b) a" using a by (simp add: stable_byte_def)
  then have "\<not> in_page (idx_to_addr s b) (a AND NOT 7)" using in_page_cell [OF p(1)] by blast
  then show "load8 (mem s1) a = load8 (mem s) a"
    using t a unfolding page_taken_def stable_byte_def by (intro load8_cong) blast
qed

lemma page_down_shift: "page_down a = push_bit 12 (drop_bit 12 a)"
proof -
  have "PAGE_SIZE - 1 = (mask 12 :: u64)" by (simp add: mask_eq_exp_minus_1)
  moreover have "a AND NOT (mask 12) = push_bit 12 (drop_bit 12 a)"
    by (rule bit_eqI) (auto simp: bit_simps)
  ultimately show ?thesis by (simp only: page_down_def)
qed

lemma page_down_index: "indices (page_down a) = indices a" "page_down a + (a AND 0xFFF) = a" "aligned_page (page_down a)"
proof -
  have d: "drop_bit n (push_bit 12 (drop_bit 12 a)) = drop_bit n a" if "12 \<le> n" for n
    using that by (intro bit_eqI) (auto simp: bit_simps dest: bit_imp_le_length)
  have "drop_bit 30 (page_down a) = drop_bit 30 a" "drop_bit 21 (page_down a) = drop_bit 21 a"
    "drop_bit 12 (page_down a) = drop_bit 12 a" unfolding page_down_shift by (rule d, simp)+
  then show "indices (page_down a) = indices a" by (simp only: indices_def vpn2_def vpn1_def vpn0_def)
  have "a AND 0xFFF = take_bit 12 a" by (simp add: take_bit_eq_mask mask_eq_exp_minus_1)
  then show "page_down a + (a AND 0xFFF) = a" unfolding page_down_shift by (simp only: bits_ident)
  have "take_bit 12 (page_down a) = 0" unfolding page_down_shift by (rule bit_eqI) (auto simp: bit_simps)
  then have "take_bit 12 (unat (page_down a)) = 0" by (metis unsigned_take_bit_eq unsigned_0)
  then show "aligned_page (page_down a)" by (simp add: aligned_page_def take_bit_eq_mod dvd_eq_mod_eq_0)
qed

lemma page_down_above: "4096 dvd unat st \<Longrightarrow> st \<le> a \<Longrightarrow> unat st \<le> unat (page_down a)"
proof -
  assume st: "4096 dvd unat st" "st \<le> a"
  have "unat (page_down a) + unat (a AND 0xFFF) < 2 ^ 64"
    using aligned_bound [OF page_down_index(3) [of a]] by (simp only: low12)
  then have "unat a = unat (page_down a) + unat a mod 4096"
    using unat_add_nowrap [of "page_down a" "a AND 0xFFF"] by (simp only: page_down_index(2) low12)
  moreover have "4096 dvd unat (page_down a)" using page_down_index(3) by (simp add: aligned_page_def)
  ultimately show ?thesis using st by (auto simp: word_le_nat_alt elim!: dvdE)
qed

lemma user_prot_low: "user_prot prot AND 0x3FF = user_prot prot"
  by (simp add: user_prot_def Let_def page_flags bit.conj_disj_distrib2)

lemma demand_page_run:
  fixes s :: "'a buddy_state_scheme"
  assumes inv: "page_inv s" and snd: "sound_space s pgd" and v: "user_address addr" and room: "3 \<le> card (free_frames s)"
    and st: "4096 dvd unat (vm_start vma)" "vm_start vma \<le> addr"
    and src: "\<And>i. i < unat (vm_file_size vma) \<Longrightarrow> stable_byte s (vm_file_data vma + of_nat i)"
  shows "\<exists>n s'. demand_page pgd vma addr s = Some (True, s') \<and> page_inv s' \<and> sound_space s' pgd \<and>
    (\<forall>w. user_address w \<longrightarrow> user_byte (mem s') pgd w =
       (if indices w = indices addr then Some (area_byte (load8 (mem s)) vma (page_down addr + (w AND 0xFFF)))
        else user_byte (mem s) pgd w)) \<and>
    (\<forall>r. sound_space s r \<and> apart s pgd r \<longrightarrow> same_bytes s s' r) \<and>
    leaf (mem s') pgd (indices addr) = leaf_entry (pa_of (idx_to_addr s n)) (user_prot (vm_prot vma)) \<and>
    n \<in> free_frames s \<and> owned s' n 0 \<and> ref_count s' n = 1 \<and> idx_to_addr s' n = idx_to_addr s n"
proof -
  have "free_frames s \<noteq> {}" using room by auto
  then obtain n where n: "fst (alloc_page s) = idx_to_addr s n" "page_taken s n (snd (alloc_page s))"
    using alloc_page_cases [OF inv] by auto
  define s1 where "s1 = snd (alloc_page s)"
  have taken: "page_taken s n s1" using n(2) by (simp add: s1_def)
  define new where "new = idx_to_addr s n"
  note new = page_taken_page [OF inv taken, folded new_def]
  let ?fp = "page_down addr" and ?prot = "user_prot (vm_prot vma)"
  have stable: "\<not> in_page new (vm_file_data vma + of_nat i)"
    "load8 (mem s1) (vm_file_data vma + of_nat i) = load8 (mem s) (vm_file_data vma + of_nat i)"
    if "i < unat (vm_file_size vma)" for i
    using stable_taken [OF inv taken src [OF that]] by (simp_all add: new_def)
  define s2 where "s2 = s1\<lparr>mem := with_bytes (fill_page vma ?fp new) (mem s1)\<rparr>"
  have f: "page_inv s2" "keeps_pages {} s s2" "own_page s2 new"
    using fill_taken [OF inv taken, where f = "fill_page vma ?fp new"] fill_page_outside [OF new(1) _ stable(1)]
    by (simp_all add: s2_def new_def)
  have wf: "wf_space s pgd" using snd by (simp add: sound_space_def)
  note k2 = keeps_space [OF inv wf f(2) unseen_empty]
  have v': "user_address (?fp)" using v page_down_index(1) [of addr] by (simp add: user_address_def indices_def)
  have room2: "2 \<le> card (free_frames s2)"
    using room taken by (auto simp: s2_def page_taken_def card_Diff_singleton_if)
  obtain s' where s': "map_pages pgd ?fp PAGE_SIZE (pa_of new) ?prot s2 = Some s'" "page_inv s'" "wf_space s' pgd"
    "others_kept pgd s2 s'" "\<forall>x. user_index x \<longrightarrow>
       leaf (mem s') pgd x = ((leaf (mem s2) pgd)(indices addr := leaf_entry (pa_of new) ?prot)) x"
    using map_pages_run [of 1 0 s2 pgd ?fp "pa_of new" ?prot "leaf (mem s2) pgd"] f(1) k2(3) room2 v'
    by (auto simp: map_pages_def map_range_def page_down_index(1))
  have fresh: "q \<noteq> new" if "own_page s q" for q using page_taken_keeps(2) [OF inv taken that] by (simp add: new_def)
  note le = leaf_entry_target [OF new(1) user_prot_low [of "vm_prot vma"]]
  have notab: "\<forall>p. user_path p \<longrightarrow> table_at (mem s2) pgd p \<noteq> Some new"
    using k2(1) wf_owned [OF wf] fresh by metis
  note m = map_leaf [OF f(1) k2(4) [OF snd] v leaf_entry_present, of "pa_of new" ?prot, unfolded le, OF f(3) notab s'(2-5)]
  have eq: "demand_page pgd vma addr s = Some (True, s')"
    using n(1) new(2) s'(1) by (simp add: demand_page_def split_def Let_def s1_def [symmetric] new_def [symmetric] s2_def)
  have "load8 (mem s2) (new + (w AND 0xFFF)) = area_byte (load8 (mem s)) vma (?fp + (w AND 0xFFF))" for w
  proof -
    have d: "unat (w AND 0xFFF) < 4096" by (simp only: low12)
    have "?fp + (w AND 0xFFF) - vm_start vma = (?fp - vm_start vma) + (w AND 0xFFF)" by simp
    moreover have "unat (?fp - vm_start vma) + unat (w AND 0xFFF) < 2 ^ 64"
      using page_down_above [OF st] aligned_bound [OF page_down_index(3) [of addr]] d by (simp add: unat_sub word_le_nat_alt)
    ultimately have "unat (?fp + (w AND 0xFFF) - vm_start vma) = unat (?fp - vm_start vma) + unat (w AND 0xFFF)"
      using unat_add_nowrap by metis
    then have "load8 (mem s2) (new + (w AND 0xFFF)) = area_byte (load8 (mem s1)) vma (?fp + (w AND 0xFFF))"
      using fill_page_inside [OF new(1) d refl _ stable(1)] by (simp add: s2_def)
    also have "\<dots> = area_byte (load8 (mem s)) vma (?fp + (w AND 0xFFF))"
      using stable(2) [of "unat (?fp + (w AND 0xFFF) - vm_start vma)"] by (auto simp: area_byte_def Let_def word_less_nat_alt)
    finally show ?thesis .
  qed
  then have "user_byte (mem s') pgd w = (if indices w = indices addr then Some (area_byte (load8 (mem s)) vma (?fp + (w AND 0xFFF)))
        else user_byte (mem s) pgd w)" if "user_address w" for w
    using m(2) [OF that] k2(5) [OF snd that] by simp
  moreover have "same_bytes s s' r" if r: "sound_space s r" "apart s pgd r" for r
  proof -
    have wfr: "wf_space s r" using r(1) by (simp add: sound_space_def)
    note kr = keeps_space [OF inv wfr f(2) unseen_empty]
    have "apart s2 pgd r" using r(2) kr(1,2) k2(1) unfolding apart_def by metis
    then have "same_bytes s2 s' r" by (rule m(3) [OF kr(4) [OF r(1)]])
    moreover have "same_bytes s s2 r" by (rule keeps_same_bytes [OF inv r(1) f(2) unseen_empty])
    ultimately show ?thesis using same_bytes_trans by blast
  qed
  moreover have "owned s2 n 0" "ref_count s2 n = 1" "n \<in> free_frames s" "idx_to_addr s2 = idx_to_addr s"
    using taken address_map_eqD(1) by (auto simp: page_taken_def s2_def owned_def fun_eq_iff idx_to_addr_def)
  then have "owned s' n 0" "ref_count s' n = 1" "n \<in> free_frames s" "idx_to_addr s' n = idx_to_addr s n"
    using s'(4) address_map_eqD(1) [of s' s2] block_head [of n 0] unfolding others_kept_def by metis+
  moreover have "leaf (mem s') pgd (indices addr) = leaf_entry (pa_of new) ?prot"
    using s'(5) [rule_format, OF user_index_indices [OF v]] by simp
  ultimately show ?thesis using eq s'(2) m(1) by (intro exI [of _ n] exI [of _ s']) (simp add: new_def)
qed

subsection \<open>A page with two references\<close>

text \<open>A new page mapped at an address of the booted space, with one more reference to it.\<close>

definition shared_page :: u64 where "shared_page = fst (alloc_page boot_space)"

definition shared_space :: buddy_state where
  "shared_space = get_page_ref shared_page
     (pagewalk boot_pgd 0x5000 (pa_of shared_page) (PAGE_USER OR PAGE_READ) (snd (alloc_page boot_space)))"

lemma boot_sound: "sound_space boot_space boot_pgd"
  using boot_space_ok(2,5) by (auto simp: sound_space_def)

lemma address_5000: "user_address 0x5000" "page_down 0x5000 = 0x5000"
  by (simp_all add: user_address_def vpn2_def page_down_def)

lemma shared_space_ok:
  obtains b where "page_inv shared_space" "sound_space shared_space boot_pgd" "present (leaf (mem shared_space) boot_pgd (indices 0x5000))"
    "leaf_target (leaf (mem shared_space) boot_pgd (indices 0x5000)) = idx_to_addr shared_space b" "owned shared_space b 0"
    "ref_count shared_space b = 2" "free_frames shared_space \<noteq> {}"
proof -
  define s1 where "s1 = snd (alloc_page boot_space)"
  have "free_frames boot_space \<noteq> {}" using boot_space_ok(4) by auto
  then obtain n where n: "shared_page = idx_to_addr boot_space n" "page_taken boot_space n s1"
    using alloc_page_cases [OF boot_space_ok(1)] by (auto simp: shared_page_def s1_def)
  note t = page_taken_page [OF boot_space_ok(1) n(2), folded n(1)]
  have keep: "keeps_pages {} boot_space s1" by (rule keeps_pages_taken [OF boot_space_ok(1) n(2)])
  note k = keeps_space [OF boot_space_ok(1,2) keep unseen_empty]
  have card: "card (free_frames s1) = 8"
    using n(2) boot_space_ok(4) by (simp add: page_taken_def card_Diff_singleton_if)
  define e where "e = leaf_entry (pa_of shared_page) (PAGE_USER OR PAGE_READ)"
  define s2 where "s2 = pagewalk boot_pgd 0x5000 (pa_of shared_page) (PAGE_USER OR PAGE_READ) s1"
  have "2 \<le> card (free_frames s1)" using card by simp
  note w = pagewalk_step [OF t(3) k(3) address_5000(1), where pa = "pa_of shared_page" and prot = "PAGE_USER OR PAGE_READ", folded s2_def e_def]
    and room = this
  have tgt: "leaf_target e = shared_page"
    unfolding e_def by (rule leaf_entry_target [OF t(1)]) (simp add: page_flags)
  have pr: "present e" unfolding e_def by (rule leaf_entry_present)
  have fresh: "own_page boot_space q \<Longrightarrow> q \<noteq> shared_page" for q
    using page_taken_keeps(2) [OF boot_space_ok(1) n(2)] by (simp add: n(1))
  have notab: "\<forall>p. user_path p \<longrightarrow> table_at (mem s1) boot_pgd p \<noteq> Some (leaf_target e)"
    using k(1) wf_owned [OF boot_space_ok(2)] fresh unfolding tgt by metis
  have own: "own_page s1 (leaf_target e)" using t(4) by (simp add: tgt)
  have lf: "\<forall>x. user_index x \<longrightarrow> leaf (mem s2) boot_pgd x = ((leaf (mem s1) boot_pgd)(indices 0x5000 := e)) x"
    using w(4) [OF room] by blast
  have snd2: "sound_space s2 boot_pgd"
    by (rule map_leaf(1) [OF t(3) k(4) [OF boot_sound] address_5000(1) pr own notab w(1-3) lf]) (use room in simp_all)
  have "owned s1 n 0" "ref_count s1 n = 1" "address_map s1 = address_map boot_space"
    using n(2) by (auto simp: page_taken_def)
  then have o: "owned s2 n 0" "ref_count s2 n = 1" "address_map s2 = address_map boot_space"
    using w(3) [OF room] block_head [of n 0] unfolding others_kept_def by metis+
  then have page: "shared_page = idx_to_addr s2 n" using n(1) address_map_eqD(1) by metis
  have sh: "shared_space = s2\<lparr>ref_count := (ref_count s2)(n := 2)\<rparr>"
    using get_page_ref_owned [of s2 n 0 n] w(1) [OF room] o page
    by (simp add: shared_space_def s1_def [symmetric] s2_def [symmetric] page_inv_def)
  have "page_inv shared_space"
    unfolding sh using w(1) [OF room] buddy_inv_refs [of s2] o(2) by (auto simp: page_inv_def)
  moreover have "sound_space shared_space boot_pgd" using snd2 by (simp add: sh sound_space_def wf_space_def)
  moreover have "leaf (mem shared_space) boot_pgd (indices 0x5000) = e"
    using lf [rule_format, OF user_index_indices [OF address_5000(1)]] by (simp add: sh)
  moreover have "free_frames shared_space \<noteq> {}"
  proof -
    have "free_frames shared_space = free_frames s2" by (simp add: sh free_frames_def)
    moreover have "free_frames s2 \<noteq> {}" using w(5) [OF room] card by auto
    ultimately show ?thesis by simp
  qed
  moreover have "idx_to_addr shared_space = idx_to_addr s2" by (rule address_map_eqD(1)) (simp add: sh)
  ultimately show thesis using that [of n] o pr tgt page by (simp add: sh)
qed

subsection \<open>Properties\<close>

text \<open>C26: a write to a page shared copy-on-write. The fault fails, changing nothing, only when the page has
  several references and no frame is free. Otherwise no process sees a difference: in the faulting space and
  in every space that shares no table with it each user address reads the byte it read before; the leaf is
  writable and the page behind it has no other reference, and a shared page has lost one.\<close>

theorem cow_fault_correct:
  fixes s :: "'a buddy_state_scheme"
  assumes "page_inv s" "sound_space s pgd" "user_address v" "present (leaf (mem s) pgd (indices v))"
    and "leaf_target (leaf (mem s) pgd (indices v)) = idx_to_addr s b" "owned s b 0"
  shows "case cow_fault (walk_pte pgd v s) s of (ok, s') \<Rightarrow>
    if 1 < ref_count s b \<and> free_frames s = {} then \<not> ok \<and> s' = s
    else ok \<and> page_inv s' \<and> same_bytes s s' pgd \<and> (\<forall>r. sound_space s r \<and> apart s pgd r \<longrightarrow> same_bytes s s' r) \<and>
      leaf (mem s') pgd (indices v) AND PAGE_WRITE = PAGE_WRITE \<and>
      (\<exists>n. leaf_target (leaf (mem s') pgd (indices v)) = idx_to_addr s n \<and> ref_count s' n \<le> 1 \<and>
         (if 1 < ref_count s b then n \<in> free_frames s \<and> ref_count s' b = ref_count s b - 1 else n = b))"
proof (cases "1 < ref_count s b")
  case True
  note c = cow_fault_cases [OF assms]
  show ?thesis
  proof (cases "free_frames s = {}")
    case room: False
    obtain n s' where n: "cow_copy (walk_pte pgd v s) s = (True, s')" "page_inv s'" "same_bytes s s' pgd"
      "\<forall>r. sound_space s r \<and> apart s pgd r \<longrightarrow> same_bytes s s' r" "leaf_target (leaf (mem s') pgd (indices v)) = idx_to_addr s n"
      "n \<in> free_frames s" "leaf (mem s') pgd (indices v) AND PAGE_WRITE = PAGE_WRITE"
      "ref_count s' = (ref_count s)(n := 1, b := ref_count s b - 1)"
      using cow_shared [OF assms(1-4) room assms(5,6) True] by blast
    have "n \<noteq> b" using n(6) owned_not_free [OF _ assms(6)] assms(1) block_head [of b 0] unfolding page_inv_def by blast
    then show ?thesis using n True room c by auto
  qed (use True c cow_no_room [OF assms(1)] in simp)
next
  case False
  define s' where "s' = s\<lparr>mem := (mem s)(walk_pte pgd v s := leaf (mem s) pgd (indices v) OR PAGE_WRITE)\<rparr>"
  note x = cow_exclusive [OF assms(1-4), folded s'_def]
  have "leaf_target (leaf (mem s') pgd (indices v)) = idx_to_addr s b" "leaf (mem s') pgd (indices v) AND PAGE_WRITE = PAGE_WRITE"
    using assms(5) by (simp_all add: x(4) target_or write_flag)
  moreover have "ref_count s' = ref_count s" by (simp add: s'_def)
  ultimately show ?thesis
    using False x(1-3) by (simp add: cow_fault_cases [OF assms] s'_def [symmetric])
qed


theorem cow_fault_correct_witness:
  "\<exists>n. n \<in> free_frames shared_space \<and>
     leaf_target (leaf (mem (snd (cow_fault (walk_pte boot_pgd 0x5000 shared_space) shared_space))) boot_pgd (indices 0x5000))
       = idx_to_addr shared_space n"
proof (rule shared_space_ok)
  fix b assume b: "page_inv shared_space" "sound_space shared_space boot_pgd"
    "present (leaf (mem shared_space) boot_pgd (indices 0x5000))"
    "leaf_target (leaf (mem shared_space) boot_pgd (indices 0x5000)) = idx_to_addr shared_space b"
    "owned shared_space b 0" "ref_count shared_space b = 2" "free_frames shared_space \<noteq> {}"
  show ?thesis
    using cow_fault_correct [OF b(1,2) address_5000(1) b(3-5)] b(6,7) by (auto simp: split_def)
qed



end
