(* ===== verification/Process_Spec.thy ===== *)
theory Process_Spec
  imports Process Syscall_Spec Trap_Spec
begin

text \<open>
  Signals: the handler starts on a page of its own with the return trampoline in it, and
  \<^verbatim>\<open>sigreturn\<close> puts registers, address space and heap back as they were.
\<close>

subsection \<open>A page from the kernel heap\<close>

lemma rep_page_inv: "kmalloc_rep ch s \<Longrightarrow> page_inv s"
  by (simp add: kmalloc_rep_def page_inv_def)

definition heap_page :: "(nat \<Rightarrow> u64 list) \<Rightarrow> 'a kmalloc_state_scheme \<Rightarrow> nat \<Rightarrow> 'a kmalloc_state_scheme \<Rightarrow> bool" where
  "heap_page ch s b s' \<longleftrightarrow> kmalloc_rep ch s' \<and> b \<in> free_frames s \<and> owned s' b 0 \<and> ref_count s' b = 1 \<and>
     page_pool_idx s' b = - 1 \<and> free_frames s' = free_frames s - {b} \<and> address_map s' = address_map s \<and>
     keeps_pages {} s s' \<and> sie s' = sie s \<and> buddy_state.more s' = buddy_state.more s \<and>
     (\<forall>q. own_page s q \<longrightarrow> q \<noteq> idx_to_addr s b)"

lemma kmalloc_page:
  assumes rep: "kmalloc_rep ch s" and room: "free_frames s \<noteq> {}"
  shows "\<exists>b. fst (kmalloc STACK_SIZE s) = idx_to_addr s b \<and> heap_page ch s b (snd (kmalloc STACK_SIZE s))"
proof -
  let ?s = "s\<lparr>sie := False\<rparr>" and ?s1 = "snd (buddy_alloc PAGE_SIZE (s\<lparr>sie := False\<rparr>))"
  have rep': "kmalloc_rep ch ?s" using rep by simp
  note inv = rep_D(1) [OF rep']
  have eq: "kmalloc STACK_SIZE s = (fst (buddy_alloc PAGE_SIZE ?s), ?s1\<lparr>sie := sie s\<rparr>)"
    using kmalloc_eq(3) [OF rep, of PAGE_SIZE] find_pool_large [of PAGE_SIZE] by (simp add: STACK_SIZE_def)
  have "can_serve ?s PAGE_SIZE" using room page_served [OF inv] by simp
  then obtain b where b: "fst (buddy_alloc PAGE_SIZE ?s) = idx_to_addr s b" "alloc_effect ?s b 0 ?s1"
    using buddy_alloc_cases [OF inv, of PAGE_SIZE] order_of_page by auto
  note map = address_map_eqD [OF address_map_alloc [of PAGE_SIZE ?s]]
  have f: "frames_of b 0 = {b}" by (auto simp: frames_of_def)
  have bf: "b \<in> free_frames s" "owned ?s1 b 0" "ref_count ?s1 b = 1" "free_frames ?s1 = free_frames s - {b}"
    using b(2) by (simp_all add: alloc_effect_def f)
  have "page_pool_idx s b = - 1"
  proof (rule ccontr)
    assume "page_pool_idx s b \<noteq> - 1"
    then have "owned s b 0" using rep_D(4) [OF rep] bf(1) by (fastforce simp: pool_pages_def free_frames_def)
    then show False using owned_not_free [OF rep_D(1) [OF rep]] bf(1) block_head [of b 0] by blast
  qed
  moreover have fresh: "q \<noteq> idx_to_addr s b" if q: "own_page s q" for q
  proof -
    obtain i where i: "q = idx_to_addr s i" "owned s i 0" using q by (auto simp: own_page_def)
    have "b < buddy_total_pages s" using bf(1) by (simp add: free_frames_def)
    moreover have "i \<notin> free_frames s" using owned_not_free [OF rep_D(1) [OF rep] i(2)] block_head [of i 0] by blast
    then have "i \<noteq> b" using bf(1) by blast
    ultimately show ?thesis using idx_eq_owned [OF rep_D(1) [OF rep] i(2)] i(1) by metis
  qed
  moreover have "keeps_pages {} s (?s1\<lparr>sie := sie s\<rparr>)"
    unfolding keeps_pages_def
  proof (intro allI impI conjI)
    fix q assume "own_page s q \<and> q \<notin> {}"
    then have q: "own_page s q" by simp
    then obtain i where i: "q = idx_to_addr s i" "owned ?s i 0" by (auto simp: own_page_def)
    then have "owned ?s1 i 0" using alloc_keeps_owned [OF inv] by blast
    then show "own_page (?s1\<lparr>sie := sie s\<rparr>) q" using i(1) by (auto simp: own_page_def map)
    fix c assume "in_page q c"
    then have "c \<notin> list_area ?s (free_frames ?s)" using own_page_props(3) [OF rep_page_inv [OF rep] q] by simp
    then show "mem (?s1\<lparr>sie := sie s\<rparr>) c = mem s c" using b(2) by (simp add: alloc_effect_def)
  qed
  ultimately have "heap_page ch s b (?s1\<lparr>sie := sie s\<rparr>)"
    using rep_alloc [OF rep', of PAGE_SIZE] bf unfolding heap_page_def by simp
  then show ?thesis using b(1) eq by auto
qed

text \<open>No table of the space is a page of the chunk allocator; mapping keeps the heap.\<close>

definition heap_apart :: "'a kmalloc_state_scheme \<Rightarrow> u64 \<Rightarrow> bool" where
  "heap_apart s pgd \<longleftrightarrow> (\<forall>b<buddy_total_pages s. idx_to_addr s b \<in> tables (mem s) pgd \<longrightarrow> page_pool_idx s b = - 1)"

lemma keeps_rep:
  assumes rep: "kmalloc_rep ch s" and inv: "page_inv s'" and k: "keeps_pages T s s'"
    and ap: "\<And>b. owned s b 0 \<Longrightarrow> idx_to_addr s b \<in> T \<Longrightarrow> page_pool_idx s b = - 1"
    and am: "address_map s' = address_map s" and more: "buddy_state.more s' = buddy_state.more s"
  shows "kmalloc_rep ch s'"
proof -
  note map = address_map_eqD [OF am]
  have f: "pools s' = pools s" "page_pool_idx s' = page_pool_idx s" using more_fields [OF more] by simp_all
  have pool: "own_page s (idx_to_addr s i)" "idx_to_addr s i \<notin> T" if "owned s i 0" "page_pool_idx s i \<noteq> - 1" for i
    using that ap by (auto simp: own_page_def)
  have own: "owned s' i 0" if i: "owned s i 0" "page_pool_idx s i \<noteq> - 1" for i
  proof -
    have "own_page s' (idx_to_addr s i)" using k pool [OF i] by (simp add: keeps_pages_def)
    then obtain j where j: "idx_to_addr s i = idx_to_addr s' j" "owned s' j 0" by (auto simp: own_page_def)
    have "buddy_inv s'" using inv by (simp add: page_inv_def)
    moreover have "i < buddy_total_pages s'" using owned_index [OF i(1)] by (simp add: map)
    ultimately have "j = i" using idx_eq_owned [of s' j 0 i] j by (simp add: map)
    then show ?thesis using j(2) by simp
  qed
  have "pool_pages s'"
    unfolding pool_pages_def f map
  proof (intro allI impI)
    fix i assume "i < buddy_total_pages s"
    then show "page_pool_idx s i = - 1 \<or> (\<exists>j<NUM_POOLS. page_pool_idx s i = int j) \<and> owned s' i 0"
      using rep_D(4) [OF rep] own unfolding pool_pages_def by blast
  qed
  moreover have "pools_ok ch s'"
  proof (rule pools_ok_frame [OF rep_D(5) [OF rep] f(1)])
    show "chunk_of s' = chunk_of s" by (rule chunk_of_map [OF am f(2)])
    fix i x assume ix: "i < NUM_POOLS" "x \<in> set (ch i)"
    then have x: "chunk_of s i x" using rep_D(5) [OF rep] by (auto simp: pools_ok_def)
    then obtain fr j where fr: "fr < buddy_total_pages s" "page_pool_idx s fr = int i" "j * psize i < 4096" "x = slot s fr i j"
      by (auto simp: chunk_of_def)
    have o: "owned s fr 0" using pool_page_owned [OF rep_D(4) [OF rep] fr(1,2)] by simp
    have "in_page (idx_to_addr s fr) x" using slot_in_page [OF rep_D(2) [OF rep] fr(1,3)] by (simp add: in_page_def fr(4))
    then show "mem s' x = mem s x" using k pool [OF o] fr(2) by (simp add: keeps_pages_def)
  qed
  ultimately show ?thesis using inv by (simp add: kmalloc_rep_def page_inv_def)
qed

lemma others_kept_pages: "others_kept pgd s s' \<Longrightarrow> keeps_pages (tables (mem s) pgd) s s'"
  using own_page_keep unfolding keeps_pages_def tables_def others_kept_def by blast

lemma others_kept_rep:
  assumes "kmalloc_rep ch s" "page_inv s'" "heap_apart s pgd" "others_kept pgd s s'"
  shows "kmalloc_rep ch s'"
proof (rule keeps_rep [OF assms(1,2) others_kept_pages [OF assms(4)]])
  show "address_map s' = address_map s" "buddy_state.more s' = buddy_state.more s" using assms(4) by (simp_all add: others_kept_def)
  show "page_pool_idx s b = - 1" if "owned s b 0" "idx_to_addr s b \<in> tables (mem s) pgd" for b
    using assms(3) that owned_index unfolding heap_apart_def by blast
qed

lemma heap_apart_kept:
  assumes rep: "kmalloc_rep ch s" and ap: "heap_apart s pgd" and k: "others_kept pgd s s'"
  shows "heap_apart s' pgd"
proof -
  have am: "address_map s' = address_map s" and more: "buddy_state.more s' = buddy_state.more s"
    using k by (simp_all add: others_kept_def)
  note map = address_map_eqD [OF am]
  have f: "page_pool_idx s' = page_pool_idx s" using more_fields [OF more] by simp
  have "page_pool_idx s b = - 1" if b: "b < buddy_total_pages s" "idx_to_addr s b \<in> tables (mem s') pgd" for b
  proof (cases "own_page s (idx_to_addr s b)")
    case True
    then have "idx_to_addr s b \<in> tables (mem s) pgd" using k b(2) unfolding others_kept_def tables_def by blast
    then show ?thesis using ap b(1) by (simp add: heap_apart_def)
  next
    case False
    then have "\<not> owned s b 0" by (auto simp: own_page_def)
    then show ?thesis using rep_D(4) [OF rep] b(1) by (auto simp: pool_pages_def)
  qed
  then show ?thesis by (simp add: heap_apart_def map f)
qed


subsection \<open>Fields the allocators do not see\<close>

lemma heap_view:
  fixes s s' :: "'a kmalloc_state_scheme"
  assumes "kmalloc_state.truncate s' = kmalloc_state.truncate s"
  shows "mem s' = mem s" "free_frames s' = free_frames s" "idx_to_addr s' = idx_to_addr s" "owned s' = owned s"
    "own_page s' = own_page s" "page_inv s' = page_inv s" "kmalloc_rep ch s' = kmalloc_rep ch s" "ref_count s' = ref_count s"
    "page_pool_idx s' = page_pool_idx s" "address_map s' = address_map s" "wf_space s' = wf_space s"
    "sound_space s' = sound_space s" "heap_apart s' = heap_apart s" "sie s' = sie s"
proof -
  have b: "buddy_state.truncate s' = buddy_state.truncate s" and k: "pools s' = pools s" "page_pool_idx s' = page_pool_idx s"
    using assms by (simp_all add: kmalloc_state.truncate_def buddy_state.truncate_def)
  note v = buddy_view [OF b] and r = rep_view [OF b k]
  show m: "mem s' = mem s" and f: "free_frames s' = free_frames s" and i: "idx_to_addr s' = idx_to_addr s" and o: "owned s' = owned s"
    and rc: "ref_count s' = ref_count s"
    using assms b by (simp_all add: v kmalloc_state.truncate_def buddy_state.truncate_def free_frames_def)
  show p: "own_page s' = own_page s" by (simp add: fun_eq_iff own_page_def i o)
  show "page_inv s' = page_inv s" by (simp add: page_inv_def base_aligned_def v)
  show "kmalloc_rep ch s' = kmalloc_rep ch s" by (rule r(1))
  show "page_pool_idx s' = page_pool_idx s" by (rule k(2))
  show "address_map s' = address_map s" "sie s' = sie s"
    using assms by (simp_all add: address_map_def kmalloc_state.truncate_def)
  show w: "wf_space s' = wf_space s" by (simp add: fun_eq_iff wf_space_def m p)
  show "sound_space s' = sound_space s" by (simp add: fun_eq_iff sound_space_def m p w)
  show "heap_apart s' = heap_apart s" by (simp add: fun_eq_iff heap_apart_def m i k v)
qed

lemma thread_truncate [simp]:
  "kmalloc_state.truncate (upd_task t f s) = kmalloc_state.truncate s"
  "kmalloc_state.truncate (upd_frame p g s) = kmalloc_state.truncate s"
  by (simp_all add: upd_task_def upd_frame_def kmalloc_state.truncate_def)

lemmas upd_view [simp] = heap_view [OF thread_truncate(1)] heap_view [OF thread_truncate(2)]

lemma upd_fields [simp]:
  "tasks (upd_task t f s) = (tasks s)(t := f (tasks s t))" "tasks (upd_frame p g s) = tasks s"
  "tframes (upd_task t f s) = tframes s" "tframes (upd_frame p g s) = (tframes s)(p := g (tframes s p))"
  "tp (upd_task t f s) = tp s" "tp (upd_frame p g s) = tp s"
  "vmas (upd_task t f s) = vmas s" "vmas (upd_frame p g s) = vmas s"
  by (simp_all add: upd_task_def upd_frame_def)

lemma page_thread_fields:
  assumes "buddy_state.more s' = buddy_state.more s"
  shows "tasks s' = tasks s" "tframes s' = tframes s" "tp s' = tp s" "vmas s' = vmas s"
  using assms by (cases s; cases s'; simp)+

subsection \<open>Delivery\<close>

text \<open>The registers the handler starts with.\<close>

definition handler_frame :: "u64 \<Rightarrow> nat \<Rightarrow> trap_frame \<Rightarrow> trap_frame" where
  "handler_frame handler sig f =
     f\<lparr>tf_sepc := handler, tf_sp := USER_SIGNAL_STACK + STACK_SIZE, tf_s0 := USER_SIGNAL_STACK + STACK_SIZE,
       tf_ra := USER_SIGNAL_STACK, tf_a0 := of_nat sig\<rparr>"

text \<open>The thread runs a handler on frame \<open>b\<close>, which goes back to the registers \<open>f\<close>.\<close>

definition in_handler :: "(nat \<Rightarrow> u64 list) \<Rightarrow> 'a thread_sys_scheme \<Rightarrow> nat \<Rightarrow> trap_frame \<Rightarrow> bool" where
  "in_handler ch s b f \<longleftrightarrow>
     (let x = tasks s (tp s); pgd = t_pgd x
      in kmalloc_rep ch s \<and> wf_space s pgd \<and> heap_apart s pgd \<and> t_signal_stack x = idx_to_addr s b \<and> t_signal_saved_tf x = f \<and>
         t_is_handling_signal x = 1 \<and> owned s b 0 \<and> page_pool_idx s b = - 1 \<and> idx_to_addr s b \<notin> tables (mem s) pgd)"

lemma store32_outside: "\<not> in_page p a \<Longrightarrow> aligned_page p \<Longrightarrow> d \<le> 4092 \<Longrightarrow> store32 (p + of_nat d) w b a = b a"
proof -
  assume a: "\<not> in_page p a" "aligned_page p" "d \<le> 4092"
  have "a \<noteq> p + of_nat d + of_nat i" if "i < 4" for i
  proof
    assume e: "a = p + of_nat d + of_nat i"
    then have "a = p + of_nat (d + i)" by (simp add: add.assoc)
    then show False using in_page_offset [OF a(2), of "d + i"] a that by (simp add: in_page_def)
  qed
  then have st: "fold (\<lambda>i b. b(p + of_nat d + of_nat i := g i)) is b a = b a" if "set is \<subseteq> {..<4}" for "is" b and g :: "nat \<Rightarrow> u8"
    using that by (induction "is" arbitrary: b) auto
  show ?thesis unfolding store32_def by (rule st) auto
qed


definition signal_code :: "u8 list" where "signal_code = [0x93, 0x08, 0xB0, 0x00, 0x73, 0x00, 0x00, 0x00]"

text \<open>Two little-endian words: \<^verbatim>\<open>li a7, 11\<close> and \<^verbatim>\<open>ecall\<close>.\<close>

lemma signal_code_bytes:
  "i < 8 \<Longrightarrow> (store32 (p + 4) 0x00000073 \<circ> store32 p 0x00B00893) b (p + of_nat i) = signal_code ! i"
proof -
  assume "i < 8"
  then consider "i = 0" | "i = 1" | "i = 2" | "i = 3" | "i = 4" | "i = 5" | "i = 6" | "i = 7" by linarith
  moreover have "[0..<4] = [0, 1, 2, 3 :: nat]" by (simp add: upt_rec)
  ultimately show ?thesis
    by cases (simp_all add: store32_def signal_code_def add.assoc)
qed

lemma signal_address:
  "user_address USER_SIGNAL_STACK" "aligned_page USER_SIGNAL_STACK"
  "i < 8 \<Longrightarrow> indices (USER_SIGNAL_STACK + of_nat i) = indices USER_SIGNAL_STACK \<and>
     user_address (USER_SIGNAL_STACK + of_nat i) \<and> (USER_SIGNAL_STACK + of_nat i) AND 0xFFF = of_nat i"
proof -
  show u: "user_address USER_SIGNAL_STACK" by (simp add: user_address_def USER_SIGNAL_STACK_def vpn2_def)
  show "aligned_page USER_SIGNAL_STACK" by (simp add: aligned_page_def USER_SIGNAL_STACK_def)
  assume "i < 8"
  then consider "i = 0" | "i = 1" | "i = 2" | "i = 3" | "i = 4" | "i = 5" | "i = 6" | "i = 7" by linarith
  then show "indices (USER_SIGNAL_STACK + of_nat i) = indices USER_SIGNAL_STACK \<and>
     user_address (USER_SIGNAL_STACK + of_nat i) \<and> (USER_SIGNAL_STACK + of_nat i) AND 0xFFF = of_nat i"
    by cases (simp_all add: user_address_def USER_SIGNAL_STACK_def indices_def vpn2_def vpn1_def vpn0_def)
qed


text \<open>One page of the heap mapped at a user address: the shared part of both directions.\<close>

lemma map_one_page:
  fixes s :: "'a kmalloc_state_scheme"
  assumes rep: "kmalloc_rep ch s" and snd: "sound_space s pgd" and ap: "heap_apart s pgd" and v: "user_address v"
    and al: "aligned_page v" and room: "2 \<le> card (free_frames s)"
    and b: "owned s b 0" "idx_to_addr s b \<notin> tables (mem s) pgd" and prot: "prot AND 0x3FF = prot"
  obtains s' where "map_pages pgd v PAGE_SIZE (pa_of (idx_to_addr s b)) prot s = Some s'" "kmalloc_rep ch s'"
    "sound_space s' pgd" "others_kept pgd s s'" "idx_to_addr s b \<notin> tables (mem s') pgd"
    "\<forall>x. user_index x \<longrightarrow> leaf (mem s') pgd x = ((leaf (mem s) pgd)(indices v := leaf_entry (pa_of (idx_to_addr s b)) prot)) x"
    "\<forall>w. user_address w \<longrightarrow> user_byte (mem s') pgd w =
       (if indices w = indices v then Some (load8 (mem s) (idx_to_addr s b + (w AND 0xFFF))) else user_byte (mem s) pgd w)"
proof -
  let ?p = "idx_to_addr s b"
  note inv = rep_page_inv [OF rep]
  have own: "own_page s ?p" using b(1) by (auto simp: own_page_def)
  note le = leaf_entry_target [OF own_page_props(1) [OF inv own] prot]
  have wf: "wf_space s pgd" using snd by (simp add: sound_space_def)
  obtain s' where s': "map_pages pgd v PAGE_SIZE (pa_of ?p) prot s = Some s'" "page_inv s'" "wf_space s' pgd"
    "others_kept pgd s s'" "\<forall>x. user_index x \<longrightarrow> leaf (mem s') pgd x = ((leaf (mem s) pgd)(indices v := leaf_entry (pa_of ?p) prot)) x"
    using map_pages_run [of 1 0 s pgd v "pa_of ?p" prot "leaf (mem s) pgd"] inv wf room v
    by (auto simp: map_pages_def map_range_def)
  have notab: "\<forall>p. user_path p \<longrightarrow> table_at (mem s) pgd p \<noteq> Some ?p" using b(2) by (auto simp: tables_def)
  note m = map_leaf [OF inv snd v leaf_entry_present, of "pa_of ?p" prot, unfolded le, OF own notab s'(2-5)]
  have rep': "kmalloc_rep ch s'" by (rule others_kept_rep [OF rep s'(2) ap s'(4)])
  have "?p \<notin> tables (mem s') pgd"
    using s'(4) own b(2) unfolding others_kept_def tables_def by blast
  moreover have "\<forall>w. user_address w \<longrightarrow> user_byte (mem s') pgd w =
      (if indices w = indices v then Some (load8 (mem s) (?p + (w AND 0xFFF))) else user_byte (mem s) pgd w)" using m(2) by blast
  ultimately show thesis using that [OF s'(1) rep' m(1) s'(4) _ s'(5)] by blast
qed

lemma with_bytes_rep:
  fixes s :: "'a kmalloc_state_scheme"
  assumes rep: "kmalloc_rep ch s" and b: "owned s b 0" "page_pool_idx s b = - 1"
    and f: "\<forall>a. \<not> in_page (idx_to_addr s b) a \<longrightarrow> f (load8 (mem s)) a = load8 (mem s) a"
  defines "s' \<equiv> s\<lparr>mem := with_bytes f (mem s)\<rparr>"
  shows "kmalloc_rep ch s'" "keeps_pages {idx_to_addr s b} s s'"
proof -
  let ?p = "idx_to_addr s b"
  note inv = rep_page_inv [OF rep]
  have own: "own_page s ?p" using b(1) by (auto simp: own_page_def)
  note al = own_page_props(1) [OF inv own]
  have same: "mem s' c = mem s c" if "\<not> in_page ?p c" for c
    using with_bytes_page [of ?p f "mem s" c] al f that by (simp add: s'_def)
  show k: "keeps_pages {?p} s s'"
    unfolding s'_def
  proof (rule keeps_pages_mem)
    fix q c assume "own_page s q" "q \<notin> {?p}" "in_page q c"
    then have "\<not> in_page ?p c" using in_page_unique [OF own_page_props(1) [OF inv] al, of q c] by blast
    then show "with_bytes f (mem s) c = mem s c" using same by (simp add: s'_def)
  qed
  have "buddy_inv s'"
    unfolding s'_def
  proof (rule buddy_inv_mem)
    fix c assume "c \<in> list_area s (free_frames s)"
    then have "\<not> in_page ?p c" using own_page_props(3) [OF inv own] by blast
    then show "with_bytes f (mem s) c = mem s c" using same by (simp add: s'_def)
  qed (use inv in \<open>simp add: page_inv_def\<close>)
  then have "page_inv s'" using inv by (simp add: page_inv_def s'_def)
  moreover have "page_pool_idx s c = - 1" if "owned s c 0" "idx_to_addr s c \<in> {?p}" for c
    using that b idx_eq_owned [OF rep_D(1) [OF rep] that(1) owned_index [OF b(1)]] by auto
  moreover have "address_map s' = address_map s" "buddy_state.more s' = buddy_state.more s"
    by (simp_all add: s'_def address_map_def)
  ultimately show "kmalloc_rep ch s'" using keeps_rep [OF rep _ k] by blast
qed


definition signal_prot :: u64 where "signal_prot = (PAGE_USER OR PAGE_READ OR PAGE_WRITE OR PAGE_EXEC)"

lemma signal_deliver_run:
  fixes s :: "'a thread_sys_scheme"
  defines "t \<equiv> tp s"
  defines "pgd \<equiv> t_pgd (tasks s t)"
  assumes rep: "kmalloc_rep ch s" and snd: "sound_space s pgd" and ap: "heap_apart s pgd" and room: "3 \<le> card (free_frames s)"
  obtains b s' where "signal_deliver frame sig handler s = Some s'" "in_handler ch s' b (tframes s frame)"
    "b \<in> free_frames s" "ref_count s' b = 1" "sound_space s' pgd" "tp s' = t"
    "tframes s' = (tframes s)(frame := handler_frame handler sig (tframes s frame))"
    "tasks s' = (tasks s)(t := clear_pending sig ((tasks s t)\<lparr>t_signal_saved_tf := tframes s frame,
       t_signal_stack := idx_to_addr s b, t_is_handling_signal := 1\<rparr>))"
    "\<forall>x. user_index x \<longrightarrow> leaf (mem s') pgd x =
       ((leaf (mem s) pgd)(indices USER_SIGNAL_STACK := leaf_entry (pa_of (idx_to_addr s b)) signal_prot)) x"
    "\<forall>w. user_address w \<and> indices w \<noteq> indices USER_SIGNAL_STACK \<longrightarrow> user_byte (mem s') pgd w = user_byte (mem s) pgd w"
    "\<forall>i<8. user_byte (mem s') pgd (USER_SIGNAL_STACK + of_nat i) = Some (signal_code ! i)"
proof -
  define s1 where "s1 = upd_task t (\<lambda>x. x\<lparr>t_signal_saved_tf := tframes s frame\<rparr>) s"
  have "kmalloc_rep ch s1" "free_frames s1 \<noteq> {}" using rep room by (auto simp: s1_def)
  from kmalloc_page [OF this] obtain b where b: "fst (kmalloc STACK_SIZE s1) = idx_to_addr s b"
    "heap_page ch s1 b (snd (kmalloc STACK_SIZE s1))" by (auto simp: s1_def)
  define s2 where "s2 = snd (kmalloc STACK_SIZE s1)"
  let ?p = "idx_to_addr s b"
  define s3 where "s3 = upd_task t (\<lambda>x. clear_pending sig (x\<lparr>t_signal_stack := ?p, t_is_handling_signal := 1\<rparr>)) s2"
  have hp: "kmalloc_rep ch s2" "b \<in> free_frames s" "owned s2 b 0" "ref_count s2 b = 1" "page_pool_idx s2 b = - 1"
    "free_frames s2 = free_frames s - {b}" "address_map s2 = address_map s" "keeps_pages {} s s2"
    "buddy_state.more s2 = buddy_state.more s1" "\<And>q. own_page s q \<Longrightarrow> q \<noteq> ?p"
    using b(2) by (simp_all add: heap_page_def s2_def s1_def keeps_pages_def)
  note addr = address_map_eqD(1) [OF hp(7)] and pf = page_thread_fields [OF hp(9)]
  have inv: "page_inv s" and wf: "wf_space s pgd" using rep snd by (simp_all add: rep_page_inv sound_space_def)
  note k2 = keeps_space [OF inv wf hp(8) unseen_empty]
  have tab: "?p \<notin> tables (mem s2) pgd" using k2(1) wf_owned [OF wf] hp(10) unfolding tables_def by force
  have f2: "page_pool_idx s2 = page_pool_idx s" using more_fields(2) [OF hp(9)] by (simp add: s1_def upd_task_def)
  have "tables (mem s2) pgd = tables (mem s) pgd" using k2(1) unfolding tables_def by auto
  then have ap2: "heap_apart s2 pgd" using ap address_map_eqD(4) [OF hp(7)] by (simp add: heap_apart_def addr f2)
  have room2: "2 \<le> card (free_frames s2)" using room hp(2,6) by (simp add: card_Diff_singleton_if)
  have prot: "signal_prot AND 0x3FF = signal_prot" by (simp add: signal_prot_def page_flags)
  have v3: "kmalloc_rep ch s3" "sound_space s3 pgd" "heap_apart s3 pgd" "2 \<le> card (free_frames s3)" "owned s3 b 0"
    "idx_to_addr s3 b \<notin> tables (mem s3) pgd" "idx_to_addr s3 = idx_to_addr s" "mem s3 = mem s2"
    using hp(1,3) k2(4) [OF snd] ap2 room2 tab by (simp_all add: s3_def addr)
  obtain s4 where s4: "map_pages pgd USER_SIGNAL_STACK PAGE_SIZE (pa_of ?p) signal_prot s3 = Some s4" "kmalloc_rep ch s4"
    "sound_space s4 pgd" "others_kept pgd s3 s4" "?p \<notin> tables (mem s4) pgd"
    "\<forall>x. user_index x \<longrightarrow> leaf (mem s4) pgd x = ((leaf (mem s2) pgd)(indices USER_SIGNAL_STACK := leaf_entry (pa_of ?p) signal_prot)) x"
    "\<forall>w. user_address w \<longrightarrow> user_byte (mem s4) pgd w =
       (if indices w = indices USER_SIGNAL_STACK then Some (load8 (mem s2) (?p + (w AND 0xFFF))) else user_byte (mem s2) pgd w)"
    by (rule map_one_page [OF v3(1-3) signal_address(1,2) v3(4-6) prot, unfolded v3(7,8)])
  define s5 where "s5 = s4\<lparr>mem := with_bytes (store32 (?p + 4) 0x00000073 \<circ> store32 ?p 0x00B00893) (mem s4)\<rparr>"
  define s6 where "s6 = upd_frame frame (handler_frame handler sig) s5"
  have ok4: "address_map s4 = address_map s2" "buddy_state.more s4 = buddy_state.more s3" "owned s4 b 0" "ref_count s4 b = 1"
    using s4(4) hp(3,4) block_head [of b 0] unfolding others_kept_def by (simp_all add: s3_def)
  have addr4: "idx_to_addr s4 = idx_to_addr s" using address_map_eqD(1) [OF ok4(1)] addr by simp
  note pf4 = page_thread_fields [OF ok4(2)]
  have f4: "page_pool_idx s4 = page_pool_idx s" using more_fields(2) [OF ok4(2)] f2 by (simp add: s3_def upd_task_def)
  have pidx: "page_pool_idx s4 b = - 1" using hp(5) f2 f4 by simp
  have own4: "own_page s4 ?p" using ok4(3) by (auto simp: own_page_def addr4)
  note al = own_page_props(1) [OF rep_page_inv [OF s4(2)] own4]
  have out: "\<forall>a. \<not> in_page ?p a \<longrightarrow> (store32 (?p + 4) 0x00000073 \<circ> store32 ?p 0x00B00893) (load8 (mem s4)) a = load8 (mem s4) a"
    using store32_outside [OF _ al, of _ 4] store32_outside [OF _ al, of _ 0] by simp
  note w5 = with_bytes_rep [OF s4(2) ok4(3) pidx, where f = "store32 (?p + 4) 0x00000073 \<circ> store32 ?p 0x00B00893",
      unfolded addr4, OF out, folded s5_def]
  have wf4: "wf_space s4 pgd" using s4(3) by (simp add: sound_space_def)
  have disj: "tables (mem s4) pgd \<inter> {?p} = {}" using s4(5) by simp
  note k5 = keeps_tables [OF rep_page_inv [OF s4(2)] wf4 w5(2) disj]
  have own5: "own_page s5 = own_page s4" by (simp add: s5_def)
  have snd5: "sound_space s5 pgd"
    using s4(3) k5(1,2,3) unfolding sound_space_def own5 by metis
  have other: "user_byte (mem s5) pgd w = user_byte (mem s) pgd w"
    if w: "user_address w" "indices w \<noteq> indices USER_SIGNAL_STACK" for w
  proof -
    note x = user_index_indices [OF w(1)]
    let ?e = "leaf (mem s4) pgd (indices w)"
    have "load8 (mem s5) (leaf_target ?e + (w AND 0xFFF)) = load8 (mem s4) (leaf_target ?e + (w AND 0xFFF))" if pr: "present ?e"
    proof -
      have e: "?e = leaf (mem s) pgd (indices w)" using s4(6) [rule_format, OF x] k2(2) [OF x] w(2) by simp
      have "leaf_target ?e \<noteq> ?p" using hp(10) sound_page(1) [OF snd x] pr e by simp
      moreover note o = sound_page(1) [OF s4(3) x pr]
      moreover note al = own_page_props(1) [OF rep_page_inv [OF s4(2)] o]
      ultimately show ?thesis
        using w5(2) by (intro load8_page [OF al _ page_offset_in [OF al]]) (simp add: keeps_pages_def)
    qed
    then have "user_byte (mem s5) pgd w = user_byte (mem s4) pgd w"
      using k5(2) [OF x] by (simp add: user_byte_def Let_def)
    then show ?thesis using s4(7) w k2(5) [OF snd w(1)] by simp
  qed
  have code: "user_byte (mem s5) pgd (USER_SIGNAL_STACK + of_nat i) = Some (signal_code ! i)" if i: "i < 8" for i
  proof -
    note a = signal_address(3) [OF i]
    have "leaf (mem s5) pgd (indices USER_SIGNAL_STACK) = leaf_entry (pa_of ?p) signal_prot"
      using k5(2) [OF user_index_indices [OF signal_address(1)]] s4(6) [rule_format, OF user_index_indices [OF signal_address(1)]] by simp
    moreover have "load8 (mem s5) (?p + of_nat i) = signal_code ! i"
      using signal_code_bytes [OF i, of ?p "load8 (mem s4)"] by (simp add: s5_def)
    ultimately show ?thesis
      using a leaf_entry_present leaf_entry_target [OF al prot] by (simp add: user_byte_def Let_def)
  qed
  have sp: "(USER_SIGNAL_STACK + STACK_SIZE) AND NOT 0xf = USER_SIGNAL_STACK + STACK_SIZE"
    by (simp add: USER_SIGNAL_STACK_def STACK_SIZE_def)
  have tk: "tasks s4 = (tasks s)(t := clear_pending sig ((tasks s t)\<lparr>t_signal_saved_tf := tframes s frame,
       t_signal_stack := ?p, t_is_handling_signal := 1\<rparr>))" "tp s4 = t" "tframes s4 = tframes s"
    using pf by (simp_all add: pf4 s3_def s1_def t_def)
  have pg: "t_pgd (tasks s3 t) = pgd" "tp s1 = t" using pf by (simp_all add: s3_def s1_def clear_pending_def pgd_def t_def)
  have kp: "kmalloc STACK_SIZE s1 = (?p, s2)" using b(1) by (simp add: s2_def prod_eq_iff)
  have mp: "map_pages (t_pgd (tasks s3 t)) USER_SIGNAL_STACK STACK_SIZE (pa_of ?p) (PAGE_USER OR PAGE_READ OR PAGE_WRITE OR PAGE_EXEC) s3 = Some s4"
    using s4(1) pg(1) by (simp add: STACK_SIZE_def signal_prot_def)
  have run: "signal_deliver frame sig handler s = Some s6"
    by (simp only: signal_deliver_def get_current_def Let_def t_def [symmetric] s1_def [symmetric] kp prod.case
        s3_def [symmetric] mp option.case s5_def [symmetric] sp s6_def handler_frame_def [abs_def])
  have fin: "tasks s5 = tasks s4" "tp s5 = tp s4" "tframes s5 = tframes s4" "owned s5 = owned s4" "idx_to_addr s5 = idx_to_addr s4"
    "page_pool_idx s5 = page_pool_idx s4" "ref_count s5 = ref_count s4" "buddy_total_pages s5 = buddy_total_pages s4"
    by (auto simp: s5_def owned_def idx_to_addr_def fun_eq_iff)
  have ap4: "heap_apart s4 pgd" by (rule heap_apart_kept [OF v3(1,3) s4(4)])
  have ap5: "heap_apart s5 pgd" using ap4 by (simp add: heap_apart_def fin k5(4))
  have "in_handler ch s6 b (tframes s frame)"
    using w5(1) k5(3,4) ap5 s4(5) ok4(3) pidx
    by (simp add: in_handler_def Let_def s6_def fin tk clear_pending_def addr4 pgd_def)
  moreover have "\<forall>x. user_index x \<longrightarrow> leaf (mem s6) pgd x =
       ((leaf (mem s) pgd)(indices USER_SIGNAL_STACK := leaf_entry (pa_of ?p) signal_prot)) x"
    using s4(6) k5(2) k2(2) by (simp add: s6_def)
  ultimately show thesis
    using that [of s6 b] run hp(2) ok4(4) snd5 other code by (simp add: s6_def fin tk)
qed


subsection \<open>Return\<close>

lemma free_heap_page:
  fixes s :: "'a kmalloc_state_scheme"
  assumes rep: "kmalloc_rep ch s" and b: "owned s b 0" "page_pool_idx s b = - 1" "ref_count s b \<le> 1"
  defines "s' \<equiv> kfree (idx_to_addr s b) s"
  shows "kmalloc_rep ch s'" "keeps_pages {idx_to_addr s b} s s'" "free_frames s' = insert b (free_frames s)"
proof -
  let ?s = "s\<lparr>sie := False\<rparr>" and ?p = "idx_to_addr s b"
  have eq: "s' = (buddy_free ?p ?s)\<lparr>sie := sie s\<rparr>" unfolding s'_def by (rule kfree_large [OF rep b(1,2)])
  have rep1: "kmalloc_rep ch ?s" "owned ?s b 0" "page_pool_idx ?s b = - 1" "ref_count ?s b \<le> 1" using rep b by simp_all
  note inv = rep_page_inv [OF rep1(1)]
  show "kmalloc_rep ch s'" using rep_free [OF rep1(1-3)] by (simp add: eq)
  have own: "own_page ?s ?p" using b(1) by (auto simp: own_page_def)
  show "keeps_pages {?p} s s'"
    unfolding keeps_pages_def
  proof (intro allI impI conjI)
    fix q assume "own_page s q \<and> q \<notin> {?p}"
    then have q: "own_page ?s q" "q \<noteq> ?p" by simp_all
    show "own_page s' q" using free_page_keeps(1) [OF inv own q] by (simp add: eq)
    show "mem s' c = mem s c" if "in_page q c" for c using free_page_keeps(2) [OF inv own q that] by (simp add: eq)
  qed
  have "free_effect ?s b 0 (buddy_free ?p ?s)" using buddy_free_last(1) [OF rep_D(1) [OF rep1(1)] rep1(2,4)] by simp
  moreover have "frames_of b 0 = {b}" by (auto simp: frames_of_def)
  ultimately show "free_frames s' = insert b (free_frames s)" by (simp add: free_effect_def eq)
qed

lemma sigreturn_run:
  fixes s :: "'a thread_sys_scheme" and frame :: u64
  defines "t \<equiv> tp s"
  defines "pgd \<equiv> t_pgd (tasks s t)"
  assumes h: "in_handler ch s b f" and r: "ref_count s b \<le> 1"
  defines "s' \<equiv> do_sigreturn frame s"
  shows "tframes s' = (tframes s)(frame := f)" "tp s' = t"
    "tasks s' = (tasks s)(t := (tasks s t)\<lparr>t_signal_stack := NULL, t_is_handling_signal := 0\<rparr>)"
    "kmalloc_rep ch s'" "wf_space s' pgd" "free_frames s' = insert b (free_frames s)"
    "user_index x \<Longrightarrow> leaf (mem s') pgd x = ((leaf (mem s) pgd)(indices USER_SIGNAL_STACK := 0)) x"
    "keeps_pages (insert (idx_to_addr s b) (tables (mem s) pgd)) s s'"
proof -
  let ?p = "idx_to_addr s b"
  have H: "kmalloc_rep ch s" "wf_space s pgd" "heap_apart s pgd" "t_signal_stack (tasks s t) = ?p" "t_signal_saved_tf (tasks s t) = f"
    "owned s b 0" "page_pool_idx s b = - 1" "?p \<notin> tables (mem s) pgd"
    using h by (simp_all add: in_handler_def Let_def t_def pgd_def)
  define s1 where "s1 = upd_frame frame (\<lambda>_. f) s"
  define s2 where "s2 = unmap_page pgd USER_SIGNAL_STACK s1"
  define s3 where "s3 = kfree ?p s2"
  have H1: "kmalloc_rep ch s1" "wf_space s1 pgd" "heap_apart s1 pgd" "owned s1 b 0" "page_pool_idx s1 b = - 1" "ref_count s1 b \<le> 1"
    "idx_to_addr s1 = idx_to_addr s" "mem s1 = mem s" using H r by (simp_all add: s1_def)
  note u = unmap_page_step [OF rep_page_inv [OF H1(1)] H1(2) signal_address(1), folded s2_def]
  have rep2: "kmalloc_rep ch s2" by (rule others_kept_rep [OF H1(1) u(1) H1(3) u(3)])
  have am: "address_map s2 = address_map s1" and more: "buddy_state.more s2 = buddy_state.more s1"
    using u(3) by (simp_all add: others_kept_def)
  note f2 = page_thread_fields [OF more] and addr2 = address_map_eqD(1) [OF am]
  have H2: "owned s2 b 0" "page_pool_idx s2 b = - 1" "ref_count s2 b \<le> 1"
    using u(3) H1(4-6) more_fields(2) [OF more] block_head [of b 0] unfolding others_kept_def by auto
  note fr = free_heap_page [OF rep2 H2, unfolded addr2 H1(7), folded s3_def]
  have own: "own_page s1 ?p" using H1(4,7) by (auto simp: own_page_def)
  have "?p \<notin> tables (mem s2) pgd"
    using u(3) own H(8) unfolding others_kept_def tables_def H1(8) by blast
  then have disj: "tables (mem s2) pgd \<inter> {?p} = {}" by simp
  note k3 = keeps_tables [OF u(1,2) fr(2) disj]
  have more3: "kmalloc_state.more s3 = kmalloc_state.more s2" by (simp add: s3_def)
  note f3 = thread_fields [OF more3]
  have tf3: "tframes s3 = tframes s2" using more3 by (cases s3; cases s2; simp)
  have nn: "?p \<noteq> NULL" by (rule owned_addr(1) [OF rep_D(1) [OF H(1)] H(6) block_head])
  have eq: "s' = upd_task t (\<lambda>x. x\<lparr>t_is_handling_signal := 0\<rparr>) (upd_task t (\<lambda>x. x\<lparr>t_signal_stack := NULL\<rparr>) s3)"
  proof -
    have "t_signal_stack (tasks s1 t) = ?p" "t_pgd (tasks s1 t) = pgd" using H(4) by (simp_all add: s1_def pgd_def)
    then show ?thesis
      using nn by (simp add: s'_def do_sigreturn_def get_current_def Let_def t_def [symmetric] H(4,5) s1_def [symmetric]
        s2_def [symmetric] s3_def [symmetric])
  qed
  have t1: "tasks s1 = tasks s" "tframes s1 = (tframes s)(frame := f)" "tp s1 = t" by (simp_all add: s1_def t_def)
  show "tframes s' = (tframes s)(frame := f)" "tp s' = t"
    "tasks s' = (tasks s)(t := (tasks s t)\<lparr>t_signal_stack := NULL, t_is_handling_signal := 0\<rparr>)"
    by (simp_all add: eq tf3 f3 f2 t1)
  show "kmalloc_rep ch s'" "wf_space s' pgd" using fr(1) k3(3) by (simp_all add: eq)
  have "free_frames s2 = free_frames s"
    by (auto simp: s2_def s1_def unmap_page_def Let_def)
  then show "free_frames s' = insert b (free_frames s)" using fr(3) by (simp add: eq)
  show "leaf (mem s') pgd x = ((leaf (mem s) pgd)(indices USER_SIGNAL_STACK := 0)) x" if "user_index x"
    using k3(2) [OF that] u(4) [OF that] by (simp add: eq H1(8))
  have "keeps_pages (tables (mem s) pgd) s1 s2" using others_kept_pages [OF u(3)] by (simp add: H1(8))
  from keeps_pages_trans [OF this fr(2)] show "keeps_pages (insert ?p (tables (mem s) pgd)) s s'"
    by (simp add: keeps_pages_def eq H1(8)) (simp add: s1_def)
qed


lemma first_pending_nonzero: "first_pending p = Some sig \<Longrightarrow> p \<noteq> 0"
  by (auto simp: first_pending_def find_Some_iff)

lemma signal_check_deliver:
  assumes "tf_sstatus (tframes s frame) AND push_bit 8 1 = 0" "t_is_handling_signal (tasks s (tp s)) = 0"
    and "first_pending (t_pending_signals (tasks s (tp s))) = Some sig" "t_signal_handlers (tasks s (tp s)) sig \<noteq> NULL"
  shows "signal_check frame s = signal_deliver frame sig (t_signal_handlers (tasks s (tp s)) sig) s"
  using assms first_pending_nonzero [OF assms(3)] by (simp add: signal_check_def get_current_def Let_def)

lemma in_handler_frame:
  "in_handler ch (upd_frame frame g s) b f = in_handler ch s b f"
  by (simp add: in_handler_def Let_def)

subsection \<open>Properties\<close>



lemma alloc_page_more [simp]: "buddy_state.more (snd (alloc_page s)) = buddy_state.more s"
  by (simp add: alloc_page_def split_def Let_def more_alloc)

text \<open>A root table without entries is the only table of its space.\<close>

lemma sole_table:
  assumes "\<And>i. i < 256 \<Longrightarrow> \<not> present (m (entry_at pgd i))"
  shows "tables m pgd = {pgd}"
proof -
  have "p = []" if "user_path p" "table_at m pgd p = Some t" for p t
  proof (cases p)
    case (Cons i q)
    then have "i < 256" using that(1) by (simp add: user_path_def)
    then show ?thesis using assms [of i] that(2) Cons by simp
  qed simp
  then have "t = pgd" if "user_path p" "table_at m pgd p = Some t" for p t using that by fastforce
  moreover have "user_path []" "table_at m pgd [] = Some pgd" by (simp_all add: user_path_def)
  ultimately show ?thesis unfolding tables_def by blast
qed

text \<open>A thread of the booted machine with an empty address space, a handler, and signal 1 pending.\<close>

definition signalled :: thread_sys where
  "signalled = upd_task 0 (\<lambda>x. x\<lparr>t_pgd := fst (alloc_page boot_sys), t_signal_handlers := (\<lambda>_. 0x400), t_pending_signals := 2\<rparr>)
     (snd (alloc_page boot_sys))"

lemma signalled_ok:
  "kmalloc_inv signalled" "sound_space signalled (t_pgd (tasks signalled (tp signalled)))"
  "heap_apart signalled (t_pgd (tasks signalled (tp signalled)))" "3 \<le> card (free_frames signalled)"
  "user_index x \<Longrightarrow> leaf (mem signalled) (t_pgd (tasks signalled (tp signalled))) x = 0"
proof -
  obtain ch where rep: "kmalloc_rep ch boot_sys" using boot_sys_inv by (auto simp: kmalloc_inv_def)
  note inv = rep_page_inv [OF rep]
  have "free_frames boot_sys = free_frames boot_heap"
    by (simp add: boot_sys_def kmalloc_state.extend_def free_frames_def)
  then have card: "9 \<le> card (free_frames boot_sys)" using boot_heap_ok(2) by simp
  define s1 where "s1 = snd (alloc_page boot_sys)"
  have "free_frames boot_sys \<noteq> {}" using card by auto
  then obtain b where b: "fst (alloc_page boot_sys) = idx_to_addr boot_sys b" "page_taken boot_sys b s1"
    using alloc_page_cases [OF inv] by (auto simp: s1_def)
  note fs = fresh_space [OF inv b(2)]
  let ?pgd = "idx_to_addr boot_sys b"
  have more: "buddy_state.more s1 = buddy_state.more boot_sys" and am: "address_map s1 = address_map boot_sys"
    and bf: "b \<in> free_frames boot_sys" "owned s1 b 0" "free_frames s1 = free_frames boot_sys - {b}" and inv1: "page_inv s1"
    using b(2) by (simp_all add: page_taken_def)
  have rep1: "kmalloc_rep ch s1"
    by (rule keeps_rep [OF rep inv1 keeps_pages_taken [OF inv b(2)] _ am more]) simp
  have zero: "leaf (mem s1) ?pgd x = 0" if "user_index x" for x using fs(2) that by blast
  have snd: "sound_space s1 ?pgd" using fs(1) zero by (auto simp: sound_space_def)
  have pidx: "page_pool_idx s1 b = - 1"
  proof (rule ccontr)
    assume n: "page_pool_idx s1 b \<noteq> - 1"
    then have "page_pool_idx boot_sys b \<noteq> - 1" using more_fields(2) [OF more] by simp
    then have "owned boot_sys b 0" using rep_D(4) [OF rep] bf(1) by (fastforce simp: pool_pages_def free_frames_def)
    then show False using owned_not_free [OF rep_D(1) [OF rep]] bf(1) block_head [of b 0] by blast
  qed
  have tabs: "tables (mem s1) ?pgd = {?pgd}"
    using fs(5) by (intro sole_table) simp
  have ap: "heap_apart s1 ?pgd"
    unfolding heap_apart_def tabs
  proof (intro allI impI)
    fix c assume c: "c < buddy_total_pages s1" "idx_to_addr s1 c \<in> {?pgd}"
    then have "b = c" using idx_eq_owned [OF rep_D(1) [OF rep1] bf(2) c(1)] address_map_eqD(1) [OF am] by simp
    then show "page_pool_idx s1 c = - 1" using pidx by simp
  qed
  have t: "tp signalled = 0" "t_pgd (tasks signalled 0) = ?pgd"
    using page_thread_fields(3) [OF more] b(1) by (simp_all add: signalled_def s1_def [symmetric]) (simp add: boot_sys_def kmalloc_state.extend_def)
  show "kmalloc_inv signalled" "sound_space signalled (t_pgd (tasks signalled (tp signalled)))"
    "heap_apart signalled (t_pgd (tasks signalled (tp signalled)))"
    "user_index x \<Longrightarrow> leaf (mem signalled) (t_pgd (tasks signalled (tp signalled))) x = 0"
    unfolding t using rep1 snd ap zero by (auto simp: signalled_def s1_def [symmetric] kmalloc_inv_def)
  show "3 \<le> card (free_frames signalled)"
    using card bf by (simp add: signalled_def s1_def [symmetric] card_Diff_singleton_if)
qed


end
