(* ===== verification/Fork_Spec.thy ===== *)
theory Fork_Spec
  imports Process_Spec
begin

text \<open>
  The copy-on-write duplication of an address space by \<^verbatim>\<open>do_fork\<close>. The relation \<open>fork_inv\<close> says what
  holds after the leaves in \<open>D\<close> have been copied and the tables on the paths in \<open>L\<close> exist in the
  child; the three nested loops extend \<open>D\<close> and \<open>L\<close> step by step.
\<close>

subsection \<open>One entry\<close>

definition user_leaf :: "u64 \<Rightarrow> bool" where "user_leaf e \<longleftrightarrow> present e \<and> e AND PAGE_USER \<noteq> 0"

definition read_only :: "u64 \<Rightarrow> u64" where "read_only e = e AND NOT PAGE_WRITE"

lemma read_only_flags:
  "present (read_only e) = present e" "read_only e AND PAGE_USER = e AND PAGE_USER" "leaf_target (read_only e) = leaf_target e"
proof -
  have "NOT PAGE_WRITE AND PAGE_PRESENT = PAGE_PRESENT" "NOT PAGE_WRITE AND PAGE_USER = PAGE_USER" by (simp_all add: page_flags)
  then have f: "read_only e AND PAGE_PRESENT = e AND PAGE_PRESENT" "read_only e AND PAGE_USER = e AND PAGE_USER"
    unfolding read_only_def by (simp_all only: and.assoc)
  have "bit PAGE_WRITE n \<longleftrightarrow> n = 2" for n
  proof -
    have "bit (push_bit 2 1 :: u64) n \<longleftrightarrow> n = 2" unfolding bit_push_bit_iff by (auto simp: bit_1_iff)
    then show ?thesis by (simp add: page_flags)
  qed
  then have "entry_page (read_only e) = entry_page e"
    unfolding entry_page_def read_only_def by (intro bit_eqI) (auto simp: bit_simps)
  then show "present (read_only e) = present e" "read_only e AND PAGE_USER = e AND PAGE_USER" "leaf_target (read_only e) = leaf_target e"
    using f by (simp_all add: present_def leaf_target_def)
qed

definition parent_leaf :: "u64 \<Rightarrow> u64" where "parent_leaf e = (if user_leaf e then read_only e else e)"
definition child_leaf :: "u64 \<Rightarrow> u64" where "child_leaf e = (if user_leaf e then read_only e else 0)"

text \<open>The leaves of a set that point to frame \<open>b\<close>.\<close>

definition refs :: "'a buddy_state_scheme \<Rightarrow> u64 \<Rightarrow> (nat \<times> nat \<times> nat) set \<Rightarrow> nat \<Rightarrow> (nat \<times> nat \<times> nat) set" where
  "refs s P D b = {x \<in> D. user_leaf (leaf (mem s) P x) \<and> leaf_target (leaf (mem s) P x) = idx_to_addr s b}"

subsection \<open>The invariant of the copy\<close>

definition fork_inv ::
  "'a buddy_state_scheme \<Rightarrow> u64 \<Rightarrow> u64 \<Rightarrow> nat list set \<Rightarrow> (nat \<times> nat \<times> nat) set \<Rightarrow> 'a buddy_state_scheme \<Rightarrow> bool" where
  "fork_inv s P C L D s' \<longleftrightarrow>
     page_inv s' \<and> keeps_pages (insert C (tables (mem s) P)) s s' \<and> (\<forall>b. owned s b 0 \<longrightarrow> owned s' b 0) \<and>
     address_map s' = address_map s \<and> buddy_state.more s' = buddy_state.more s \<and>
     (\<forall>p. user_path p \<longrightarrow> table_at (mem s') P p = table_at (mem s) P p) \<and>
     (\<forall>x. user_index x \<longrightarrow> leaf (mem s') P x = (if x \<in> D then parent_leaf (leaf (mem s) P x) else leaf (mem s) P x)) \<and>
     wf_space s' C \<and> (\<forall>x. user_index x \<longrightarrow> leaf (mem s') C x = (if x \<in> D then child_leaf (leaf (mem s) P x) else 0)) \<and>
     (\<forall>t\<in>tables (mem s') C. t = C \<or> \<not> own_page s t) \<and>
     (\<forall>p. user_path p \<and> p \<notin> L \<longrightarrow> table_at (mem s') C p = None) \<and>
     (\<forall>b. owned s b 0 \<longrightarrow> ref_count s' b = ref_count s b + int (card (refs s P D b)))"

lemma fork_invD:
  assumes "fork_inv s P C L D s'"
  shows "page_inv s'" "keeps_pages (insert C (tables (mem s) P)) s s'" "owned s b 0 \<Longrightarrow> owned s' b 0"
    "address_map s' = address_map s" "buddy_state.more s' = buddy_state.more s"
    "user_path p \<Longrightarrow> table_at (mem s') P p = table_at (mem s) P p"
    "user_index x \<Longrightarrow> leaf (mem s') P x = (if x \<in> D then parent_leaf (leaf (mem s) P x) else leaf (mem s) P x)"
    "wf_space s' C" "user_index x \<Longrightarrow> leaf (mem s') C x = (if x \<in> D then child_leaf (leaf (mem s) P x) else 0)"
    "t \<in> tables (mem s') C \<Longrightarrow> t = C \<or> \<not> own_page s t" "user_path p \<Longrightarrow> p \<notin> L \<Longrightarrow> table_at (mem s') C p = None"
    "owned s b 0 \<Longrightarrow> ref_count s' b = ref_count s b + int (card (refs s P D b))"
  using assms unfolding fork_inv_def by (metis, metis, metis, metis, metis, metis, metis, metis, metis, metis, metis, metis)

text \<open>The starting point: the parent is sound, the child an empty space of its own.\<close>

definition fork_start :: "'a buddy_state_scheme \<Rightarrow> u64 \<Rightarrow> u64 \<Rightarrow> bool" where
  "fork_start s P C \<longleftrightarrow> page_inv s \<and> sound_space s P \<and> wf_space s C \<and> tables (mem s) C = {C} \<and> unseen s {C} P"

lemma fork_inv_start: "fork_start s P C \<Longrightarrow> fork_inv s P C {[]} {} s"
proof -
  assume a: "fork_start s P C"
  have none: "table_at (mem s) C p = None" if p: "user_path p" "p \<noteq> []" for p
  proof (rule ccontr)
    assume "table_at (mem s) C p \<noteq> None"
    then obtain t where t: "table_at (mem s) C p = Some t" by auto
    then have "t = C" using a p(1) unfolding fork_start_def tables_def by blast
    moreover have "user_path []" "table_at (mem s) C [] = Some C" by (simp_all add: user_path_def)
    ultimately have "p = []" using wf_inj [of s C p "[]" C] a t p(1) by (simp add: fork_start_def)
    then show False using p(2) by simp
  qed
  have "leaf (mem s) C x = 0" if "user_index x" for x
    using that
  proof (rule leaf_cases)
    fix i j k assume x: "x = (i, j, k)" "user_path [i, j]" "k < 512"
    then show ?thesis using none [OF x(2)] by (simp add: leaf_def del: table_at.simps)
  qed
  then show ?thesis
    using a none by (auto simp: fork_inv_def fork_start_def keeps_pages_def refs_def)
qed

text \<open>A new page is an empty space that the parent does not use.\<close>

lemma fork_start_alloc:
  assumes inv: "page_inv s" and snd: "sound_space s P" and room: "free_frames s \<noteq> {}"
  shows "fork_start (snd (alloc_page s)) P (fst (alloc_page s))"
proof -
  obtain b where b: "fst (alloc_page s) = idx_to_addr s b" "page_taken s b (snd (alloc_page s))"
    using alloc_page_cases [OF inv] room by auto
  let ?s = "snd (alloc_page s)" and ?C = "idx_to_addr s b"
  have wf: "wf_space s P" using snd by (simp add: sound_space_def)
  note k = keeps_space [OF inv wf keeps_pages_taken [OF inv b(2)] unseen_empty] and f = fresh_space [OF inv b(2)]
  have C: "q \<noteq> ?C" if "own_page s q" for q by (rule page_taken_keeps(2) [OF inv b(2) that])
  have "unseen ?s {?C} P"
    unfolding unseen_def
  proof (intro conjI allI impI)
    fix q assume q: "user_path q"
    show "\<forall>t\<in>{?C}. table_at (mem ?s) P q \<noteq> Some t" using k(1) [OF q] wf_owned [OF wf q] C by auto
  next
    fix x assume "user_index x \<and> present (leaf (mem ?s) P x)"
    then have "leaf (mem ?s) P x = leaf (mem s) P x" "own_page s (leaf_target (leaf (mem s) P x))"
      using k(2) [of x] sound_page(1) [OF snd, of x] by simp_all
    then show "leaf_target (leaf (mem ?s) P x) \<notin> {?C}" using C by simp
  qed
  moreover have "tables (mem ?s) ?C = {?C}" using f(5) by (intro sole_table) simp
  ultimately show ?thesis
    using k(4) [OF snd] f(1) page_taken_page(3) [OF inv b(2)] by (simp add: fork_start_def b(1))
qed

lemma fork_parent:
  assumes st: "fork_start s P C" and I: "fork_inv s P C L D s'"
  shows "wf_space s' P" "tables (mem s') P = tables (mem s) P" "tables (mem s') C \<inter> tables (mem s) P = {}"
    "idx_to_addr s' = idx_to_addr s"
proof -
  note d = fork_invD [OF I]
  have snd: "sound_space s P" and wf: "wf_space s P" using st by (simp_all add: fork_start_def sound_space_def)
  have own: "own_page s q \<Longrightarrow> own_page s' q" for q
    using d(3) address_map_eqD(1) [OF d(4)] by (auto simp: own_page_def)
  show "wf_space s' P" unfolding wf_space_def using wf d(6) own unfolding wf_space_def by metis
  show t: "tables (mem s') P = tables (mem s) P" using d(6) unfolding tables_def by auto
  have "t \<noteq> C" "own_page s t" if "t \<in> tables (mem s) P" for t
    using that st wf_owned [OF wf] unfolding fork_start_def unseen_def tables_def by blast+
  then show "tables (mem s') C \<inter> tables (mem s) P = {}" using d(10) by blast
  show "idx_to_addr s' = idx_to_addr s" by (rule address_map_eqD(1) [OF d(4)])
qed


subsection \<open>One leaf\<close>

lemma refs_insert:
  "refs s P (insert x D) b =
     (if user_leaf (leaf (mem s) P x) \<and> leaf_target (leaf (mem s) P x) = idx_to_addr s b then insert x (refs s P D b)
      else refs s P D b)"
  by (auto simp: refs_def)

lemma fork_inv_skip:
  assumes I: "fork_inv s P C L D s'" and X: "\<forall>x\<in>X. x \<notin> D \<and> \<not> user_leaf (leaf (mem s) P x)"
  shows "fork_inv s P C L (D \<union> X) s'"
proof -
  have r: "refs s P (D \<union> X) b = refs s P D b" for b using X by (auto simp: refs_def)
  have x: "parent_leaf (leaf (mem s) P x) = leaf (mem s) P x" "child_leaf (leaf (mem s) P x) = 0" "x \<notin> D" if "x \<in> X" for x
    using that X by (auto simp: parent_leaf_def child_leaf_def)
  show ?thesis using I x unfolding fork_inv_def r by auto
qed

lemma fork_leaf_step:
  assumes st: "fork_start s P C" and I: "fork_inv s P C L D s'" and fin: "finite D"
    and ij: "user_path [i, j]" and k: "k < 512" and t: "table_at (mem s) P [i, j] = Some t"
    and u: "table_at (mem s') C [i, j] = Some u" and new: "(i, j, k) \<notin> D"
  shows "fork_inv s P C L (insert (i, j, k) D) (fork_leaf t u k s')" 
    and "\<forall>q. user_path q \<longrightarrow> table_at (mem (fork_leaf t u k s')) C q = table_at (mem s') C q"
proof -
  let ?x = "(i, j, k)"
  note d = fork_invD [OF I] and par = fork_parent [OF st I]
  have ux: "user_index ?x" using ij k by (auto simp: user_index_def user_path_def)
  have t': "table_at (mem s') P [i, j] = Some t" using d(6) [OF ij] t by simp
  define e where "e = leaf (mem s) P ?x"
  have "leaf (mem s') P ?x = e" using d(7) [OF ux] new by (simp add: e_def)
  then have cell: "mem s' (entry_at t k) = e" using t' by (simp add: leaf_def del: table_at.simps)
  have "fork_inv s P C L (insert ?x D) (fork_leaf t u k s') \<and>
      (\<forall>q. user_path q \<longrightarrow> table_at (mem (fork_leaf t u k s')) C q = table_at (mem s') C q)"
  proof (cases "user_leaf e")
    case False
    then have "fork_leaf t u k s' = s'" by (auto simp: fork_leaf_def cell user_leaf_def)
    then show ?thesis
      using fork_inv_skip [OF I, of "{?x}"] new False u by (simp add: e_def)
  next
    case True
    have snd: "sound_space s P" and inv: "page_inv s" using st by (simp_all add: fork_start_def)
    obtain b0 where b0: "leaf_target e = idx_to_addr s b0" "owned s b0 0"
      using sound_page(1) [OF snd ux] True by (auto simp: own_page_def user_leaf_def e_def)
    define s1 where "s1 = s'\<lparr>mem := (mem s')(entry_at t k := read_only e)\<rparr>"
    note w1 = write_beside [OF d(1) par(1) d(8) _ ij k t', where e = "read_only e", folded s1_def]
    have dis: "tables (mem s') P \<inter> tables (mem s') C = {}" using par(2,3) by blast
    note w1 = w1 [OF dis]
    have own1: "owned s1 b0 0" using d(3) [OF b0(2)] by (simp add: s1_def owned_def)
    have inv1: "buddy_inv s1" using w1(1) by (simp add: page_inv_def)
    define r where "r = (ref_count s1)(b0 := ref_count s1 b0 + 1)"
    define s2 where "s2 = s1\<lparr>ref_count := r\<rparr>"
    have idx: "idx_to_addr s1 = idx_to_addr s" using par(4) by (simp add: s1_def)
    have s2: "get_page_ref (leaf_target e) s1 = s2"
      using get_page_ref_owned [OF inv1 own1, of b0] unfolding b0(1) s2_def r_def idx by (simp add: frames_of_def)
    have "buddy_inv s2" unfolding s2_def by (rule buddy_inv_refs [OF inv1]) (auto simp: r_def)
    then have inv2: "page_inv s2" using w1(1) by (simp add: page_inv_def s2_def)
    have wf2: "wf_space s2 C" "wf_space s2 P" using w1(2,3) by (simp_all add: s2_def wf_space_def)
    have m2: "mem s2 = mem s1" by (simp add: s2_def)
    have u2: "table_at (mem s2) C [i, j] = Some u" using w1(5) [OF ij] u by (simp add: m2)
    have dis2: "tables (mem s2) C \<inter> tables (mem s2) P = {}" using w1(9,10) dis by (auto simp: m2)
    define s3 where "s3 = s2\<lparr>mem := (mem s2)(entry_at u k := read_only e)\<rparr>"
    note w3 = write_beside [OF inv2 wf2(1,2) dis2 ij k u2, where e = "read_only e", folded s3_def, unfolded m2]
    have "mem s1 (entry_at t k) = read_only e" "s'\<lparr>mem := (mem s')(entry_at t k := e AND NOT PAGE_WRITE)\<rparr> = s1"
      by (simp_all add: s1_def read_only_def)
    then have run: "fork_leaf t u k s' = s3"
      using True s2 by (simp add: fork_leaf_def cell user_leaf_def s3_def Let_def m2
          leaf_target_def [symmetric] read_only_flags)
    have tT: "t \<in> tables (mem s) P" using ij t unfolding tables_def by blast
    have uT: "u = C \<or> \<not> own_page s u" using d(10) ij u unfolding tables_def by blast
    have own: "own_page s3 = own_page s'" by (simp add: s3_def s2_def s1_def)
    have kp: "keeps_pages (insert C (tables (mem s) P)) s s3"
      unfolding keeps_pages_def
    proof (intro allI impI)
      fix q assume q: "own_page s q \<and> q \<notin> insert C (tables (mem s) P)"
      then have q': "own_page s' q" "\<forall>c. in_page q c \<longrightarrow> mem s' c = mem s c" "q \<noteq> t" "q \<noteq> u"
        using d(2) tT uT unfolding keeps_pages_def by blast+
      then have "own_page s1 q" "\<forall>c. in_page q c \<longrightarrow> mem s1 c = mem s' c" using w1(8) unfolding keeps_pages_def by blast+
      moreover from this have "\<forall>c. in_page q c \<longrightarrow> mem s3 c = mem s1 c"
        using w3(8) q'(4) unfolding keeps_pages_def by (simp add: s2_def)
      ultimately show "own_page s3 q \<and> (\<forall>c. in_page q c \<longrightarrow> mem s3 c = mem s c)" using q' own by simp
    qed
    have pT: "table_at (mem s3) P q = table_at (mem s) P q" if "user_path q" for q
      using w3(5) [OF that] w1(4) [OF that] d(6) [OF that] by simp
    have cT: "table_at (mem s3) C q = table_at (mem s') C q" if "user_path q" for q
      using w3(4) [OF that] w1(5) [OF that] by simp
    have pL: "leaf (mem s3) P y = (if y \<in> insert ?x D then parent_leaf (leaf (mem s) P y) else leaf (mem s) P y)"
      if "user_index y" for y
      using w3(7) [OF that] w1(6) [OF that] d(7) [OF that] True by (simp add: e_def [symmetric] parent_leaf_def)
    have cL: "leaf (mem s3) C y = (if y \<in> insert ?x D then child_leaf (leaf (mem s) P y) else 0)"
      if "user_index y" for y
      using w3(6) [OF that] w1(7) [OF that] d(9) [OF that] True by (simp add: e_def [symmetric] child_leaf_def)
    have "ref_count s3 b = ref_count s b + int (card (refs s P (insert ?x D) b))" if b: "owned s b 0" for b
    proof -
      have "idx_to_addr s b0 = idx_to_addr s b \<longleftrightarrow> b = b0"
        using idx_eq_owned [of s b0 0 b] b0(2) owned_index [OF b] inv by (auto simp: page_inv_def)
      moreover have "finite (refs s P D b)" "?x \<notin> refs s P D b" using fin new by (auto simp: refs_def)
      ultimately show ?thesis
        using d(12) [OF b] True b0(1) by (cases "b = b0") (simp_all add: refs_insert e_def [symmetric] s3_def s2_def r_def s1_def)
    qed
    moreover have "tables (mem s3) C = tables (mem s') C" using cT unfolding tables_def by auto
    moreover have "address_map s3 = address_map s" "buddy_state.more s3 = buddy_state.more s" "\<And>b. owned s b 0 \<Longrightarrow> owned s3 b 0"
      using d(3-5) by (simp_all add: s3_def s2_def s1_def owned_def)
    ultimately have "fork_inv s P C L (insert ?x D) s3"
      using kp pT pL cL cT w3(1,2) d(10,11) unfolding fork_inv_def by auto
    then show ?thesis using run cT by simp
  qed
  then show "fork_inv s P C L (insert ?x D) (fork_leaf t u k s')" "\<forall>q. user_path q \<longrightarrow> table_at (mem (fork_leaf t u k s')) C q = table_at (mem s') C q"
    by blast+
qed


lemma fork_leaves_step:
  assumes st: "fork_start s P C" and I: "fork_inv s P C L D s'" and fin: "finite D"
    and ij: "user_path [i, j]" and t: "table_at (mem s) P [i, j] = Some t"
    and u: "table_at (mem s') C [i, j] = Some u" and new: "\<forall>k. (i, j, k) \<notin> D" and n: "n \<le> 512"
  shows "fork_inv s P C L (D \<union> (\<lambda>k. (i, j, k)) ` {..<n}) (fold (fork_leaf t u) [0..<n] s') \<and>
    (\<forall>q. user_path q \<longrightarrow> table_at (mem (fold (fork_leaf t u) [0..<n] s')) C q = table_at (mem s') C q)"
  using n
proof (induction n)
  case (Suc n)
  let ?D = "D \<union> (\<lambda>k. (i, j, k)) ` {..<n}" and ?s = "fold (fork_leaf t u) [0..<n] s'"
  have h: "fork_inv s P C L ?D ?s" "\<forall>q. user_path q \<longrightarrow> table_at (mem ?s) C q = table_at (mem s') C q" and n: "n < 512"
    using Suc by auto
  then have u': "table_at (mem ?s) C [i, j] = Some u" using u ij by (simp del: table_at.simps)
  have "(i, j, n) \<notin> ?D" "finite ?D" using new fin by auto
  then show ?case
    using fork_leaf_step [OF st h(1) _ ij n t u'] h(2) by (simp add: lessThan_Suc)
qed (use I in simp)


subsection \<open>One table\<close>

lemma fork_link:
  assumes st: "fork_start s P C" and I: "fork_inv s P C L D s'" and pi: "user_path (p @ [i])" and new: "p @ [i] \<notin> L"
    and t: "table_at (mem s') C p = Some t" and taken: "page_taken s' b s1"
  defines "r \<equiv> idx_to_addr s' b"
  defines "s2 \<equiv> s1\<lparr>mem := (mem s1)(entry_at t i := table_entry (pa_of r))\<rparr>"
  shows "fork_inv s P C (insert (p @ [i]) L) D s2" "table_at (mem s2) C (p @ [i]) = Some r"
    and "user_path q \<Longrightarrow> q \<noteq> p @ [i] \<Longrightarrow> table_at (mem s2) C q = table_at (mem s') C q"
proof -
  note d = fork_invD [OF I] and par = fork_parent [OF st I]
  have "table_at (mem s') C (p @ [i]) = None" by (rule d(11) [OF pi new])
  then have absent: "\<not> present (mem s' (entry_at t i))" using t by (auto simp: table_at_append split: if_splits)
  note g = grow_tables [OF d(1,8) pi t absent taken, folded r_def, folded s2_def]
  show r: "table_at (mem s2) C (p @ [i]) = Some r" by (rule g(3))
  show old: "user_path q \<Longrightarrow> q \<noteq> p @ [i] \<Longrightarrow> table_at (mem s2) C q = table_at (mem s') C q" for q by (rule g(4))
  have kp: "keeps_pages (tables (mem s') C) s' s2" by (rule others_kept_pages [OF g(6)])
  have "tables (mem s') P \<inter> tables (mem s') C = {}" using par(2,3) by blast
  note P = keeps_tables [OF d(1) par(1) kp this]
  have o: "owned s' c k \<longrightarrow> owned s2 c k \<and> (\<forall>i\<in>frames_of c k. ref_count s2 i = ref_count s' i)" for c k
    using g(6) unfolding others_kept_def by blast
  have f: "address_map s2 = address_map s'" "buddy_state.more s2 = buddy_state.more s'"
    using g(6) unfolding others_kept_def by blast+
  have own1: "own_page s q \<Longrightarrow> own_page s' q" for q
    using d(3) par(4) by (auto simp: own_page_def)
  have "keeps_pages (insert C (tables (mem s) P)) s s2"
    unfolding keeps_pages_def
  proof (intro allI impI)
    fix q assume q: "own_page s q \<and> q \<notin> insert C (tables (mem s) P)"
    then have "own_page s' q" "\<forall>c. in_page q c \<longrightarrow> mem s' c = mem s c" "q \<notin> tables (mem s') C"
      using d(2,10) unfolding keeps_pages_def by blast+
    then show "own_page s2 q \<and> (\<forall>c. in_page q c \<longrightarrow> mem s2 c = mem s c)" using kp unfolding keeps_pages_def by simp
  qed
  moreover have "w = C \<or> \<not> own_page s w" if w: "w \<in> tables (mem s2) C" for w
  proof -
    obtain q where "user_path q" "table_at (mem s2) C q = Some w" using w unfolding tables_def by blast
    then have "table_at (mem s') C q = Some w \<or> \<not> own_page s' w" using g(6) unfolding others_kept_def by blast
    then show ?thesis using d(10) own1 \<open>user_path q\<close> unfolding tables_def by blast
  qed
  moreover have "ref_count s2 c = ref_count s c + int (card (refs s P D c))" "owned s2 c 0" if "owned s c 0" for c
    using o [of c 0] d(3,12) [OF that] by (auto simp: frames_of_def)
  ultimately show "fork_inv s P C (insert (p @ [i]) L) D s2"
    unfolding fork_inv_def using P(1,2) g(1,2,4,5) d(4-7,9,11) f by simp
qed


subsection \<open>The loops\<close>

lemma until_fail_inv:
  assumes step: "\<forall>n s. m \<le> n \<and> n < N \<and> I n s \<longrightarrow>
      (if fst (f n s) then I (Suc n) (snd (f n s)) else E (snd (f n s)))"
  shows "I m s \<Longrightarrow> m \<le> N \<Longrightarrow>
    (if fst (until_fail f [m..<N] s) then I N (snd (until_fail f [m..<N] s)) else E (snd (until_fail f [m..<N] s)))"
  using step
proof (induction "N - m" arbitrary: m s)
  case (Suc d)
  then have m: "m < N" by simp
  obtain ok s1 where f: "f m s = (ok, s1)" by (cases "f m s")
  have one: "if ok then I (Suc m) s1 else E s1"
    using Suc.prems(3) [rule_format, of m s] Suc.prems(1) m unfolding f by (simp split: if_splits)
  show ?case
  proof (cases ok)
    case True
    have "\<forall>n s. Suc m \<le> n \<and> n < N \<and> I n s \<longrightarrow> (if fst (f n s) then I (Suc n) (snd (f n s)) else E (snd (f n s)))"
      using Suc.prems(3) by simp
    then have "if fst (until_fail f [Suc m..<N] s1) then I N (snd (until_fail f [Suc m..<N] s1))
        else E (snd (until_fail f [Suc m..<N] s1))"
      using Suc.hyps one True m by (intro Suc.hyps(1)) auto
    then show ?thesis using True by (simp add: upt_conv_Cons [OF m] f)
  next
    case False
    then show ?thesis using one by (simp add: upt_conv_Cons [OF m] f)
  qed
qed simp

text \<open>The leaves and the paths the loops have passed when they reach \<open>i\<close> and \<open>j\<close>.\<close>

definition leaves_below :: "nat \<Rightarrow> nat \<Rightarrow> (nat \<times> nat \<times> nat) set" where
  "leaves_below i j = {(a, b, c). (a < i \<or> a = i \<and> b < j) \<and> b < 512 \<and> c < 512}"

definition paths_below :: "nat \<Rightarrow> nat list set" where "paths_below i = insert [] {a # q | a q. a < i}"
definition paths_within :: "nat \<Rightarrow> nat \<Rightarrow> nat list set" where
  "paths_within i j = insert [i] (paths_below i \<union> {[i, b] | b. b < j})"

lemma leaves_below_simps:
  "leaves_below 0 0 = {}" "leaves_below i 512 = leaves_below (Suc i) 0" "finite (leaves_below i j)"
  "j < 512 \<Longrightarrow> leaves_below i (Suc j) = leaves_below i j \<union> (\<lambda>k. (i, j, k)) ` {..<512}"
  "(i, j, k) \<notin> leaves_below i j"
proof -
  have "leaves_below i j \<subseteq> {..i} \<times> {..<512} \<times> {..<512}" by (auto simp: leaves_below_def)
  then show "finite (leaves_below i j)" by (rule finite_subset) simp
qed (auto simp: leaves_below_def less_Suc_eq)

lemma fork_inv_paths: "fork_inv s P C L D s' \<Longrightarrow> L \<subseteq> M \<Longrightarrow> fork_inv s P C M D s'"
  unfolding fork_inv_def by blast

text \<open>A copy that stops early: some leaves have been copied, and no frame is left.\<close>

definition fork_stopped :: "'a buddy_state_scheme \<Rightarrow> u64 \<Rightarrow> u64 \<Rightarrow> 'a buddy_state_scheme \<Rightarrow> bool" where
  "fork_stopped s P C s' \<longleftrightarrow> free_frames s' = {} \<and> (\<exists>L D. finite D \<and> fork_inv s P C L D s')"

lemma user_leaf_zero [simp]: "\<not> user_leaf 0"
  by (simp add: user_leaf_def)

lemma fork_pte_step:
  assumes st: "fork_start s P C" and i: "i < 256" "j < 512" and t: "table_at (mem s) P [i] = Some t"
    and I: "fork_inv s P C (paths_within i j) (leaves_below i j) s'" and u: "table_at (mem s') C [i] = Some u"
  defines "r \<equiv> fork_pte_table t u j s'"
  shows "if fst r then fork_inv s P C (paths_within i (Suc j)) (leaves_below i (Suc j)) (snd r) \<and>
      table_at (mem (snd r)) C [i] = Some u else fork_stopped s P C (snd r)"
proof -
  note d = fork_invD [OF I]
  have path: "user_path [i]" "user_path [i, j]" using i by (simp_all add: user_path_def)
  have t': "table_at (mem s') P [i] = Some t" using d(6) [OF path(1)] t by simp
  define e where "e = mem s' (entry_at t j)"
  have ij: "table_at (mem s) P [i, j] = (if present e then Some (va (entry_page e)) else None)"
    using d(6) [OF path(2)] t' table_at_append [of "mem s'" P "[i]" "[j]"] by (simp add: e_def del: table_at.simps(2)) simp
  show ?thesis
  proof (cases "present e")
    case False
    then have r: "r = (True, s')" by (simp add: r_def fork_pte_table_def e_def)
    have "\<forall>x\<in>(\<lambda>k. (i, j, k)) ` {..<512}. x \<notin> leaves_below i j \<and> \<not> user_leaf (leaf (mem s) P x)"
      using False ij by (auto simp: leaf_def leaves_below_simps simp del: table_at.simps)
    note I' = fork_inv_skip [OF I this, folded leaves_below_simps(4) [OF i(2)]]
    have "fork_inv s P C (paths_within i (Suc j)) (leaves_below i (Suc j)) s'"
      by (rule fork_inv_paths [OF I']) (auto simp: paths_within_def)
    then show ?thesis using u by (simp add: r)
  next
    case True
    show ?thesis
    proof (cases "free_frames s' = {}")
      case True
      then have "r = (False, s')"
        using alloc_page_cases [OF d(1)] \<open>present e\<close> by (simp add: r_def fork_pte_table_def e_def [symmetric])
      moreover have "fork_stopped s P C s'" unfolding fork_stopped_def using I True leaves_below_simps(3) by blast
      ultimately show ?thesis by simp
    next
      case False
      obtain b where b: "fst (alloc_page s') = idx_to_addr s' b" "page_taken s' b (snd (alloc_page s'))"
        using alloc_page_cases [OF d(1)] False by auto
      define c where "c = idx_to_addr s' b"
      define s2 where "s2 = (snd (alloc_page s'))\<lparr>mem := (mem (snd (alloc_page s')))(entry_at u j := table_entry (pa_of c))\<rparr>"
      define s3 where "s3 = fold (fork_leaf (va (entry_page e)) c) [0..<512] s2"
      have "[i] @ [j] \<notin> paths_within i j" by (auto simp: paths_within_def paths_below_def)
      note k = fork_link [OF st I _ this u b(2), folded c_def, folded s2_def, unfolded append.simps, OF path(2)]
      have run: "r = (True, s3)"
        using page_taken_page(2) [OF d(1) b(2)] b(1) True
        by (simp add: r_def fork_pte_table_def e_def [symmetric] split_def Let_def c_def [symmetric] s2_def [symmetric] s3_def)
      have "table_at (mem s) P [i, j] = Some (va (entry_page e))" using ij True by simp
      note l = fork_leaves_step [OF st k(1) leaves_below_simps(3) path(2) this k(2) _ order_refl, folded s3_def
          leaves_below_simps(4) [OF i(2)]]
      have I3: "fork_inv s P C (insert [i, j] (paths_within i j)) (leaves_below i (Suc j)) s3" "table_at (mem s3) C [i] = table_at (mem s2) C [i]"
        using l leaves_below_simps(5) path(1) by blast+
      have "fork_inv s P C (paths_within i (Suc j)) (leaves_below i (Suc j)) s3"
        by (rule fork_inv_paths [OF I3(1)]) (auto simp: paths_within_def)
      moreover have "table_at (mem s3) C [i] = Some u" using I3(2) k(3) [OF path(1)] u by simp
      ultimately show ?thesis by (simp add: run)
    qed
  qed
qed


lemma fork_pmd_step:
  assumes st: "fork_start s P C" and i: "i < 256" and I: "fork_inv s P C (paths_below i) (leaves_below i 0) s'"
  defines "r \<equiv> fork_pmd_table P C i s'"
  shows "if fst r then fork_inv s P C (paths_below (Suc i)) (leaves_below (Suc i) 0) (snd r) else fork_stopped s P C (snd r)"
proof -
  note d = fork_invD [OF I]
  have path: "user_path []" "user_path [i]" using i by (simp_all add: user_path_def)
  define e where "e = mem s' (entry_at P i)"
  have at: "table_at (mem s) P [i] = (if present e then Some (va (entry_page e)) else None)"
    using d(6) [OF path(2)] by (auto simp: e_def split: if_splits)
  show ?thesis
  proof (cases "present e")
    case False
    then have r: "r = (True, s')" by (simp add: r_def fork_pmd_table_def e_def)
    let ?X = "{(a, b, c). a = i \<and> b < 512 \<and> c < (512 :: nat)}"
    have none: "table_at (mem s) P [i, b] = None" for b
      using False at table_at_append [of "mem s" P "[i]" "[b]"] by (simp split: if_splits)
    then have "\<forall>x\<in>?X. x \<notin> leaves_below i 0 \<and> \<not> user_leaf (leaf (mem s) P x)"
      by (auto simp: leaf_def leaves_below_def simp del: table_at.simps)
    note I' = fork_inv_skip [OF I this]
    have x: "leaves_below i 0 \<union> ?X = leaves_below (Suc i) 0" by (auto simp: leaves_below_def less_Suc_eq)
    have "fork_inv s P C (paths_below (Suc i)) (leaves_below (Suc i) 0) s'"
      by (rule fork_inv_paths [OF I' [unfolded x]]) (auto simp: paths_below_def)
    then show ?thesis by (simp add: r)
  next
    case True
    show ?thesis
    proof (cases "free_frames s' = {}")
      case True
      then have "r = (False, s')"
        using alloc_page_cases [OF d(1)] \<open>present e\<close> by (simp add: r_def fork_pmd_table_def e_def [symmetric])
      moreover have "fork_stopped s P C s'" unfolding fork_stopped_def using I True leaves_below_simps(3) by blast
      ultimately show ?thesis by simp
    next
      case False
      obtain b where b: "fst (alloc_page s') = idx_to_addr s' b" "page_taken s' b (snd (alloc_page s'))"
        using alloc_page_cases [OF d(1)] False by auto
      define c where "c = idx_to_addr s' b"
      define s2 where "s2 = (snd (alloc_page s'))\<lparr>mem := (mem (snd (alloc_page s')))(entry_at C i := table_entry (pa_of c))\<rparr>"
      let ?f = "fork_pte_table (va (entry_page e)) c"
      have run: "r = until_fail ?f [0..<512] s2"
        using page_taken_page(2) [OF d(1) b(2)] b(1) True
        by (simp add: r_def fork_pmd_table_def e_def [symmetric] split_def Let_def c_def [symmetric] s2_def [symmetric])
      have new: "[] @ [i] \<notin> paths_below i" and C: "table_at (mem s') C [] = Some C" by (simp_all add: paths_below_def)
      note k = fork_link [OF st I _ new C b(2), folded c_def, folded s2_def, unfolded append.simps, OF path(2)]
      define J where "J = (\<lambda>j t. fork_inv s P C (paths_within i j) (leaves_below i j) t \<and> table_at (mem t) C [i] = Some c)"
      have "paths_within i 0 = insert [i] (paths_below i)" by (auto simp: paths_within_def)
      then have start: "J 0 s2" using k(1,2) by (simp add: J_def)
      have at': "table_at (mem s) P [i] = Some (va (entry_page e))" using at True by simp
      have step: "\<forall>n t. 0 \<le> n \<and> n < 512 \<and> J n t \<longrightarrow>
          (if fst (?f n t) then J (Suc n) (snd (?f n t)) else fork_stopped s P C (snd (?f n t)))"
        using fork_pte_step [OF st i _ at'] unfolding J_def by blast
      have "if fst r then J 512 (snd r) else fork_stopped s P C (snd r)"
        unfolding run by (rule until_fail_inv [OF step start]) simp
      moreover have "fork_inv s P C (paths_below (Suc i)) (leaves_below (Suc i) 0) t" if "J 512 t" for t
      proof -
        have "fork_inv s P C (paths_within i 512) (leaves_below (Suc i) 0) t"
          using that by (simp add: J_def leaves_below_simps)
        then show ?thesis by (rule fork_inv_paths) (auto simp: paths_within_def paths_below_def)
      qed
      ultimately show ?thesis by auto
    qed
  qed
qed

lemma fork_run:
  assumes st: "fork_start s P C"
  defines "r \<equiv> until_fail (fork_pmd_table P C) [0..<256] s"
  shows "if fst r then fork_inv s P C (paths_below 256) (leaves_below 256 0) (snd r) else fork_stopped s P C (snd r)"
proof -
  have "paths_below 0 = {[]}" by (simp add: paths_below_def)
  then have start: "fork_inv s P C (paths_below 0) (leaves_below 0 0) s" using fork_inv_start [OF st] by (simp add: leaves_below_simps)
  show ?thesis
    unfolding r_def using fork_pmd_step [OF st]
    by (intro until_fail_inv [where I = "\<lambda>i. fork_inv s P C (paths_below i) (leaves_below i 0)"] start) auto
qed

subsection \<open>What the processes see\<close>

lemma leaves_below_all: "user_index x \<longleftrightarrow> x \<in> leaves_below 256 0"
  by (auto simp: user_index_def leaves_below_def)

lemma parent_leaf_flags [simp]:
  "present (parent_leaf e) = present e" "leaf_target (parent_leaf e) = leaf_target e"
  by (simp_all add: parent_leaf_def read_only_flags)

lemma child_leaf_flags [simp]:
  "present (child_leaf e) = user_leaf e" "user_leaf e \<Longrightarrow> leaf_target (child_leaf e) = leaf_target e"
  by (simp_all add: child_leaf_def read_only_flags user_leaf_def)

text \<open>Whatever has been copied: the parent's bytes, the other spaces, and no frame lost.\<close>

lemma fork_views:
  assumes st: "fork_start s P C" and I: "fork_inv s P C L D s'"
  shows "same_bytes s s' P" "apart s P r \<Longrightarrow> unseen s {C} r \<Longrightarrow> sound_space s r \<Longrightarrow> same_bytes s s' r"
    and "user_index x \<Longrightarrow> present (leaf (mem s') C x) \<Longrightarrow> leaf_target (leaf (mem s') C x) = leaf_target (leaf (mem s) P x) \<and>
      present (leaf (mem s) P x)"
    and "user_index x \<Longrightarrow> present (leaf (mem s) P x) \<Longrightarrow> own_page s' (leaf_target (leaf (mem s) P x)) \<and>
      (\<forall>c. in_page (leaf_target (leaf (mem s) P x)) c \<longrightarrow> mem s' c = mem s c)"
proof -
  note d = fork_invD [OF I] and par = fork_parent [OF st I]
  have inv: "page_inv s" and snd: "sound_space s P" and C: "unseen s {C} P" using st by (simp_all add: fork_start_def)
  have target: "leaf_target (leaf (mem s') P x) = leaf_target (leaf (mem s) P x)" "present (leaf (mem s') P x) = present (leaf (mem s) P x)"
    if "user_index x" for x
    using d(7) [OF that] by simp_all
  show page: "own_page s' (leaf_target (leaf (mem s) P x)) \<and> (\<forall>c. in_page (leaf_target (leaf (mem s) P x)) c \<longrightarrow> mem s' c = mem s c)"
    if "user_index x" "present (leaf (mem s) P x)" for x
  proof -
    note p = sound_page [OF snd that]
    have "leaf_target (leaf (mem s) P x) \<notin> insert C (tables (mem s) P)"
      using p(2) C that unfolding unseen_def tables_def by blast
    then show ?thesis using d(2) p(1) unfolding keeps_pages_def by blast
  qed
  have "sound_space s' P"
    unfolding sound_space_def
  proof (intro conjI allI impI par(1))
    fix x assume x: "user_index x \<and> present (leaf (mem s') P x)"
    then have pr: "present (leaf (mem s) P x)" using target(2) by blast
    show "own_page s' (leaf_target (leaf (mem s') P x))" using x page pr target(1) by simp
    show "table_at (mem s') P p \<noteq> Some (leaf_target (leaf (mem s') P x))" if "user_path p" for p
      using sound_page(2) [OF snd _ pr] x target(1) d(6) [OF that] that by simp
  qed
  moreover have "user_byte (mem s') P w = user_byte (mem s) P w" if w: "user_address w" for w
  proof -
    note x = user_index_indices [OF w]
    let ?p = "leaf_target (leaf (mem s) P (indices w))"
    have "load8 (mem s') (?p + (w AND 0xFFF)) = load8 (mem s) (?p + (w AND 0xFFF))" if pr: "present (leaf (mem s) P (indices w))"
    proof -
      note al = own_page_props(1) [OF inv sound_page(1) [OF snd x pr]]
      show ?thesis using page [OF x pr] by (intro load8_page [OF al _ page_offset_in [OF al]]) blast
    qed
    then show ?thesis using target [OF x] by (simp add: user_byte_def Let_def)
  qed
  ultimately show "same_bytes s s' P" by (simp add: same_bytes_def)
  show "same_bytes s s' r" if r: "apart s P r" "unseen s {C} r" "sound_space s r"
  proof (rule keeps_same_bytes [OF inv r(3) d(2)])
    show "unseen s (insert C (tables (mem s) P)) r" using r(1,2) unfolding apart_def unseen_def tables_def by blast
  qed
  show "leaf_target (leaf (mem s') C x) = leaf_target (leaf (mem s) P x) \<and> present (leaf (mem s) P x)"
    if "user_index x" "present (leaf (mem s') C x)" for x
    using that d(9) [OF that(1)] by (auto split: if_splits simp: user_leaf_def)
qed


lemma fork_child:
  assumes st: "fork_start s P C" and I: "fork_inv s P C L D s'"
  shows "sound_space s' C" "apart s' P C" "apart s' C P"
    and "user_address v \<Longrightarrow> indices v \<in> D \<Longrightarrow> user_byte (mem s') C v =
           (if user_leaf (leaf (mem s) P (indices v)) then user_byte (mem s) P v else None)"
proof -
  note d = fork_invD [OF I] and par = fork_parent [OF st I] and v = fork_views [OF st I]
  have inv: "page_inv s" and snd: "sound_space s P" and C: "unseen s {C} P" using st by (simp_all add: fork_start_def)
  have child_table: "t \<noteq> leaf_target (leaf (mem s) P x)" if "t \<in> tables (mem s') C" "user_index x" "present (leaf (mem s) P x)" for t x
    using that d(10) [OF that(1)] sound_page(1) [OF snd that(2,3)] C unfolding unseen_def by blast
  have parent_table: "t \<noteq> leaf_target (leaf (mem s) P x)" if "t \<in> tables (mem s) P" "user_index x" "present (leaf (mem s) P x)" for t x
    using that sound_page(2) [OF snd that(2,3)] unfolding tables_def by blast
  show "sound_space s' C"
    unfolding sound_space_def
  proof (intro conjI allI impI d(8))
    fix x assume x: "user_index x \<and> present (leaf (mem s') C x)"
    then have l: "leaf_target (leaf (mem s') C x) = leaf_target (leaf (mem s) P x)" "present (leaf (mem s) P x)" using v(3) by blast+
    show "own_page s' (leaf_target (leaf (mem s') C x))" unfolding l(1) using v(4) x l(2) by blast
    show "table_at (mem s') C p \<noteq> Some (leaf_target (leaf (mem s') C x))" if "user_path p" for p
      unfolding l(1) using child_table x l(2) that unfolding tables_def by blast
  qed
  have disj: "t \<notin> tables (mem s') P" if "t \<in> tables (mem s') C" for t using that par(2,3) by blast
  show "apart s' P C"
    unfolding apart_def
  proof (intro allI impI conjI)
    fix p t q assume p: "user_path p \<and> table_at (mem s') P p = Some t" and q: "user_path q"
    show "table_at (mem s') C q \<noteq> Some t" using disj p q unfolding tables_def by blast
  next
    fix p t x assume p: "user_path p \<and> table_at (mem s') P p = Some t" and x: "user_index x \<and> present (leaf (mem s') C x)"
    have "t \<in> tables (mem s') P" using p unfolding tables_def by blast
    then have "t \<in> tables (mem s) P" by (simp only: par(2))
    then show "leaf_target (leaf (mem s') C x) \<noteq> t" using parent_table [of t x] x v(3) [of x] by auto
  qed
  show "apart s' C P"
    unfolding apart_def
  proof (intro allI impI conjI)
    fix p t q assume p: "user_path p \<and> table_at (mem s') C p = Some t" and q: "user_path q"
    show "table_at (mem s') P q \<noteq> Some t" using disj p q unfolding tables_def by blast
  next
    fix p t x assume p: "user_path p \<and> table_at (mem s') C p = Some t" and x: "user_index x \<and> present (leaf (mem s') P x)"
    then have "t \<in> tables (mem s') C" unfolding tables_def by blast
    moreover have "leaf_target (leaf (mem s') P x) = leaf_target (leaf (mem s) P x)" "present (leaf (mem s) P x)"
      using x d(7) [of x] by (cases "x \<in> D"; simp)+
    ultimately show "leaf_target (leaf (mem s') P x) \<noteq> t" using child_table [of t x] x by auto
  qed
  show "user_byte (mem s') C v = (if user_leaf (leaf (mem s) P (indices v)) then user_byte (mem s) P v else None)"
    if a: "user_address v" "indices v \<in> D" for v
  proof -
    note x = user_index_indices [OF a(1)]
    let ?e = "leaf (mem s) P (indices v)"
    have "load8 (mem s') (leaf_target ?e + (v AND 0xFFF)) = load8 (mem s) (leaf_target ?e + (v AND 0xFFF))" if "user_leaf ?e"
    proof -
      have pr: "present ?e" using that by (simp add: user_leaf_def)
      note al = own_page_props(1) [OF inv sound_page(1) [OF snd x pr]]
      show ?thesis using v(4) [OF x pr] by (intro load8_page [OF al _ page_offset_in [OF al]]) blast
    qed
    moreover have "user_leaf ?e \<Longrightarrow> present ?e" by (simp add: user_leaf_def)
    ultimately show ?thesis using d(9) [OF x] a(2) by (simp add: user_byte_def Let_def)
  qed
qed

subsection \<open>The copy of an address space\<close>

text \<open>C24: The copy-on-write loops of \<^verbatim>\<open>do_fork\<close>, from a sound parent and an empty child space: the allocator's
  invariant holds, the parent and every other process read the same bytes as before, and the loops
  stop early only when no frame is left. When they end, the child's space is sound, has its own
  tables, and shows the parent's bytes at every address whose page is a user page and nothing
  elsewhere; both spaces have these pages read-only, and every frame has one reference more for
  each leaf that points to it.\<close>

theorem fork_space_correct:
  assumes "fork_start s P C"
  defines "r \<equiv> until_fail (fork_pmd_table P C) [0..<256] s"
  shows "page_inv (snd r) \<and> same_bytes s (snd r) P \<and>
    (\<forall>Q. sound_space s Q \<and> apart s P Q \<and> unseen s {C} Q \<longrightarrow> same_bytes s (snd r) Q) \<and>
    (if fst r
     then sound_space (snd r) C \<and> apart (snd r) P C \<and> apart (snd r) C P \<and>
       (\<forall>v. user_address v \<longrightarrow> user_byte (mem (snd r)) C v =
          (if user_leaf (leaf (mem s) P (indices v)) then user_byte (mem s) P v else None)) \<and>
       (\<forall>x. user_index x \<longrightarrow> leaf (mem (snd r)) P x = parent_leaf (leaf (mem s) P x) \<and>
          leaf (mem (snd r)) C x = child_leaf (leaf (mem s) P x)) \<and>
       (\<forall>b. owned s b 0 \<longrightarrow> ref_count (snd r) b = ref_count s b + int (card
          {x. user_index x \<and> user_leaf (leaf (mem s) P x) \<and> leaf_target (leaf (mem s) P x) = idx_to_addr s b}))
     else free_frames (snd r) = {})"
proof -
  obtain L D where I: "fork_inv s P C L D (snd r)" and ok: "fst r \<longrightarrow> D = leaves_below 256 0" and fail: "\<not> fst r \<longrightarrow> free_frames (snd r) = {}"
    using fork_run [OF assms(1), folded r_def] by (cases "fst r") (auto simp: fork_stopped_def)
  note v = fork_views [OF assms(1) I] and c = fork_child [OF assms(1) I] and d = fork_invD [OF I]
  have inD: "x \<in> D" if "fst r" "user_index x" for x using ok that leaves_below_all by blast
  have refs: "refs s P D b = {x. user_index x \<and> user_leaf (leaf (mem s) P x) \<and> leaf_target (leaf (mem s) P x) = idx_to_addr s b}"
    if "fst r" for b
    using ok that leaves_below_all by (auto simp: refs_def)
  have "user_byte (mem (snd r)) C w = (if user_leaf (leaf (mem s) P (indices w)) then user_byte (mem s) P w else None)"
    if "fst r" "user_address w" for w
    by (rule c(4) [OF that(2) inD [OF that(1) user_index_indices [OF that(2)]]])
  moreover have "leaf (mem (snd r)) P x = parent_leaf (leaf (mem s) P x) \<and> leaf (mem (snd r)) C x = child_leaf (leaf (mem s) P x)"
    if "fst r" "user_index x" for x
    using d(7,9) [OF that(2)] inD [OF that] by simp
  ultimately show ?thesis using d(1) v(1,2) c(1-3) d(12) refs fail by auto
qed

theorem fork_space_correct_witness:
  "same_bytes (snd (alloc_page shared_space))
     (snd (until_fail (fork_pmd_table boot_pgd (fst (alloc_page shared_space))) [0..<256] (snd (alloc_page shared_space)))) boot_pgd"
proof (rule shared_space_ok)
  assume s: "page_inv shared_space" "sound_space shared_space boot_pgd" "free_frames shared_space \<noteq> {}"
  show ?thesis using fork_space_correct [OF fork_start_alloc [OF s]] by blast
qed

end
