(* ===== verification/Shell.thy ===== *)
theory Shell
  imports Process
begin

text \<open>
  The command shell \<^verbatim>\<open>kernel/src/shell.c\<close>: the line editor, the parser of the commands and the
  commands themselves. \<open>console\<close> is the sequence of characters handed to \<^verbatim>\<open>uart_putc\<close>
  and \<^verbatim>\<open>uart_puts\<close>, \<open>keys\<close> the bytes the terminal still sends; a routine that waits for a
  byte when none is left is undefined.
\<close>

subsection \<open>State\<close>

record timeout_arg =
  ta_duration_sec :: u32
  ta_exec_time :: u64
  ta_msg :: "u8 list"

record shell_sys = thread_sys +
  line_buffer :: "u8 list"
  buf_len :: nat
  console :: "u8 list"
  keys :: "u8 list"
  timeout_args :: "u64 \<Rightarrow> timeout_arg"

definition BUFFER_SIZE :: nat where "BUFFER_SIZE = 128"
definition BOOT_MAGIC :: u32 where "BOOT_MAGIC = 0x544F4F42"
definition KERNEL_LOAD_ADDR :: "bool \<Rightarrow> u64" where
  "KERNEL_LOAD_ADDR qemu = (if qemu then 0x82000000 else 0x20000000)"

datatype special_char = BACK_SPACE | LINE_FEED | CARRIAGE_RETURN | DELETE | UNKNOWN | REGULAR_INPUT

definition parse :: "u8 \<Rightarrow> special_char" where
  "parse c =
     (if c > 127 then UNKNOWN
      else if c = 127 \<or> c = 8 then DELETE
      else if c = 13 \<or> c = 10 then LINE_FEED
      else REGULAR_INPUT)"

text \<open>
  What the shell uses of the rest of the machine: the addresses of functions, literals and the
  buffer, the answers of the SBI, the other threads, and calls through function pointers.
\<close>

record 's shell_env =
  sh_symbols :: symbols
  sh_qemu :: bool
  sh_image :: "'s \<Rightarrow> image"
  sh_buffer :: u64
  sh_timeout_cb :: u64
  sh_test_task_cb :: u64
  sh_literal :: "string \<Rightarrow> u64"
  sh_string :: "u64 \<Rightarrow> u8 list"
  sh_sbi :: "nat \<Rightarrow> u64"
  sh_resume :: "'s \<Rightarrow> 's option"
  sh_call :: "u64 \<Rightarrow> u64 \<Rightarrow> 's \<Rightarrow> 's"
  sh_test_threads :: "'s \<Rightarrow> 's option"

definition say :: "u8 list \<Rightarrow> 'a shell_sys_scheme \<Rightarrow> 'a shell_sys_scheme" where
  "say text s = s\<lparr>console := console s @ text\<rparr>"

definition getc_raw :: "'a shell_sys_scheme \<Rightarrow> (u8 \<times> 'a shell_sys_scheme) option" where
  "getc_raw s = (case keys s of [] \<Rightarrow> None | c # cs \<Rightarrow> Some (c, s\<lparr>keys := cs\<rparr>))"

definition getc :: "'a shell_sys_scheme \<Rightarrow> (u8 \<times> 'a shell_sys_scheme) option" where
  "getc s = map_option (\<lambda>(c, s'). (if c = 13 then 10 else c, s')) (getc_raw s)"

text \<open>A command comes back to the prompt, or jumps to code it has loaded.\<close>

datatype 's shell_flow = Prompt 's | Jump u64 's

subsection \<open>Texts\<close>

definition newline :: "u8 list" where "newline = [10]"

definition hex_out :: "u64 \<Rightarrow> u8 list" where "hex_out h = [48, 120] @ hex_text h"

definition dec_text :: "u64 \<Rightarrow> u8 list" where "dec_text x = decimal (unat x)"

definition help_text :: "u8 list" where
  "help_text =
     bytes_of ''help  - show all commands.'' @ newline @
     bytes_of ''hello - print Hello World!'' @ newline @
     bytes_of ''info  - print system info.'' @ newline @
     bytes_of ''ls    - list files in initramfs.'' @ newline @
     bytes_of ''cat   - display file content (usage: cat <filename>).'' @ newline @
     bytes_of ''test  - run memory allocator test.'' @ newline @
     bytes_of ''exec  - load a user program from initrd and run it in U-mode.'' @ newline @
     bytes_of ''setTimeout - <sec> <msg> schedule a delayed message.'' @ newline @
     bytes_of ''testTask - test task prioritization and preemption.'' @ newline @
     bytes_of ''testThread - test thread creation and context switch.'' @ newline"

definition prompt_text :: "u8 list" where "prompt_text = bytes_of ''opi-rv2> ''"

subsection \<open>Simple commands\<close>

definition command_help :: "'a shell_sys_scheme \<Rightarrow> 'a shell_sys_scheme" where "command_help = say help_text"

definition command_hello :: "'a shell_sys_scheme \<Rightarrow> 'a shell_sys_scheme" where
  "command_hello = say (bytes_of ''Hello World!'' @ newline)"

definition command_info :: "('s, 'e) shell_env_scheme \<Rightarrow> 'a shell_sys_scheme \<Rightarrow> 'a shell_sys_scheme" where
  "command_info env =
     say (bytes_of ''OpenSBI specification version: '' @ hex_out (sh_sbi env 0) @
          newline @ bytes_of ''Implementation ID: '' @ hex_out (sh_sbi env 1) @
          newline @ bytes_of ''Implementation version: '' @ hex_out (sh_sbi env 2) @ newline)"

text \<open>The string in the buffer: \<^verbatim>\<open>line_buffer\<close> up to its first zero.\<close>

definition c_string :: "u8 list \<Rightarrow> u8 list" where "c_string b = takeWhile (\<lambda>c. c \<noteq> 0) b"

definition command_unknown :: "'a shell_sys_scheme \<Rightarrow> 'a shell_sys_scheme" where
  "command_unknown s =
     say (bytes_of ''Unknown command: '' @ c_string (line_buffer s) @ newline @
          bytes_of ''Use help to get commands.'' @ newline) s"

text \<open>The bytes the kernel reads, with the buffer in its place.\<close>

definition shell_bytes :: "('a shell_sys_scheme, 'e) shell_env_scheme \<Rightarrow> 'a shell_sys_scheme \<Rightarrow> bytes" where
  "shell_bytes env s a =
     (if unat (a - sh_buffer env) < length (line_buffer s) then line_buffer s ! unat (a - sh_buffer env)
      else im_bytes (sh_image env s) a)"

definition shell_image :: "('a shell_sys_scheme, 'e) shell_env_scheme \<Rightarrow> 'a shell_sys_scheme \<Rightarrow> image" where
  "shell_image env s = (sh_image env s)\<lparr>im_bytes := shell_bytes env s\<rparr>"

definition no_initrd_text :: "u8 list" where "no_initrd_text = bytes_of ''Error: initrd not loaded.'' @ newline"

definition command_ls :: "('a shell_sys_scheme, 'e) shell_env_scheme \<Rightarrow> 'a shell_sys_scheme \<Rightarrow> 'a shell_sys_scheme option" where
  "command_ls env s =
     (let im = shell_image env s
      in if im_cpio_addr im = NULL then Some (say no_initrd_text s)
         else map_option (\<lambda>text. say text s) (cpio_ls (im_bytes im) (im_trailer im) (im_cpio_addr im)))"

subsection \<open>Arguments\<close>

text \<open>\<^verbatim>\<open>*p\<close> for a pointer \<open>p\<close> into the buffer, as an index; \<^verbatim>\<open>while (P(*p)) p++\<close> ends at the zero at the latest.\<close>

definition at_ptr :: "u8 list \<Rightarrow> nat \<Rightarrow> u8" where
  "at_ptr b p = (if p < length b then b ! p else 0)"

definition skip_while :: "(u8 \<Rightarrow> bool) \<Rightarrow> u8 list \<Rightarrow> nat \<Rightarrow> nat" where
  "skip_while P b p = p + length (takeWhile P (drop p b))"

text \<open>The argument behind the command word and one space, if there is one.\<close>

definition argument :: "u8 list \<Rightarrow> nat option" where
  "argument b =
     (let p = skip_while (\<lambda>c. c \<noteq> 0 \<and> c \<noteq> 32) b 0
      in if at_ptr b p = 0 then None
         else let q = (if at_ptr b p = 32 then p + 1 else p)
              in if at_ptr b q = 0 then None else Some q)"

definition command_cat :: "('a shell_sys_scheme, 'e) shell_env_scheme \<Rightarrow> 'a shell_sys_scheme \<Rightarrow> 'a shell_sys_scheme option" where
  "command_cat env s =
     (case argument (line_buffer s) of
        None \<Rightarrow> Some (say (bytes_of ''Usage: cat <filename>'' @ newline) s)
      | Some p \<Rightarrow>
          let im = shell_image env s
          in if im_cpio_addr im = NULL then Some (say no_initrd_text s)
             else map_option (\<lambda>text. say text s)
                    (cpio_cat (im_bytes im) (im_trailer im) (im_cpio_addr im) (sh_buffer env + of_nat p)))"

definition run_user_program ::
  "('a shell_sys_scheme, 'e) shell_env_scheme \<Rightarrow> u64 \<Rightarrow> 'a shell_sys_scheme \<Rightarrow> 'a shell_sys_scheme option" where
  "run_user_program env name s =
     (case user_program_execute (sh_symbols env) (shell_image env s) name s of
        None \<Rightarrow> None
      | Some (child_id, s1) \<Rightarrow> map_option snd (do_waitpid (sh_resume env) child_id s1))"

definition command_exec :: "('a shell_sys_scheme, 'e) shell_env_scheme \<Rightarrow> 'a shell_sys_scheme \<Rightarrow> 'a shell_sys_scheme option" where
  "command_exec env s =
     (case argument (line_buffer s) of
        None \<Rightarrow> Some (say (bytes_of ''Usage: exec <filename>'' @ newline) s)
      | Some p \<Rightarrow> run_user_program env (sh_buffer env + of_nat p) s)"

subsection \<open>Loading a kernel\<close>

text \<open>Four calls of \<^verbatim>\<open>uart_getc\<close>, combined little end first.\<close>

definition read_word :: "'a shell_sys_scheme \<Rightarrow> (u32 \<times> 'a shell_sys_scheme) option" where
  "read_word s =
     do {
       (a, s1) \<leftarrow> getc s;
       (b, s2) \<leftarrow> getc s1;
       (c, s3) \<leftarrow> getc s2;
       (d, s4) \<leftarrow> getc s3;
       Some (ucast a OR push_bit 8 (ucast b) OR push_bit 16 (ucast c) OR push_bit 24 (ucast d), s4)
     }"

primrec receive :: "u64 \<Rightarrow> nat \<Rightarrow> 'a shell_sys_scheme \<Rightarrow> 'a shell_sys_scheme option" where
  "receive dst 0 s = Some s"
| "receive dst (Suc n) s =
     (case getc_raw s of None \<Rightarrow> None
      | Some (c, s1) \<Rightarrow> receive (dst + 1) n (s1\<lparr>mem := with_bytes (\<lambda>b. b(dst := c)) (mem s1)\<rparr>))"

definition command_load :: "('s, 'e) shell_env_scheme \<Rightarrow> 'a shell_sys_scheme \<Rightarrow> 'a shell_sys_scheme shell_flow option" where
  "command_load env s0 =
     do {
       (magic, s1) \<leftarrow> read_word (say (bytes_of ''Waiting for kernel over UART...'' @ newline) s0);
       (sz, s2) \<leftarrow> read_word s1;
       if magic \<noteq> BOOT_MAGIC then Some (Prompt (say (bytes_of ''Invalid header (bad magic).'' @ newline) s2))
       else do {
         s3 \<leftarrow> receive (KERNEL_LOAD_ADDR (sh_qemu env)) (unat sz) s2;
         Some (Jump (KERNEL_LOAD_ADDR (sh_qemu env))
           (say (bytes_of ''Loaded '' @ dec_text (ucast sz) @ bytes_of '' bytes, jumping to '' @
                 hex_out (KERNEL_LOAD_ADDR (sh_qemu env)) @ bytes_of ''...'' @ newline) s3))
       }
     }"

subsection \<open>The allocator test\<close>

primrec kmalloc_each :: "u64 list \<Rightarrow> 'a kmalloc_state_scheme \<Rightarrow> u64 list \<times> 'a kmalloc_state_scheme" where
  "kmalloc_each [] s = ([], s)"
| "kmalloc_each (n # ns) s = (let (p, s1) = kmalloc n s; (ps, s2) = kmalloc_each ns s1 in (p # ps, s2))"

definition kfree_each :: "u64 list \<Rightarrow> 'a kmalloc_state_scheme \<Rightarrow> 'a kmalloc_state_scheme" where
  "kfree_each ps s = fold kfree ps s"

definition command_test :: "'a shell_sys_scheme \<Rightarrow> 'a shell_sys_scheme" where
  "command_test s0 =
     (let s1 = say (bytes_of ''Testing memory allocation...'' @ newline) s0;
          (ps, s2) = kmalloc_each [4000, 8000, 4000, 4000] s1;
          s3 = say (bytes_of ''Testing dynamic allocator...'' @ newline) (kfree_each ps s2);
          (qs, s4) = kmalloc_each [16, 32, 64, 128, 16, 32] s3;
          s5 = kfree_each qs s4;
          (rs, s6) = kmalloc_each (replicate 100 128) s5;
          s7 = kfree_each rs s6;
          (p, s8) = kmalloc (of_nat (buddy_total_pages s7) * PAGE_SIZE + 1) s7;
          s9 = (if p = NULL
                then say (bytes_of ''Allocation failed as expected for size > MAX_ALLOC_SIZE'' @ newline) s8
                else kfree p (say (bytes_of ''Unexpected allocation success for size > MAX_ALLOC_SIZE'' @ newline) s8))
      in say (bytes_of ''=== Memory allocation test done ==='' @ newline) s9)"

subsection \<open>Delayed messages\<close>

definition is_digit :: "u8 \<Rightarrow> bool" where "is_digit c \<longleftrightarrow> c \<ge> 48 \<and> c \<le> 57"

text \<open>\<^verbatim>\<open>sec\<close> is a 32-bit integer; the compiled code wraps around.\<close>

definition digits_value :: "u8 list \<Rightarrow> u32" where
  "digits_value ds = fold (\<lambda>c sec. sec * 10 + (ucast c - 48)) ds 0"

text \<open>The number of seconds and the index of the message, or \<open>None\<close> for the usage message.\<close>

definition timeout_request :: "u8 list \<Rightarrow> (u32 \<times> nat) option" where
  "timeout_request b =
     (let p = skip_while (\<lambda>c. c \<noteq> 0 \<and> c \<noteq> 32) b 0
      in if at_ptr b p = 0 then None
         else let q = skip_while (\<lambda>c. c = 32) b (p + 1)
              in if \<not> is_digit (at_ptr b q) then None
                 else let sec = digits_value (takeWhile is_digit (drop q b)); r = skip_while is_digit b q
                      in if at_ptr b r \<noteq> 32 then None
                         else let m = skip_while (\<lambda>c. c = 32) b r
                              in if at_ptr b m = 0 then None else Some (sec, m))"

definition sizeof_timeout_arg :: u64 where "sizeof_timeout_arg = 144"

definition command_setTimeout :: "('s, 'e) shell_env_scheme \<Rightarrow> 'a shell_sys_scheme \<Rightarrow> 'a shell_sys_scheme" where
  "command_setTimeout env s =
     (case timeout_request (line_buffer s) of
        None \<Rightarrow> say (bytes_of ''Usage: setTimeout <seconds> <message>'' @ newline) s
      | Some (sec, m) \<Rightarrow>
          let (arg, s1) = kmalloc sizeof_timeout_arg s
          in if arg = NULL then say (bytes_of ''kmalloc failed for setTimeout'' @ newline) s1
             else let (now, s2) = get_cycles s1;
                      a = \<lparr>ta_duration_sec = sec, ta_exec_time = now div get_timer_freq (sh_qemu env),
                           ta_msg = take 127 (c_string (drop m (line_buffer s2)))\<rparr>;
                      s3 = s2\<lparr>timeout_args := (timeout_args s2)(arg := a)\<rparr>
                  in add_timer (sh_qemu env) (sh_timeout_cb env) arg (sint sec) s3)"

definition timeout_cb :: "bool \<Rightarrow> u64 \<Rightarrow> 'a shell_sys_scheme \<Rightarrow> 'a shell_sys_scheme" where
  "timeout_cb qemu arg s =
     (let (now, s1) = get_cycles s;
          current_time = now div get_timer_freq qemu;
          targ = timeout_args s1 arg
      in kfree arg
           (say (newline @ bytes_of ''[setTimeout] '' @ ta_msg targ @
                 newline @ bytes_of '' - Set at: '' @ dec_text (ta_exec_time targ) @ bytes_of ''s'' @
                 newline @ bytes_of '' - Now: '' @ dec_text current_time @ bytes_of ''s'' @
                 newline @ bytes_of '' - Expected delay: '' @ dec_text (scast (ta_duration_sec targ)) @ bytes_of ''s'' @
                 newline) s1))"

subsection \<open>Deferred work\<close>

definition test_task_cb :: "('s, 'e) shell_env_scheme \<Rightarrow> u64 \<Rightarrow> 'a shell_sys_scheme \<Rightarrow> 'a shell_sys_scheme" where
  "test_task_cb env arg = say (bytes_of ''[Task] Executing Priority '' @ sh_string env arg @ newline)"

text \<open>A call through a function pointer: the two callbacks of this file, or another function.\<close>

definition shell_call ::
  "('a shell_sys_scheme, 'e) shell_env_scheme \<Rightarrow> u64 \<Rightarrow> u64 \<Rightarrow> 'a shell_sys_scheme \<Rightarrow> 'a shell_sys_scheme" where
  "shell_call env f arg s =
     (if f = sh_test_task_cb env then test_task_cb env arg s
      else if f = sh_timeout_cb env then timeout_cb (sh_qemu env) arg s
      else sh_call env f arg s)"

definition command_testTask :: "('a shell_sys_scheme, 'e) shell_env_scheme \<Rightarrow> 'a shell_sys_scheme \<Rightarrow> 'a shell_sys_scheme option" where
  "command_testTask env s0 =
     (let cb = sh_test_task_cb env;
          s1 = say (bytes_of ''Queueing priority tasks (1, 5, 3)...'' @ newline) s0;
          s2 = add_task cb (sh_literal env ''1'') 1 s1;
          s3 = add_task cb (sh_literal env ''5'') 5 s2;
          s4 = add_task cb (sh_literal env ''3'') 3 s3
      in run_tasks (shell_call env) (say (bytes_of ''Tasks queued! Running them now:'' @ newline) s4))"

subsection \<open>The dispatcher and the line editor\<close>

text \<open>\<^verbatim>\<open>!strcmp(buffer, w)\<close>, and the tests of the first characters.\<close>

definition line_is :: "u8 list \<Rightarrow> string \<Rightarrow> bool" where "line_is b w \<longleftrightarrow> c_string b = bytes_of w"

definition line_begins :: "u8 list \<Rightarrow> string \<Rightarrow> bool" where
  "line_begins b w \<longleftrightarrow> (\<forall>i\<in>set [0..<length w]. at_ptr b i = bytes_of w ! i) \<and>
     (at_ptr b (length w) = 32 \<or> at_ptr b (length w) = 0)"

definition cmp_command ::
  "('a shell_sys_scheme, 'e) shell_env_scheme \<Rightarrow> 'a shell_sys_scheme \<Rightarrow> 'a shell_sys_scheme shell_flow option" where
  "cmp_command env s =
     (let b = line_buffer s
      in if line_is b ''help'' then Some (Prompt (command_help s))
         else if line_is b ''hello'' then Some (Prompt (command_hello s))
         else if line_is b ''info'' then Some (Prompt (command_info env s))
         else if line_is b ''load'' then command_load env s
         else if line_is b ''ls'' then map_option Prompt (command_ls env s)
         else if line_is b ''test'' then Some (Prompt (command_test s))
         else if line_begins b ''cat'' then map_option Prompt (command_cat env s)
         else if line_begins b ''exec'' then map_option Prompt (command_exec env s)
         else if line_begins b ''setTimeout'' then Some (Prompt (command_setTimeout env s))
         else if line_is b ''testTask'' then map_option Prompt (command_testTask env s)
         else if line_is b ''testThread'' then map_option Prompt (sh_test_threads env s)
         else Some (Prompt (command_unknown s)))"

definition too_long_text :: "u8 list" where
  "too_long_text = bytes_of ''The command being entered is too long to process.'' @ newline"

definition clear_line :: "'a shell_sys_scheme \<Rightarrow> 'a shell_sys_scheme" where
  "clear_line s = say prompt_text (s\<lparr>buf_len := 0, line_buffer := replicate BUFFER_SIZE 0\<rparr>)"

definition put_char ::
  "('a shell_sys_scheme, 'e) shell_env_scheme \<Rightarrow> special_char \<Rightarrow> u8 \<Rightarrow> 'a shell_sys_scheme \<Rightarrow> 'a shell_sys_scheme shell_flow option" where
  "put_char env sc c s =
     (case sc of
        DELETE \<Rightarrow> Some (Prompt (say [8, 32, 8] (if buf_len s > 0 then s\<lparr>buf_len := buf_len s - 1\<rparr> else s)))
      | LINE_FEED \<Rightarrow>
          let s1 = say newline s
          in (case (if buf_len s1 = BUFFER_SIZE then Some (Prompt (say too_long_text s1))
                    else cmp_command env (s1\<lparr>line_buffer := (line_buffer s1)[buf_len s1 := 0]\<rparr>)) of
                None \<Rightarrow> None
              | Some (Jump a s2) \<Rightarrow> Some (Jump a s2)
              | Some (Prompt s2) \<Rightarrow> Some (Prompt (clear_line s2)))
      | REGULAR_INPUT \<Rightarrow>
          Some (Prompt (say [c]
            (if buf_len s < BUFFER_SIZE
             then s\<lparr>line_buffer := (line_buffer s)[buf_len s := c], buf_len := buf_len s + 1\<rparr> else s)))
      | _ \<Rightarrow> Some (Prompt s))"

text \<open>One round of the endless loop, and the loop until it jumps or has read \<open>n\<close> keys.\<close>

definition shell_round ::
  "('a shell_sys_scheme, 'e) shell_env_scheme \<Rightarrow> 'a shell_sys_scheme \<Rightarrow> 'a shell_sys_scheme shell_flow option" where
  "shell_round env s0 =
     (case getc (s0\<lparr>sie := True\<rparr>) of None \<Rightarrow> None | Some (c, s) \<Rightarrow> put_char env (parse c) c s)"

primrec shell_rounds ::
  "('a shell_sys_scheme, 'e) shell_env_scheme \<Rightarrow> nat \<Rightarrow> 'a shell_sys_scheme \<Rightarrow> 'a shell_sys_scheme shell_flow option" where
  "shell_rounds env 0 s = Some (Prompt s)"
| "shell_rounds env (Suc n) s =
     (case shell_round env s of
        None \<Rightarrow> None
      | Some (Jump a s1) \<Rightarrow> Some (Jump a s1)
      | Some (Prompt s1) \<Rightarrow> shell_rounds env n s1)"

definition shell ::
  "('a shell_sys_scheme, 'e) shell_env_scheme \<Rightarrow> nat \<Rightarrow> 'a shell_sys_scheme \<Rightarrow> 'a shell_sys_scheme shell_flow option" where
  "shell env n s = shell_rounds env n (say prompt_text s)"

end
