(* ===== verification/Line_Editor.thy ===== *)
theory Line_Editor
  imports Prelude
begin

text \<open>
  What a user types, as the two shells edit it: keys that append, keys that delete, keys without
  effect, and the keys that submit the line. The locale is the contract of a shell's
  key routine; its lemmas say what a sequence of keys leaves in the line.
\<close>

datatype key_kind = Insert | Erase | Submit | Ignore

definition kind_of :: "u8 \<Rightarrow> key_kind" where
  "kind_of c =
     (if c > 127 then Ignore else if c = 127 \<or> c = 8 then Erase else if c = 13 \<or> c = 10 then Submit else Insert)"

text \<open>A line of at most \<open>cap\<close> characters: further ones are dropped.\<close>

definition edit :: "nat \<Rightarrow> u8 list \<Rightarrow> u8 \<Rightarrow> u8 list" where
  "edit cap l c =
     (case kind_of c of
        Insert \<Rightarrow> if length l < cap then l @ [c] else l
      | Erase \<Rightarrow> butlast l
      | _ \<Rightarrow> l)"

definition echo :: "u8 \<Rightarrow> u8 list" where
  "echo c = (case kind_of c of Insert \<Rightarrow> [c] | Erase \<Rightarrow> [8, 32, 8] | _ \<Rightarrow> [])"

lemma length_edit: "length l \<le> cap \<Longrightarrow> length (edit cap l c) \<le> cap"
  by (auto simp: edit_def split: key_kind.split)

lemma edit_inserts: "list_all (\<lambda>c. kind_of c = Insert) cs \<Longrightarrow> length l + length cs \<le> cap \<Longrightarrow> foldl (edit cap) l cs = l @ cs"
  by (induction cs arbitrary: l) (auto simp: edit_def)

lemma echo_inserts: "list_all (\<lambda>c. kind_of c = Insert) cs \<Longrightarrow> concat (map echo cs) = cs"
  by (induction cs) (auto simp: echo_def)

text \<open>\<open>press c s\<close> is the state after one key that does not submit.\<close>

locale line_editor =
  fixes press :: "u8 \<Rightarrow> 's \<Rightarrow> 's option" and line :: "'s \<Rightarrow> u8 list" and shown :: "'s \<Rightarrow> u8 list"
    and rest :: "'s \<Rightarrow> 'r" and good :: "'s \<Rightarrow> bool" and cap :: nat
  assumes press_line: "good s \<Longrightarrow> kind_of c \<noteq> Submit \<Longrightarrow>
      \<exists>s'. press c s = Some s' \<and> good s' \<and> line s' = edit cap (line s) c \<and> shown s' = shown s @ echo c \<and> rest s' = rest s"
begin

primrec type :: "u8 list \<Rightarrow> 's \<Rightarrow> 's option" where
  "type [] s = Some s"
| "type (c # cs) s = Option.bind (press c s) (type cs)"

lemma type_line:
  "good s \<Longrightarrow> list_all (\<lambda>c. kind_of c \<noteq> Submit) cs \<Longrightarrow>
    \<exists>s'. type cs s = Some s' \<and> good s' \<and> line s' = foldl (edit cap) (line s) cs \<and>
      shown s' = shown s @ concat (map echo cs) \<and> rest s' = rest s"
proof (induction cs arbitrary: s)
  case (Cons c cs)
  then obtain s1 where s1: "press c s = Some s1" "good s1" "line s1 = edit cap (line s) c" "shown s1 = shown s @ echo c" "rest s1 = rest s"
    using press_line [of s c] by auto
  then show ?case using Cons.IH [of s1] Cons.prems by auto
qed simp

end

end
