(* ===== verification/Shell_Spec.thy ===== *)
theory Shell_Spec
  imports Shell Line_Editor Process_Spec "HOL-Library.Sublist"
begin

text \<open>
  The shell as its user sees it: the line the keys make, the command a line runs, the image a load
  leaves in memory, and the message a timeout prints.
\<close>

subsection \<open>Editing a line\<close>

definition shell_ok :: "'a shell_sys_scheme \<Rightarrow> bool" where
  "shell_ok s \<longleftrightarrow> length (line_buffer s) = BUFFER_SIZE \<and> buf_len s \<le> BUFFER_SIZE"

definition typed_line :: "'a shell_sys_scheme \<Rightarrow> u8 list" where "typed_line s = take (buf_len s) (line_buffer s)"

text \<open>Everything but the line, the console and the keys.\<close>

definition machine :: "'a shell_sys_scheme \<Rightarrow> 'a shell_sys_scheme" where
  "machine s = s\<lparr>line_buffer := [], buf_len := 0, console := [], keys := []\<rparr>"

definition press_key ::
  "('a shell_sys_scheme, 'e) shell_env_scheme \<Rightarrow> u8 \<Rightarrow> 'a shell_sys_scheme \<Rightarrow> 'a shell_sys_scheme option" where
  "press_key env c s = (case put_char env (parse c) c s of Some (Prompt s') \<Rightarrow> Some s' | _ \<Rightarrow> None)"

lemma parse_kind:
  "parse c = (case kind_of c of Insert \<Rightarrow> REGULAR_INPUT | Erase \<Rightarrow> DELETE | Submit \<Rightarrow> LINE_FEED | Ignore \<Rightarrow> UNKNOWN)"
  by (simp add: parse_def kind_of_def)

lemma take_update_last: "n < length b \<Longrightarrow> take (Suc n) (b[n := c]) = take n b @ [c]"
  by (simp add: take_Suc_conv_app_nth)

lemma take_pred: "n \<le> length b \<Longrightarrow> take (n - Suc 0) b = butlast (take n b)"
  by (simp add: butlast_take)

interpretation editor: line_editor "press_key env" typed_line console "\<lambda>s. (machine s, keys s)" shell_ok BUFFER_SIZE for env
proof
  fix s :: "'a shell_sys_scheme" and c
  assume ok: "shell_ok s" and c: "kind_of c \<noteq> Submit"
  show "\<exists>s'. press_key env c s = Some s' \<and> shell_ok s' \<and> typed_line s' = edit BUFFER_SIZE (typed_line s) c \<and>
      console s' = console s @ echo c \<and> (machine s', keys s') = (machine s, keys s)"
    using ok c take_update_last [of "buf_len s" "line_buffer s" c] take_pred [of "buf_len s" "line_buffer s"]
    by (cases "kind_of c")
      (auto simp: press_key_def put_char_def parse_kind edit_def echo_def shell_ok_def typed_line_def machine_def say_def)
qed


subsection \<open>The command of a line\<close>

datatype command = Help | Hello | Info | Load | Ls | Test | Cat | Exec | Set_Timeout | Test_Task | Test_Thread | No_Command

text \<open>A command word alone, or followed by a space.\<close>

definition begins :: "u8 list \<Rightarrow> string \<Rightarrow> bool" where
  "begins l w \<longleftrightarrow> l = bytes_of w \<or> prefix (bytes_of w @ [32]) l"

definition command_of :: "u8 list \<Rightarrow> command" where
  "command_of l =
     (if l = bytes_of ''help'' then Help else if l = bytes_of ''hello'' then Hello
      else if l = bytes_of ''info'' then Info else if l = bytes_of ''load'' then Load
      else if l = bytes_of ''ls'' then Ls else if l = bytes_of ''test'' then Test
      else if begins l ''cat'' then Cat else if begins l ''exec'' then Exec
      else if begins l ''setTimeout'' then Set_Timeout
      else if l = bytes_of ''testTask'' then Test_Task else if l = bytes_of ''testThread'' then Test_Thread
      else No_Command)"

definition run_command ::
  "('a shell_sys_scheme, 'e) shell_env_scheme \<Rightarrow> command \<Rightarrow> 'a shell_sys_scheme \<Rightarrow> 'a shell_sys_scheme shell_flow option" where
  "run_command env k s =
     (case k of
        Help \<Rightarrow> Some (Prompt (command_help s)) | Hello \<Rightarrow> Some (Prompt (command_hello s))
      | Info \<Rightarrow> Some (Prompt (command_info env s)) | Load \<Rightarrow> command_load env s
      | Ls \<Rightarrow> map_option Prompt (command_ls env s) | Test \<Rightarrow> Some (Prompt (command_test s))
      | Cat \<Rightarrow> map_option Prompt (command_cat env s) | Exec \<Rightarrow> map_option Prompt (command_exec env s)
      | Set_Timeout \<Rightarrow> Some (Prompt (command_setTimeout env s))
      | Test_Task \<Rightarrow> map_option Prompt (command_testTask env s)
      | Test_Thread \<Rightarrow> map_option Prompt (sh_test_threads env s)
      | No_Command \<Rightarrow> Some (Prompt (command_unknown s)))"

lemma c_string_zero: "i < length (c_string b) \<Longrightarrow> c_string b ! i \<noteq> 0"
  unfolding c_string_def by (drule nth_mem, drule set_takeWhileD) simp

lemma at_ptr_string: "i < length (c_string b) \<Longrightarrow> at_ptr b i = c_string b ! i"
  unfolding c_string_def at_ptr_def using length_takeWhile_le [of "\<lambda>c. c \<noteq> 0" b] by (auto simp: takeWhile_nth)

lemma at_ptr_end: "at_ptr b (length (c_string b)) = 0"
  unfolding c_string_def at_ptr_def using nth_length_takeWhile [of "\<lambda>c. c \<noteq> 0" b] by auto

lemma begins_iff:
  assumes w: "0 \<notin> set (bytes_of w)"
  shows "line_begins b w \<longleftrightarrow> begins (c_string b) w"
proof -
  let ?l = "c_string b" and ?w = "bytes_of w"
  have lw: "length ?w = length w" by (simp add: bytes_of_def)
  have pre: "(\<forall>i\<in>set [0..<length w]. at_ptr b i = ?w ! i) \<longleftrightarrow> prefix ?w ?l"
  proof
    assume a: "\<forall>i\<in>set [0..<length w]. at_ptr b i = ?w ! i"
    have "length w \<le> length ?l"
    proof (rule ccontr)
      assume "\<not> length w \<le> length ?l"
      then have "?w ! length ?l = 0" "length ?l < length w" using a at_ptr_end [of b] by auto
      then show False using w lw nth_mem by metis
    qed
    then have "?w = take (length w) ?l" using a at_ptr_string [of _ b] lw by (intro nth_equalityI) auto
    then show "prefix ?w ?l" by (metis take_is_prefix)
  next
    assume "prefix ?w ?l"
    then obtain r where r: "?l = ?w @ r" by (auto simp: prefix_def)
    have "at_ptr b i = ?w ! i" if "i < length w" for i
      using at_ptr_string [of i b] that lw by (simp add: r nth_append)
    then show "\<forall>i\<in>set [0..<length w]. at_ptr b i = ?w ! i" by simp
  qed
  show ?thesis
  proof (cases "prefix ?w ?l")
    case True
    then obtain r where r: "?l = ?w @ r" by (auto simp: prefix_def)
    show ?thesis
    proof (cases r)
      case Nil
      then have "at_ptr b (length w) = 0" using at_ptr_end [of b] lw by (simp add: r)
      then show ?thesis using True Nil unfolding line_begins_def pre begins_def by (simp add: r)
    next
      case (Cons c r')
      then have "at_ptr b (length w) = c" "c \<noteq> 0"
        using at_ptr_string [of "length w" b] c_string_zero [of "length w" b] lw by (simp_all add: r nth_append)
      then show ?thesis using True Cons unfolding line_begins_def pre begins_def r by auto
    qed
  next
    case False
    then have "\<not> begins ?l w" unfolding begins_def by (auto simp: prefix_def)
    then show ?thesis using False unfolding line_begins_def pre by simp
  qed
qed

lemma cmp_command_run: "cmp_command env s = run_command env (command_of (c_string (line_buffer s))) s"
proof -
  have "line_begins b ''cat'' = begins (c_string b) ''cat''" "line_begins b ''exec'' = begins (c_string b) ''exec''"
    "line_begins b ''setTimeout'' = begins (c_string b) ''setTimeout''" for b
    by (rule begins_iff, simp add: bytes_of_def)+
  then show ?thesis by (simp add: cmp_command_def line_is_def command_of_def run_command_def Let_def)
qed

subsection \<open>Rounds\<close>

lemma shell_round_key:
  assumes "sie s" "keys s = c # ks" "kind_of c \<noteq> Submit"
  shows "shell_round env s = map_option Prompt (press_key env c (s\<lparr>keys := ks\<rparr>))"
proof -
  have "s\<lparr>sie := True\<rparr> = s" using assms(1) by simp
  moreover have "c \<noteq> 13" using assms(3) by (auto simp: kind_of_def)
  ultimately have "shell_round env s = put_char env (parse c) c (s\<lparr>keys := ks\<rparr>)"
    using assms(2) by (simp add: shell_round_def getc_def getc_raw_def)
  moreover have "\<exists>s'. put_char env (parse c) c (s\<lparr>keys := ks\<rparr>) = Some (Prompt s')"
    using assms(3) by (cases "kind_of c") (auto simp: put_char_def parse_kind)
  ultimately show ?thesis by (auto simp: press_key_def)
qed

lemma shell_round_submit:
  assumes "sie s" "keys s = e # ks" "kind_of e = Submit"
  shows "shell_round env s = put_char env LINE_FEED 10 (s\<lparr>keys := ks\<rparr>)"
proof -
  have "s\<lparr>sie := True\<rparr> = s" using assms(1) by simp
  moreover have "e = 13 \<or> e = 10" using assms(3) by (auto simp: kind_of_def split: if_splits)
  then have "(if e = 13 then 10 else e) = 10" "parse 10 = LINE_FEED" by (auto simp: parse_def)
  ultimately show ?thesis using assms(2) by (simp add: shell_round_def getc_def getc_raw_def)
qed

lemma rounds_one: "shell_rounds env 1 s = shell_round env s"
  by (simp split: option.split shell_flow.split)

lemma machine_sie: "machine s' = machine s \<Longrightarrow> sie s' = sie s"
proof -
  assume "machine s' = machine s"
  then have "sie (machine s') = sie (machine s)" by simp
  then show ?thesis by (simp add: machine_def)
qed

lemma shell_rounds_type:
  assumes "sie s" "shell_ok s" "list_all (\<lambda>c. kind_of c \<noteq> Submit) cs" "keys s = cs @ ks"
  shows "\<exists>s'. shell_rounds env (length cs + n) s = shell_rounds env n s' \<and> shell_ok s' \<and>
    typed_line s' = foldl (edit BUFFER_SIZE) (typed_line s) cs \<and> console s' = console s @ concat (map echo cs) \<and>
    machine s' = machine s \<and> keys s' = ks"
  using assms
proof (induction cs arbitrary: s)
  case (Cons c cs)
  let ?s = "s\<lparr>keys := cs @ ks\<rparr>"
  have ok: "shell_ok ?s" "kind_of c \<noteq> Submit" using Cons.prems by (simp_all add: shell_ok_def)
  obtain s1 where s1: "press_key env c ?s = Some s1" "shell_ok s1" "typed_line s1 = edit BUFFER_SIZE (typed_line s) c"
    "console s1 = console s @ echo c" "machine s1 = machine s" "keys s1 = cs @ ks"
    using editor.press_line [OF ok, of env] by (auto simp: typed_line_def machine_def)
  have "shell_round env s = Some (Prompt s1)"
    using shell_round_key [of s c "cs @ ks" env] Cons.prems s1(1) by simp
  then show ?case
    using Cons.IH [of s1] Cons.prems s1 machine_sie [OF s1(5)] by simp
qed (use exI in auto)


lemma c_string_end: "c_string (xs @ 0 # ys) = c_string xs"
  by (induction xs) (simp_all add: c_string_def)

lemma submitted_string: "n < length b \<Longrightarrow> c_string (b[n := 0]) = c_string (take n b)"
  by (simp add: upd_conv_take_nth_drop c_string_end)

subsection \<open>Loading an image\<close>

text \<open>The header the sender writes: two little-endian words.\<close>

definition le_bytes :: "u32 \<Rightarrow> u8 list" where
  "le_bytes w = map (\<lambda>i. ucast (drop_bit (8 * i) w)) [0..<4]"

lemma word_of_le_bytes:
  fixes w :: u32
  shows "ucast (ucast w :: u8) OR push_bit 8 (ucast (ucast (drop_bit 8 w) :: u8)) OR push_bit 16 (ucast (ucast (drop_bit 16 w) :: u8)) OR
    push_bit 24 (ucast (ucast (drop_bit 24 w) :: u8)) = w"
proof (rule bit_eqI)
  fix n assume "possible_bit TYPE(32 word) n"
  then have "n < 32" by simp
  then consider "n < 8" | "8 \<le> n" "n < 16" | "16 \<le> n" "n < 24" | "24 \<le> n" "n < 32" by linarith
  then show "bit (ucast (ucast w :: u8) OR push_bit 8 (ucast (ucast (drop_bit 8 w) :: u8)) OR push_bit 16 (ucast (ucast (drop_bit 16 w) :: u8)) OR
      push_bit 24 (ucast (ucast (drop_bit 24 w) :: u8)) :: u32) n = bit w n"
    by cases (auto simp: bit_simps)
qed

lemma getc_raw_keys: "keys s = c # ks \<Longrightarrow> getc_raw s = Some (c, s\<lparr>keys := ks\<rparr>)"
  by (simp add: getc_raw_def)

lemma read_word_keys:
  assumes "keys s = le_bytes w @ ks" "13 \<notin> set (le_bytes w)"
  shows "read_word s = Some (w, s\<lparr>keys := ks\<rparr>)"
proof -
  define a b c d where "a = (ucast w :: u8)" and "b = (ucast (drop_bit 8 w) :: u8)" and "c = (ucast (drop_bit 16 w) :: u8)" and "d = (ucast (drop_bit 24 w) :: u8)"
  have l: "le_bytes w = [a, b, c, d]" by (simp add: le_bytes_def upt_rec a_def b_def c_def d_def)
  then have "read_word s = Some (ucast a OR push_bit 8 (ucast b) OR push_bit 16 (ucast c) OR push_bit 24 (ucast d), s\<lparr>keys := ks\<rparr>)"
    using assms by (simp add: read_word_def getc_def getc_raw_def)
  moreover have "ucast a OR push_bit 8 (ucast b) OR push_bit 16 (ucast c) OR push_bit 24 (ucast d) = w"
    unfolding a_def b_def c_def d_def by (rule word_of_le_bytes)
  ultimately show ?thesis by simp
qed

lemma receive_keys:
  assumes "length data \<le> 2 ^ 32" "keys s = data @ ks"
  shows "\<exists>m. receive dst (length data) s = Some (s\<lparr>keys := ks, mem := m\<rparr>) \<and>
    (\<forall>a. load8 m a = (if unat (a - dst) < length data then data ! unat (a - dst) else load8 (mem s) a))"
  using assms
proof (induction data arbitrary: dst s)
  case Nil
  then have "s = s\<lparr>keys := ks, mem := mem s\<rparr>" by simp
  then have "receive dst (length []) s = Some (s\<lparr>keys := ks, mem := mem s\<rparr>)" by simp
  then show ?case by (intro exI [of _ "mem s"]) simp
next
  case (Cons c cs)
  let ?s1 = "s\<lparr>keys := cs @ ks, mem := with_bytes (\<lambda>b. b(dst := c)) (mem s)\<rparr>"
  obtain m where m: "receive (dst + 1) (length cs) ?s1 = Some (?s1\<lparr>keys := ks, mem := m\<rparr>)"
    "\<forall>a. load8 m a = (if unat (a - (dst + 1)) < length cs then cs ! unat (a - (dst + 1)) else load8 (mem ?s1) a)"
    using Cons.IH [of ?s1 "dst + 1"] Cons.prems by auto
  have "load8 m a = (if unat (a - dst) < length (c # cs) then (c # cs) ! unat (a - dst) else load8 (mem s) a)" for a
  proof (cases "a = dst")
    case True
    have "unat (- 1 :: u64) = 2 ^ 64 - 1" by (simp only: unsigned_minus_1_eq_mask) (simp add: mask_eq_exp_minus_1)
    then have "\<not> unat (a - (dst + 1)) < length cs" using Cons.prems(1) True by simp
    then show ?thesis using m(2) True by simp
  next
    case False
    then have "a - dst \<noteq> 0" by simp
    then have "unat (a - dst) = Suc (unat (a - dst - 1))" using unat_minus_one [of "a - dst"] by (simp add: unat_gt_0)
    moreover have "a - (dst + 1) = a - dst - 1" by simp
    ultimately show ?thesis using m(2) [rule_format, of a] False by (simp only:) simp
  qed
  moreover have "receive dst (length (c # cs)) s = receive (dst + 1) (length cs) ?s1"
    using Cons.prems(2) getc_raw_keys [of s c "cs @ ks"] by simp
  ultimately show ?case using m(1) by (intro exI [of _ m]) simp
qed

subsection \<open>A machine with a shell\<close>

definition plain_env :: "'a shell_sys_scheme shell_env" where
  "plain_env = \<lparr>sh_symbols = \<lparr>sy_user_program_start = 0x1000, sy_ret_from_fork = 0x1100, sy_wakeup_callback = 0x1200\<rparr>,
     sh_qemu = True, sh_image = (\<lambda>_. \<lparr>im_bytes = (\<lambda>_. 0), im_dtb_addr = 0, im_cpio_addr = 0, im_trailer = 0\<rparr>),
     sh_buffer = 0x2000, sh_timeout_cb = 0x1300, sh_test_task_cb = 0x1400,
     sh_literal = (\<lambda>w. if w = ''1'' then 0x1500 else if w = ''3'' then 0x1510 else 0x1520),
     sh_string = (\<lambda>p. if p = 0x1500 then [49] else if p = 0x1510 then [51] else [53]),
     sh_sbi = (\<lambda>_. 0), sh_resume = Some, sh_call = (\<lambda>_ _ s. s), sh_test_threads = Some\<rparr>"

definition shell_machine :: "u8 list \<Rightarrow> shell_sys" where
  "shell_machine ks = (thread_sys.extend boot_sys
     (shell_sys.fields (replicate BUFFER_SIZE 0) 0 [] ks (\<lambda>_. \<lparr>ta_duration_sec = 0, ta_exec_time = 0, ta_msg = []\<rparr>)))\<lparr>sie := True\<rparr>"

lemma shell_machine_fields [simp]:
  "sie (shell_machine ks)" "keys (shell_machine ks) = ks" "console (shell_machine ks) = []" "shell_ok (shell_machine ks)"
  "typed_line (shell_machine ks) = []"
  by (simp_all add: shell_machine_def shell_ok_def typed_line_def thread_sys.extend_def shell_sys.fields_def)

subsection \<open>Properties\<close>




text \<open>\<^verbatim>\<open>load\<close> and the sender's protocol. After the two header words of an image, its bytes and the rest
  of the keys, the image lies at the load address, no other byte of memory has changed, exactly the image's
  bytes have been read, and the shell jumps to its first byte; the one condition is that no byte of the size
  is a carriage return.\<close>

theorem command_load_roundtrip:
  assumes "length img < 2 ^ 32" "13 \<notin> set (le_bytes (of_nat (length img)))"
    and "keys s = le_bytes BOOT_MAGIC @ le_bytes (of_nat (length img)) @ img @ ks"
  shows "\<exists>s'. command_load env s = Some (Jump (KERNEL_LOAD_ADDR (sh_qemu env)) s') \<and> keys s' = ks \<and>
    (\<forall>i<length img. load8 (mem s') (KERNEL_LOAD_ADDR (sh_qemu env) + of_nat i) = img ! i) \<and>
    (\<forall>a. length img \<le> unat (a - KERNEL_LOAD_ADDR (sh_qemu env)) \<longrightarrow> load8 (mem s') a = load8 (mem s) a)"
proof -
  let ?A = "KERNEL_LOAD_ADDR (sh_qemu env)" and ?n = "of_nat (length img) :: u32"
  define s1 where "s1 = say (bytes_of ''Waiting for kernel over UART...'' @ newline) s"
  have k1: "keys s1 = le_bytes BOOT_MAGIC @ le_bytes ?n @ img @ ks" and m1: "mem s1 = mem s"
    using assms(3) by (simp_all add: s1_def say_def)
  have "13 \<notin> set (le_bytes BOOT_MAGIC)" by (simp add: le_bytes_def BOOT_MAGIC_def upt_rec)
  note r1 = read_word_keys [OF k1 this]
  define s2 where "s2 = s1\<lparr>keys := img @ ks\<rparr>"
  have r2: "read_word (s1\<lparr>keys := le_bytes ?n @ img @ ks\<rparr>) = Some (?n, s2)"
    using read_word_keys [of "s1\<lparr>keys := le_bytes ?n @ img @ ks\<rparr>" ?n "img @ ks"] assms(2) by (simp add: s2_def)
  have n: "unat ?n = length img" using assms(1) by (simp add: unsigned_of_nat take_bit_nat_eq_self)
  have k2: "keys s2 = img @ ks" by (simp add: s2_def)
  obtain m where m: "receive ?A (length img) s2 = Some (s2\<lparr>keys := ks, mem := m\<rparr>)"
    "\<forall>a. load8 m a = (if unat (a - ?A) < length img then img ! unat (a - ?A) else load8 (mem s2) a)"
    using receive_keys [of img s2 ks ?A] assms(1) k2 by auto
  have "mem s2 = mem s" by (simp add: s2_def m1)
  moreover have "unat (of_nat i :: u64) = i" if "i < length img" for i using that assms(1) by (simp add: unat_of_nat_small)
  moreover have "\<exists>text. command_load env s = Some (Jump ?A (say text (s2\<lparr>keys := ks, mem := m\<rparr>)))"
    unfolding command_load_def s1_def [symmetric] by (auto simp: r1 r2 n m(1))
  ultimately show ?thesis using m(2) by (auto simp: say_def)
qed

text \<open>A size with a carriage return in it: \<^verbatim>\<open>uart_getc\<close> turns it into a line feed, and an image of 13 bytes
  is loaded without its last three.\<close>

lemma load_of_13_bytes:
  assumes "length img = 10" "keys s = le_bytes BOOT_MAGIC @ le_bytes 13 @ img @ [x, y, z]"
  shows "\<exists>s'. command_load env s = Some (Jump (KERNEL_LOAD_ADDR (sh_qemu env)) s') \<and> keys s' = [x, y, z]"
proof -
  let ?A = "KERNEL_LOAD_ADDR (sh_qemu env)"
  define s1 where "s1 = say (bytes_of ''Waiting for kernel over UART...'' @ newline) s"
  have k1: "keys s1 = le_bytes BOOT_MAGIC @ le_bytes 13 @ img @ [x, y, z]" using assms(2) by (simp add: s1_def say_def)
  have "13 \<notin> set (le_bytes BOOT_MAGIC)" by (simp add: le_bytes_def BOOT_MAGIC_def upt_rec)
  note r1 = read_word_keys [OF k1 this]
  define s2 where "s2 = s1\<lparr>keys := img @ [x, y, z]\<rparr>"
  have "read_word (s1\<lparr>keys := le_bytes 13 @ img @ [x, y, z]\<rparr>) = Some (10, s2)"
    by (simp add: read_word_def getc_def getc_raw_def s2_def le_bytes_def upt_rec)
  moreover obtain m where "receive ?A (length img) s2 = Some (s2\<lparr>keys := [x, y, z], mem := m\<rparr>)"
    using receive_keys [of img s2 "[x, y, z]" ?A] assms(1) by (auto simp: s2_def)
  ultimately have "\<exists>text. command_load env s = Some (Jump ?A (say text (s2\<lparr>keys := [x, y, z], mem := m\<rparr>)))"
    unfolding command_load_def s1_def [symmetric] using assms(1) by (auto simp: r1)
  then show ?thesis by (auto simp: say_def)
qed

end
