(* ===== verification/Shell_Jobs.thy ===== *)
theory Shell_Jobs
  imports Shell_Spec
begin

text \<open>
  The commands that hand work to other components: delayed messages through the timers, and
  the priority test through the deferred tasks.
\<close>

subsection \<open>Fields the allocator and the timers keep\<close>

lemma shell_fields:
  fixes s s' :: "'a shell_sys_scheme"
  assumes "timer_state.more s' = timer_state.more s"
  shows "line_buffer s' = line_buffer s" "buf_len s' = buf_len s" "console s' = console s" "keys s' = keys s"
    "timeout_args s' = timeout_args s"
  using assms by (cases s; cases s'; simp)+

lemma kmalloc_timer_more [simp]:
  fixes s :: "'a timer_state_scheme"
  shows "timer_state.more (snd (kmalloc n s)) = timer_state.more s" "timer_state.more (kfree p s) = timer_state.more s"
  by (rule timer_fields(6), simp)+

lemma add_timer_more [simp]:
  fixes s :: "'a timer_state_scheme"
  shows "timer_state.more (add_timer_ticks callback arg ticks s) = timer_state.more s"
proof -
  have i: "timer_state.more (insert_event e t) = timer_state.more t" for e and t :: "'a timer_state_scheme"
    by (simp add: insert_event_eq)
  show ?thesis
    by (simp add: add_timer_ticks_def irq_defs split_def Let_def get_cycles_def i)
qed

lemmas shell_kept = shell_fields [OF kmalloc_timer_more(1)] shell_fields [OF kmalloc_timer_more(2)] shell_fields [OF add_timer_more]

lemma timer_inv_view:
  fixes s s' :: "'a timer_state_scheme"
  assumes "kmalloc_state.truncate s' = kmalloc_state.truncate s" "timer_list s' = timer_list s" "sbi_timer s' = sbi_timer s"
  shows "timer_inv s' = timer_inv s"
  using kmalloc_view [OF assms(1)] assms(2,3) by (simp add: timer_inv_def nodes_owned_def)

lemma timer_inv_kmalloc: "timer_inv s \<Longrightarrow> timer_inv (snd (kmalloc n s))"
proof -
  assume i: "timer_inv s"
  then have "kmalloc_inv (snd (kmalloc n s))" using kheap.alloc_inv [of s n] by (simp add: timer_inv_def)
  moreover have "nodes_owned (snd (kmalloc n s)) (map fst (timer_list s))"
    using i kheap.alloc_keeps [of s] by (simp add: timer_inv_def nodes_owned_def)
  ultimately show ?thesis using i by (simp add: timer_inv_def)
qed

subsection \<open>The words of a line\<close>

lemma skip_while_span:
  assumes "list_all P ys" "zs = [] \<or> \<not> P (hd zs)"
  shows "skip_while P (xs @ ys @ zs) (length xs) = length xs + length ys"
proof -
  have "takeWhile P zs = []" using assms(2) by (cases zs) auto
  then show ?thesis using assms(1) by (simp add: skip_while_def takeWhile_append list_all_iff)
qed

lemma c_string_rest: "\<exists>r. b = c_string b @ r \<and> (r = [] \<or> hd r = 0)"
proof -
  have "b = c_string b @ dropWhile (\<lambda>c. c \<noteq> 0) b" by (simp add: c_string_def)
  moreover have "dropWhile (\<lambda>c. c \<noteq> 0) b = [] \<or> hd (dropWhile (\<lambda>c. c \<noteq> 0) b) = 0" using hd_dropWhile [of "\<lambda>c. c \<noteq> 0" b] by blast
  ultimately show ?thesis by blast
qed

lemma digits_value_snoc: "digits_value (ds @ [d]) = digits_value ds * 10 + (ucast d - 48)"
  by (simp add: digits_value_def)

lemma digits_value_dec: "digits_value (dec_digits n) = of_nat n"
proof (induction n rule: dec_digits.induct)
  case (1 n)
  have d: "ucast (48 + of_nat m :: u8) - 48 = (of_nat m :: u32)" if "m < 10" for m
  proof -
    have "m \<in> {..<10}" using that by simp
    then have "m \<in> {0, 1, 2, 3, 4, 5, 6, 7, 8, 9}" by auto
    then show ?thesis by auto
  qed
  show ?case
  proof (cases "n = 0")
    case False
    then have "digits_value (dec_digits n) = of_nat (n div 10) * 10 + of_nat (n mod 10)"
      using 1 d [of "n mod 10"] by (subst dec_digits.simps) (simp add: digits_value_snoc)
    moreover have "of_nat n = (of_nat (n div 10 * 10 + n mod 10) :: u32)" by (simp only: div_mult_mod_eq)
    ultimately show ?thesis by (simp only: of_nat_add of_nat_mult of_nat_numeral)
  qed (simp add: dec_digits.simps digits_value_def)
qed

lemma decimal_digits: "decimal n \<noteq> []" "list_all is_digit (decimal n)" "digits_value (decimal n) = of_nat n"
proof -
  show "decimal n \<noteq> []" using dec_digits_head [of n] by (simp add: decimal_def)
  show "list_all is_digit (decimal n)" using dec_digits_range [of _ n] by (auto simp: decimal_def is_digit_def list_all_iff)
  show "digits_value (decimal n) = of_nat n"
    using digits_value_dec [of n] by (simp add: decimal_def) (simp add: digits_value_def)
qed

lemma timeout_request_line:
  assumes l: "c_string b = bytes_of ''setTimeout'' @ [32] @ decimal n @ [32] @ msg" and msg: "msg \<noteq> []" "hd msg \<noteq> 32"
  shows "\<exists>m. timeout_request b = Some (of_nat n, m) \<and> c_string (drop m b) = msg"
proof -
  let ?w = "bytes_of ''setTimeout''" and ?d = "decimal n"
  obtain r where r: "b = c_string b @ r" "r = [] \<or> hd r = 0" using c_string_rest by blast
  have b: "b = ?w @ [32] @ ?d @ [32] @ msg @ r" using r(1) by (simp add: l)
  note d = decimal_digits [of n]
  have dig: "is_digit (hd ?d)" using d(1,2) by (cases "decimal n") auto
  have "skip_while (\<lambda>c. c \<noteq> 0 \<and> c \<noteq> 32) ([] @ ?w @ [32] @ ?d @ [32] @ msg @ r) (length ([] :: u8 list)) = length ([] :: u8 list) + length ?w"
    by (rule skip_while_span) (simp_all add: bytes_of_def)
  then have 1: "skip_while (\<lambda>c. c \<noteq> 0 \<and> c \<noteq> 32) b 0 = length ?w" by (simp add: b)
  have "skip_while (\<lambda>c. c = 32) ((?w @ [32]) @ [] @ ?d @ [32] @ msg @ r) (length (?w @ [32])) = length (?w @ [32]) + length ([] :: u8 list)"
    by (rule skip_while_span) (use d(1) dig in \<open>auto simp: is_digit_def hd_append\<close>)
  then have 2: "skip_while (\<lambda>c. c = 32) b (length ?w + 1) = length ?w + 1" by (simp add: b)
  have "skip_while is_digit ((?w @ [32]) @ ?d @ [32] @ msg @ r) (length (?w @ [32])) = length (?w @ [32]) + length ?d"
    by (rule skip_while_span) (use d(2) in \<open>auto simp: is_digit_def\<close>)
  then have 3: "skip_while is_digit b (length ?w + 1) = length ?w + 1 + length ?d" by (simp add: b)
  have "skip_while (\<lambda>c. c = 32) ((?w @ [32] @ ?d) @ [32] @ msg @ r) (length (?w @ [32] @ ?d)) = length (?w @ [32] @ ?d) + length [32 :: u8]"
    by (rule skip_while_span) (use msg in \<open>auto simp: hd_append\<close>)
  then have 4: "skip_while (\<lambda>c. c = 32) b (length ?w + 1 + length ?d) = length ?w + 1 + length ?d + 1" by (simp add: b)
  have at: "at_ptr b (length xs) = c" if "b = xs @ c # ys" for xs c ys
    using that by (simp add: at_ptr_def)
  have a1: "at_ptr b (length ?w) = 32" by (rule at [where ys = "?d @ [32] @ msg @ r"]) (simp add: b)
  have a2: "at_ptr b (length ?w + 1) = hd ?d"
    using at [of "?w @ [32]" "hd ?d" "tl ?d @ [32] @ msg @ r"] d(1) by (simp add: b)
  have a3: "at_ptr b (length ?w + 1 + length ?d) = 32"
    using at [of "?w @ [32] @ ?d" 32 "msg @ r"] by (simp add: b)
  have a4: "at_ptr b (length ?w + 1 + length ?d + 1) = hd msg"
    using at [of "?w @ [32] @ ?d @ [32]" "hd msg" "tl msg @ r"] msg(1) by (simp add: b)
  have nz: "0 \<notin> set (c_string b)" by (auto simp: c_string_def dest: set_takeWhileD)
  then have h: "hd msg \<noteq> 0" using msg(1) unfolding l by (cases msg) auto
  have "drop (length ?w + 1) b = ?d @ 32 # msg @ r" by (simp add: b)
  then have v: "takeWhile is_digit (drop (length ?w + 1) b) = ?d"
    using d(2) by (simp add: takeWhile_append list_all_iff is_digit_def)
  have "timeout_request b = Some (of_nat n, length ?w + 1 + length ?d + 1)"
    unfolding timeout_request_def Let_def 1 a1 2 a2 v 3 a3 4 a4 using dig h d(3) by simp
  moreover have "drop (length ?w + 1 + length ?d + 1) b = msg @ r" by (simp add: b)
  moreover have "c_string (msg @ r) = msg"
  proof -
    have "\<forall>c\<in>set msg. c \<noteq> 0" using nz unfolding l by auto
    moreover have "takeWhile (\<lambda>c. c \<noteq> 0) r = []" using r(2) by (cases r) auto
    ultimately show ?thesis by (simp add: c_string_def)
  qed
  ultimately show ?thesis by metis
qed


lemma dec_text_seconds: "n < 2 ^ 31 \<Longrightarrow> dec_text (scast (of_nat n :: u32)) = decimal n"
  and scast_seconds: "n < 2 ^ 31 \<Longrightarrow> scast (of_nat n :: u32) = (of_nat n :: u64)"
proof -
  assume n: "n < 2 ^ 31"
  have "sint (word_of_int (int n) :: u32) = int n"
    using n by (subst sint_sbintrunc') (simp add: signed_take_bit_int_eq_self)
  then have i: "sint (of_nat n :: u32) = int n" by simp
  show "scast (of_nat n :: u32) = (of_nat n :: u64)" by (simp only: scast_eq i) simp
  moreover have "unat (of_nat n :: u64) = n" using n by (simp add: unsigned_of_nat take_bit_nat_eq_self)
  ultimately show "dec_text (scast (of_nat n :: u32)) = decimal n" by (simp add: dec_text_def)
qed

lemma say_fields [simp]:
  "timer_list (say text s) = timer_list s" "timer_inv (say text s) = timer_inv s" "kmalloc_inv (say text s) = kmalloc_inv s"
  "timeout_args (say text s) = timeout_args s" "console (say text s) = console s @ text"
proof -
  have t: "kmalloc_state.truncate (say text s) = kmalloc_state.truncate s" by (simp add: say_def kmalloc_state.truncate_def)
  show "timer_inv (say text s) = timer_inv s" by (rule timer_inv_view [OF t]) (simp_all add: say_def)
  show "kmalloc_inv (say text s) = kmalloc_inv s" by (rule kmalloc_view(1) [OF t])
qed (simp_all add: say_def)

lemma timeout_cb_frees:
  fixes t :: "'a shell_sys_scheme"
  assumes own: "owns_object t arg" and c: "chunk_of t i arg"
  shows "\<not> owns_object (timeout_cb qemu arg t) arg"
proof -
  let ?u = "\<lambda>x. say x (t\<lparr>clock_reads := clock_reads t + 1\<rparr>)"
  have tr: "kmalloc_state.truncate (?u x) = kmalloc_state.truncate t" for x
    by (simp add: say_def kmalloc_state.truncate_def)
  have "owns_object (?u x) arg" "chunk_of (?u x) i arg" for x
    using own c kmalloc_view(2) [OF tr] rep_view(3) [of "?u x" t]
    by (simp_all only: say_def buddy_state.truncate_def) simp_all
  then have "\<not> owns_object (kfree arg (?u x)) arg" for x by (rule kfree_chunk_gone)
  then show ?thesis by (simp add: timeout_cb_def get_cycles_def Let_def)
qed

text \<open>A message that fits the line buffer after the command's name and the number fits its field.\<close>

lemma timeout_message_fits:
  assumes "length buf = BUFFER_SIZE" "c_string buf = bytes_of ''setTimeout'' @ [32] @ decimal n @ [32] @ msg"
  shows "take 127 msg = msg"
proof -
  have "length (c_string buf) \<le> length buf" by (simp add: c_string_def length_takeWhile_le)
  then have "length msg \<le> length buf - 13" using decimal_digits(1) [of n] unfolding assms(2) by (cases "decimal n") (simp_all add: bytes_of_def)
  then show ?thesis using assms(1) by (simp add: BUFFER_SIZE_def)
qed



definition timeout_machine :: shell_sys where
  "timeout_machine = (shell_machine [])\<lparr>line_buffer := bytes_of ''setTimeout 3 hi'' @ replicate 113 0\<rparr>"

lemma timeout_machine_inv: "timer_inv timeout_machine"
proof -
  have t: "kmalloc_state.truncate timeout_machine = kmalloc_state.truncate (boot_sys\<lparr>sie := True\<rparr>)"
    by (simp add: timeout_machine_def shell_machine_def thread_sys.extend_def kmalloc_state.truncate_def)
  have "kmalloc_inv timeout_machine"
    using kmalloc_truncate_inv [of timeout_machine] kmalloc_truncate_inv [of "boot_sys\<lparr>sie := True\<rparr>"] boot_sys_inv
    by (simp add: t)
  moreover have "timer_list timeout_machine = []"
    by (simp add: timeout_machine_def shell_machine_def thread_sys.extend_def boot_sys_def kmalloc_state.extend_def)
  ultimately show ?thesis by (simp add: timer_inv_def nodes_owned_def events.in_order_def)
qed


end
