(* ===== verification/Boot_Parsers.thy ===== *)
theory Boot_Parsers
  imports Dtb Cpio
begin

text \<open>
  The bootloader is a program of its own, with its own copies of the string routine, the ram disk
  reader and the device tree reader, \<^verbatim>\<open>bootloader/src/utils.c\<close>, \<^verbatim>\<open>cpio.c\<close> and \<^verbatim>\<open>dtb.c\<close>. They
  are modelled from its sources, and compared with the kernel's: whatever is proved of the kernel's
  readers holds of these.
\<close>

subsection \<open>Strings\<close>

partial_function (option) bl_strcmp :: "bytes \<Rightarrow> u64 \<Rightarrow> u64 \<Rightarrow> int option" where
  "bl_strcmp m s1 s2 =
     (let c1 = m s1; c2 = m s2
      in if c1 \<noteq> c2 then Some (uint c1 - uint c2)
         else if c1 = 0 then Some 0
         else bl_strcmp m (s1 + 1) (s2 + 1))"

subsection \<open>Ram disk\<close>

definition bl_CPIO_HEADER_SIZE :: u64 where "bl_CPIO_HEADER_SIZE = 110"

definition bl_hex_digit :: "u8 \<Rightarrow> u64" where
  "bl_hex_digit c =
     (if c \<ge> 48 \<and> c \<le> 57 then ucast c - 48
      else if c \<ge> 97 \<and> c \<le> 102 then ucast c - 97 + 10
      else if c \<ge> 65 \<and> c \<le> 70 then ucast c - 65 + 10
      else 0)"

definition bl_hex_to_ul :: "bytes \<Rightarrow> u64 \<Rightarrow> nat \<Rightarrow> u64" where
  "bl_hex_to_ul m s n = fold (\<lambda>i val. push_bit 4 val OR bl_hex_digit (m (s + of_nat i))) [0..<n] 0"

definition bl_align4 :: "u64 \<Rightarrow> u64" where
  "bl_align4 x = (x + 3) AND NOT 3"

partial_function (option) bl_cpio_strcmp :: "bytes \<Rightarrow> u64 \<Rightarrow> u64 \<Rightarrow> int option" where
  "bl_cpio_strcmp m a b =
     (if m a \<noteq> 0 \<and> m b \<noteq> 0 \<and> m a = m b then bl_cpio_strcmp m (a + 1) (b + 1)
      else Some (uint (m a) - uint (m b)))"

definition bl_magic_ok :: "nat \<Rightarrow> bytes \<Rightarrow> u64 \<Rightarrow> bool" where
  "bl_magic_ok n m ptr \<longleftrightarrow> (\<forall>i\<in>set [0..<n]. m (ptr + of_nat i) = [48, 55, 48, 55, 48] ! i)"

definition bl_c_namesize :: "bytes \<Rightarrow> u64 \<Rightarrow> u64" where
  "bl_c_namesize m ptr = bl_hex_to_ul m (ptr + 94) 8"

definition bl_c_filesize :: "bytes \<Rightarrow> u64 \<Rightarrow> u64" where
  "bl_c_filesize m ptr = bl_hex_to_ul m (ptr + 54) 8"

definition bl_next_header :: "bytes \<Rightarrow> u64 \<Rightarrow> u64" where
  "bl_next_header m ptr = ptr + bl_align4 (bl_CPIO_HEADER_SIZE + bl_c_namesize m ptr) + bl_align4 (bl_c_filesize m ptr)"

partial_function (option) bl_cpio_count :: "bytes \<Rightarrow> u64 \<Rightarrow> u64 \<Rightarrow> u64 \<Rightarrow> u64 option option" where
  "bl_cpio_count m trailer ptr count =
     (if \<not> bl_magic_ok 5 m ptr then Some None
      else do {
        d \<leftarrow> bl_cpio_strcmp m (ptr + bl_CPIO_HEADER_SIZE) trailer;
        if d = 0 then Some (Some count)
        else bl_cpio_count m trailer (bl_next_header m ptr) (count + 1)
      })"

partial_function (option) bl_cpio_list :: "bytes \<Rightarrow> u64 \<Rightarrow> u64 \<Rightarrow> u8 list option" where
  "bl_cpio_list m trailer ptr =
     (if \<not> bl_magic_ok 5 m ptr then Some []
      else do {
        d \<leftarrow> bl_cpio_strcmp m (ptr + bl_CPIO_HEADER_SIZE) trailer;
        if d = 0 then Some []
        else do {
          name \<leftarrow> string_at m (ptr + bl_CPIO_HEADER_SIZE);
          more \<leftarrow> bl_cpio_list m trailer (bl_next_header m ptr);
          Some (decimal (unat (bl_c_filesize m ptr)) @ [9] @ name @ [10] @ more)
        }
      })"

definition bl_bad_magic_text :: "u8 list" where
  "bl_bad_magic_text = bytes_of ''[cpio] bad magic, stopping'' @ [10]"

definition bl_cpio_ls :: "bytes \<Rightarrow> u64 \<Rightarrow> u64 \<Rightarrow> u8 list option" where
  "bl_cpio_ls m trailer addr =
     do {
       n \<leftarrow> bl_cpio_count m trailer addr 0;
       case n of None \<Rightarrow> Some bl_bad_magic_text
       | Some count \<Rightarrow>
           do {
             more \<leftarrow> bl_cpio_list m trailer addr;
             Some (bytes_of ''Total '' @ decimal (unat count) @ bytes_of '' files.'' @ [10] @ more)
           }
     }"

definition bl_not_found_text :: "u8 list \<Rightarrow> u8 list" where
  "bl_not_found_text name = bytes_of ''cat: file not found: '' @ name @ [10]"

partial_function (option) bl_cpio_cat_from :: "bytes \<Rightarrow> u64 \<Rightarrow> u64 \<Rightarrow> u64 \<Rightarrow> u8 list option" where
  "bl_cpio_cat_from m trailer filename ptr =
     (if \<not> bl_magic_ok 5 m ptr
      then do { name \<leftarrow> string_at m filename; Some (bl_bad_magic_text @ bl_not_found_text name) }
      else do {
        d \<leftarrow> bl_cpio_strcmp m (ptr + bl_CPIO_HEADER_SIZE) trailer;
        if d = 0 then do { name \<leftarrow> string_at m filename; Some (bl_not_found_text name) }
        else do {
          d' \<leftarrow> bl_cpio_strcmp m (ptr + bl_CPIO_HEADER_SIZE) filename;
          if d' = 0
          then let data = ptr + bl_align4 (bl_CPIO_HEADER_SIZE + bl_c_namesize m ptr);
                   filesize = bl_c_filesize m ptr;
                   text = map (\<lambda>i. m (data + of_nat i)) [0..<unat filesize]
               in Some (if filesize = 0 \<or> m (data + (filesize - 1)) \<noteq> 10 then text @ [10] else text)
          else bl_cpio_cat_from m trailer filename (bl_next_header m ptr)
        }
      })"

definition bl_cpio_cat :: "bytes \<Rightarrow> u64 \<Rightarrow> u64 \<Rightarrow> u64 \<Rightarrow> u8 list option" where
  "bl_cpio_cat m trailer addr filename = bl_cpio_cat_from m trailer filename addr"

subsection \<open>Device tree\<close>

definition bl_bswap_32 :: "u32 \<Rightarrow> u32" where
  "bl_bswap_32 x =
     drop_bit 24 (x AND 0xFF000000) OR drop_bit 8 (x AND 0x00FF0000) OR
     push_bit 8 (x AND 0x0000FF00) OR push_bit 24 (x AND 0x000000FF)"

definition bl_bswap_64 :: "u64 \<Rightarrow> u64" where
  "bl_bswap_64 x =
     (let hi = bl_bswap_32 (ucast (drop_bit 32 x)); lo = bl_bswap_32 (ucast (x AND 0xFFFFFFFF))
      in push_bit 32 (ucast hi) OR ucast lo)"

definition bl_align_32 :: "u64 \<Rightarrow> u64" where
  "bl_align_32 addr = (addr + 3) AND NOT 3"

fun bl_node_name_match :: "bytes \<Rightarrow> u64 \<Rightarrow> u8 list \<Rightarrow> bool" where
  "bl_node_name_match m node_name [] \<longleftrightarrow> m node_name = 0 \<or> m node_name = 64"
| "bl_node_name_match m node_name (c # seg) \<longleftrightarrow>
     (if m node_name = 0 \<or> m node_name = 64 then False
      else if m node_name \<noteq> c then False
      else bl_node_name_match m (node_name + 1) seg)"

function bl_path_segment_from :: "u8 list \<Rightarrow> int \<Rightarrow> int \<Rightarrow> u8 list option" where
  "bl_path_segment_from p i idx =
     (if p = [] then None
      else let start = takeWhile (\<lambda>c. c \<noteq> 47) p; p' = dropWhile (\<lambda>c. c \<noteq> 47) p
           in if i = idx then Some start
              else bl_path_segment_from (if p' \<noteq> [] then tl p' else p') (i + 1) idx)"
  by pat_completeness auto
termination
proof (relation "measure (\<lambda>(p, i, idx). length p)")
  fix p :: "u8 list" and i idx :: int and p'
  assume p: "p \<noteq> []" "p' = dropWhile (\<lambda>c. c \<noteq> 47) p"
  have "length p' \<le> length p" unfolding p(2) by (rule length_dropWhile_le)
  then have "length (if p' \<noteq> [] then tl p' else p') < length p" using p(1) by (cases p') auto
  then show "((if p' \<noteq> [] then tl p' else p', i + 1, idx), p, i, idx) \<in> measure (\<lambda>(p, i, idx). length p)" by simp
qed simp

declare bl_path_segment_from.simps [simp del]

definition bl_path_segment :: "u8 list \<Rightarrow> int \<Rightarrow> u8 list option" where
  "bl_path_segment path idx =
     (if path = [] \<or> hd path \<noteq> 47 then None else bl_path_segment_from (tl path) 0 idx)"

definition bl_path_depth :: "u8 list \<Rightarrow> int" where
  "bl_path_depth path =
     (if path = [] \<or> hd path \<noteq> 47 then - 1
      else if tl path = [] then 0
      else fold (\<lambda>c n. if c = 47 then n + 1 else n) (tl path) 0 + 1)"

partial_function (option) bl_skip_string :: "bytes \<Rightarrow> u64 \<Rightarrow> u64 option" where
  "bl_skip_string m cur = (if m cur \<noteq> 0 then bl_skip_string m (cur + 1) else Some (cur + 1))"

definition bl_fdt_magic :: "bytes \<Rightarrow> u64 \<Rightarrow> u32" where
  "bl_fdt_magic m header = bl_bswap_32 (load32 m header)"

definition bl_off_dt_struct :: "bytes \<Rightarrow> u64 \<Rightarrow> u32" where
  "bl_off_dt_struct m header = bl_bswap_32 (load32 m (header + 8))"

definition bl_off_dt_strings :: "bytes \<Rightarrow> u64 \<Rightarrow> u32" where
  "bl_off_dt_strings m header = bl_bswap_32 (load32 m (header + 12))"

definition bl_size_dt_struct :: "bytes \<Rightarrow> u64 \<Rightarrow> u32" where
  "bl_size_dt_struct m header = bl_bswap_32 (load32 m (header + 36))"

definition bl_match_node :: "bytes \<Rightarrow> u8 list \<Rightarrow> int \<Rightarrow> u64 \<Rightarrow> int \<Rightarrow> int \<Rightarrow> int" where
  "bl_match_node m path wanted_depth name depth matched =
     (if matched < 0 then
        if depth = 0 then (if wanted_depth = 0 then 0 else matched)
        else case bl_path_segment path (depth - 1) of
               None \<Rightarrow> matched
             | Some seg \<Rightarrow>
                 (if bl_node_name_match m name (take 63 seg) \<and> depth = wanted_depth then depth else matched)
      else matched)"

partial_function (option) bl_getprop_loop ::
  "bytes \<Rightarrow> u64 \<Rightarrow> u8 list \<Rightarrow> u8 list \<Rightarrow> int \<Rightarrow> u64 \<Rightarrow> u64 \<Rightarrow> int \<Rightarrow> int \<Rightarrow> (u64 \<times> int) option" where
  "bl_getprop_loop m dt_strings path prop_name wanted_depth struct_end cur current_depth matched_depth =
     (if cur < struct_end then
        (let token = bl_bswap_32 (load32 m cur); cur = cur + 4
         in if token = FDT_BEGIN_NODE then
              do {
                past \<leftarrow> bl_skip_string m cur;
                let depth = current_depth + 1;
                bl_getprop_loop m dt_strings path prop_name wanted_depth struct_end (bl_align_32 past) depth
                  (bl_match_node m path wanted_depth cur depth matched_depth)
              }
            else if token = FDT_END_NODE then
              bl_getprop_loop m dt_strings path prop_name wanted_depth struct_end cur (current_depth - 1)
                (if matched_depth = current_depth then - 1 else matched_depth)
            else if token = FDT_PROP then
              (let prop_len = bl_bswap_32 (load32 m cur);
                   name = dt_strings + ucast (bl_bswap_32 (load32 m (cur + 4)));
                   data = cur + 8
               in if matched_depth \<ge> 0 \<and> strcmp_lit m name prop_name = 0 then Some (data, sint prop_len)
                  else bl_getprop_loop m dt_strings path prop_name wanted_depth struct_end
                         (bl_align_32 (data + ucast prop_len)) current_depth matched_depth)
            else if token = FDT_NOP then
              bl_getprop_loop m dt_strings path prop_name wanted_depth struct_end cur current_depth matched_depth
            else Some (NULL, 0))
      else Some (NULL, 0))"

definition bl_dtb_getprop :: "bytes \<Rightarrow> u64 \<Rightarrow> u8 list \<Rightarrow> u8 list \<Rightarrow> (u64 \<times> int option) option" where
  "bl_dtb_getprop m dtb_addr node_path prop_name =
     (if dtb_addr = NULL then Some (NULL, None)
      else if bl_fdt_magic m dtb_addr \<noteq> FDT_HEADER_MAGIC then Some (NULL, None)
      else let dt_struct = dtb_addr + ucast (bl_off_dt_struct m dtb_addr)
           in map_option (\<lambda>(p, len). (p, Some len))
                (bl_getprop_loop m (dtb_addr + ucast (bl_off_dt_strings m dtb_addr)) node_path prop_name
                   (bl_path_depth node_path) (dt_struct + ucast (bl_size_dt_struct m dtb_addr)) dt_struct (- 1) (- 1)))"

definition bl_stored_len :: "int option \<Rightarrow> int" where
  "bl_stored_len l = (case l of None \<Rightarrow> 0 | Some n \<Rightarrow> n)"

definition bl_cell32 :: "bytes \<Rightarrow> u64 \<Rightarrow> nat \<Rightarrow> u64" where
  "bl_cell32 m p i = ucast (bl_bswap_32 (load32 m (p + 4 * of_nat i)))"

definition bl_dtb_get_reg :: "bytes \<Rightarrow> u64 \<Rightarrow> u8 list \<Rightarrow> u64 option" where
  "bl_dtb_get_reg m dtb_addr path =
     do {
       (val, l) \<leftarrow> bl_dtb_getprop m dtb_addr path (bytes_of ''reg'');
       let len = bl_stored_len l;
       Some (if val = NULL \<or> len < 4 then 0
             else if len \<ge> 8 then push_bit 32 (bl_cell32 m val 0) OR bl_cell32 m val 1
             else bl_cell32 m val 0)
     }"

definition bl_initrd_start_name :: "u8 list" where
  "bl_initrd_start_name = bytes_of ''linux,initrd-start''"

definition bl_dtb_load_initrd_addr :: "bytes \<Rightarrow> u64 \<Rightarrow> u64 \<Rightarrow> u64 option" where
  "bl_dtb_load_initrd_addr m dtb_addr cpio_addr =
     do {
       (prop, l) \<leftarrow> bl_dtb_getprop m dtb_addr (bytes_of ''/chosen'') bl_initrd_start_name;
       let len = bl_stored_len l;
       Some (if prop = NULL \<or> len = 0 then cpio_addr
             else if len \<ge> 8 then push_bit 32 (bl_cell32 m prop 0) OR bl_cell32 m prop 1
             else bl_cell32 m prop 0)
     }"

subsection \<open>The copies agree\<close>

named_theorems bl_same \<open>the bootloader's routines are the kernel's\<close>

lemma bl_simple_same [bl_same]:
  "bl_CPIO_HEADER_SIZE = CPIO_HEADER_SIZE" "bl_hex_digit = hex_digit" "bl_align4 = align4" "bl_magic_ok = magic_ok"
  "bl_bad_magic_text = bad_magic_text" "bl_not_found_text = not_found_text" "bl_bswap_32 = bswap_32" "bl_align_32 = align_32"
  "bl_path_depth = path_depth" "bl_stored_len = stored_len" "bl_initrd_start_name = initrd_start_name"
  by (simp_all add: fun_eq_iff bl_CPIO_HEADER_SIZE_def CPIO_HEADER_SIZE_def bl_hex_digit_def hex_digit_def bl_align4_def align4_def
      bl_magic_ok_def magic_ok_def bl_bad_magic_text_def bad_magic_text_def bl_not_found_text_def not_found_text_def
      bl_bswap_32_def bswap_32_def bl_align_32_def align_32_def bl_path_depth_def path_depth_def
      bl_stored_len_def stored_len_def bl_initrd_start_name_def initrd_start_name_def)

lemma bl_fields_same [bl_same]:
  "bl_hex_to_ul = hex_to_ul" "bl_c_namesize = c_namesize" "bl_c_filesize = c_filesize" "bl_next_header = next_header"
  "bl_bswap_64 = bswap_64" "bl_fdt_magic = fdt_magic" "bl_off_dt_struct = off_dt_struct" "bl_off_dt_strings = off_dt_strings"
  "bl_size_dt_struct = size_dt_struct" "bl_cell32 = cell32"
  by (simp_all add: fun_eq_iff bl_same bl_hex_to_ul_def hex_to_ul_def bl_c_namesize_def c_namesize_def bl_c_filesize_def c_filesize_def
      bl_next_header_def next_header_def bl_bswap_64_def bswap_64_def bl_fdt_magic_def fdt_magic_def
      bl_off_dt_struct_def off_dt_struct_def bl_off_dt_strings_def off_dt_strings_def bl_size_dt_struct_def size_dt_struct_def
      bl_cell32_def cell32_def)

lemma bl_node_name_match_same [bl_same]: "bl_node_name_match = node_name_match"
proof (intro ext)
  show "bl_node_name_match m p seg = node_name_match m p seg" for m p seg
    by (induction m p seg rule: node_name_match.induct) simp_all
qed

lemma bl_path_segment_from_same [bl_same]: "bl_path_segment_from = path_segment_from"
proof (intro ext)
  show "bl_path_segment_from p i n = path_segment_from p i n" for p i n
  proof (induction p i n rule: path_segment_from.induct)
    case (1 p i n)
    show ?case by (subst path_segment_from.simps, subst bl_path_segment_from.simps) (use 1 in \<open>auto simp: Let_def\<close>)
  qed
qed

lemma bl_path_segment_same [bl_same]: "bl_path_segment = path_segment"
  by (simp add: fun_eq_iff bl_same bl_path_segment_def path_segment_def)

lemma bl_match_node_same [bl_same]: "bl_match_node = match_node"
  unfolding fun_eq_iff bl_match_node_def match_node_def bl_same by simp

text \<open>Two loops that return the same whenever one of them returns.\<close>

lemma option_agree: "(\<And>y. a = Some y \<Longrightarrow> b = Some y) \<Longrightarrow> (\<And>y. b = Some y \<Longrightarrow> a = Some y) \<Longrightarrow> a = b"
  by (cases a; cases b) auto

lemma bl_strcmp_same [bl_same]: "bl_strcmp = strcmp"
proof (intro ext, rule option_agree)
  fix m a b y
  show "strcmp m a b = Some y" if r: "bl_strcmp m a b = Some y"
    by (rule bl_strcmp.raw_induct [where P = "\<lambda>m a b y. strcmp m a b = Some y", OF _ r]) (subst strcmp.simps, auto simp: Let_def split: if_splits)
  show "bl_strcmp m a b = Some y" if r: "strcmp m a b = Some y"
    by (rule strcmp.raw_induct [where P = "\<lambda>m a b y. bl_strcmp m a b = Some y", OF _ r]) (subst bl_strcmp.simps, auto simp: Let_def split: if_splits)
qed

lemma bl_cpio_strcmp_same [bl_same]: "bl_cpio_strcmp = cpio_strcmp"
proof (intro ext, rule option_agree)
  fix m a b y
  show "cpio_strcmp m a b = Some y" if r: "bl_cpio_strcmp m a b = Some y"
    by (rule bl_cpio_strcmp.raw_induct [where P = "\<lambda>m a b y. cpio_strcmp m a b = Some y", OF _ r]) (subst cpio_strcmp.simps, auto split: if_splits)
  show "bl_cpio_strcmp m a b = Some y" if r: "cpio_strcmp m a b = Some y"
    by (rule cpio_strcmp.raw_induct [where P = "\<lambda>m a b y. bl_cpio_strcmp m a b = Some y", OF _ r]) (subst bl_cpio_strcmp.simps, auto split: if_splits)
qed

lemma bl_skip_string_same [bl_same]: "bl_skip_string = skip_string"
proof (intro ext, rule option_agree)
  fix m p y
  show "skip_string m p = Some y" if r: "bl_skip_string m p = Some y"
    by (rule bl_skip_string.raw_induct [where P = "\<lambda>m p y. skip_string m p = Some y", OF _ r]) (subst skip_string.simps, auto split: if_splits)
  show "bl_skip_string m p = Some y" if r: "skip_string m p = Some y"
    by (rule skip_string.raw_induct [where P = "\<lambda>m p y. bl_skip_string m p = Some y", OF _ r]) (subst bl_skip_string.simps, auto split: if_splits)
qed

lemma bl_cpio_count_same [bl_same]: "bl_cpio_count = cpio_count"
proof (intro ext, rule option_agree)
  fix m t p n y
  show "cpio_count m t p n = Some y" if r: "bl_cpio_count m t p n = Some y"
    by (rule bl_cpio_count.raw_induct [where P = "\<lambda>m t p n y. cpio_count m t p n = Some y", OF _ r]) (subst cpio_count.simps, auto simp: bl_same Let_def split: if_splits Option.bind_splits)
  show "bl_cpio_count m t p n = Some y" if r: "cpio_count m t p n = Some y"
    by (rule cpio_count.raw_induct [where P = "\<lambda>m t p n y. bl_cpio_count m t p n = Some y", OF _ r]) (subst bl_cpio_count.simps, auto simp: bl_same Let_def split: if_splits Option.bind_splits)
qed

lemma bl_cpio_list_same [bl_same]: "bl_cpio_list = cpio_list"
proof (intro ext, rule option_agree)
  fix m t p y
  show "cpio_list m t p = Some y" if r: "bl_cpio_list m t p = Some y"
    by (rule bl_cpio_list.raw_induct [where P = "\<lambda>m t p y. cpio_list m t p = Some y", OF _ r]) (subst cpio_list.simps, auto simp: bl_same Let_def split: if_splits Option.bind_splits)
  show "bl_cpio_list m t p = Some y" if r: "cpio_list m t p = Some y"
    by (rule cpio_list.raw_induct [where P = "\<lambda>m t p y. bl_cpio_list m t p = Some y", OF _ r]) (subst bl_cpio_list.simps, auto simp: bl_same Let_def split: if_splits Option.bind_splits)
qed

lemma bl_cpio_cat_from_same [bl_same]: "bl_cpio_cat_from = cpio_cat_from"
proof (intro ext, rule option_agree)
  fix m t f p y
  show "cpio_cat_from m t f p = Some y" if r: "bl_cpio_cat_from m t f p = Some y"
    by (rule bl_cpio_cat_from.raw_induct [where P = "\<lambda>m t f p y. cpio_cat_from m t f p = Some y", OF _ r]) (subst cpio_cat_from.simps, auto simp: bl_same Let_def split: if_splits Option.bind_splits)
  show "bl_cpio_cat_from m t f p = Some y" if r: "cpio_cat_from m t f p = Some y"
    by (rule cpio_cat_from.raw_induct [where P = "\<lambda>m t f p y. bl_cpio_cat_from m t f p = Some y", OF _ r]) (subst bl_cpio_cat_from.simps, auto simp: bl_same Let_def split: if_splits Option.bind_splits)
qed

lemma bl_getprop_loop_same [bl_same]: "bl_getprop_loop = getprop_loop"
proof (intro ext, rule option_agree)
  fix m ds path nm w stop cur d k y
  show "getprop_loop m ds path nm w stop cur d k = Some y" if r: "bl_getprop_loop m ds path nm w stop cur d k = Some y"
    by (rule bl_getprop_loop.raw_induct [where P = "\<lambda>m ds path nm w stop cur d k y. getprop_loop m ds path nm w stop cur d k = Some y", OF _ r]) (subst getprop_loop.simps, auto simp: bl_same Let_def split: if_splits Option.bind_splits)
  show "bl_getprop_loop m ds path nm w stop cur d k = Some y" if r: "getprop_loop m ds path nm w stop cur d k = Some y"
    by (rule getprop_loop.raw_induct [where P = "\<lambda>m ds path nm w stop cur d k y. bl_getprop_loop m ds path nm w stop cur d k = Some y", OF _ r]) (subst bl_getprop_loop.simps, auto simp: bl_same Let_def split: if_splits Option.bind_splits)
qed

lemma bl_readers_same [bl_same]:
  "bl_cpio_ls = cpio_ls" "bl_cpio_cat = cpio_cat" "bl_dtb_getprop = dtb_getprop"
  unfolding fun_eq_iff bl_cpio_ls_def cpio_ls_def bl_cpio_cat_def cpio_cat_def bl_dtb_getprop_def dtb_getprop_def bl_same
  by simp_all

lemma bl_lookups_same [bl_same]:
  "bl_dtb_get_reg = dtb_get_reg" "bl_dtb_load_initrd_addr = dtb_load_initrd_addr"
  unfolding fun_eq_iff bl_dtb_get_reg_def dtb_get_reg_def bl_dtb_load_initrd_addr_def dtb_load_initrd_addr_def bl_same
  by simp_all

end
