(* ===== verification/Bootloader.thy ===== *)
theory Bootloader
  imports Boot_Parsers Shell
begin

text \<open>
  The bootloader \<^verbatim>\<open>bootloader/src\<close>: the polled UART driver \<^verbatim>\<open>uart.c\<close>, the entry \<^verbatim>\<open>main.c\<close>, which copies
  the program away from the kernel's load address and starts it again there, and its shell
  \<^verbatim>\<open>shell.c\<close>, whose command \<^verbatim>\<open>load\<close> receives the kernel. The program runs without address
  translation on byte memory.
\<close>

subsection \<open>Polled UART\<close>

record bl_uart =
  bl_uart_base :: u64
  bl_thr :: "u8 list"

definition bl_uart_set_base :: "u64 \<Rightarrow> 'a bl_uart_scheme \<Rightarrow> 'a bl_uart_scheme" where
  "bl_uart_set_base base s = (if base \<noteq> 0 then s\<lparr>bl_uart_base := base\<rparr> else s)"

text \<open>The polls answer from the list of events; a routine that waits is undefined when none is left.\<close>

fun bl_wait_tx :: "uart_event list \<Rightarrow> uart_event list option" where
  "bl_wait_tx [] = None"
| "bl_wait_tx (e # es) = (if ev_tx_lsr e AND LSR_TDRQ = 0 then bl_wait_tx es else Some es)"

fun bl_wait_rx :: "uart_event list \<Rightarrow> (u8 \<times> uart_event list) option" where
  "bl_wait_rx [] = None"
| "bl_wait_rx (e # es) = (if ev_rx_lsr e AND LSR_DR = 0 then bl_wait_rx es else Some (ev_rbr e, es))"

definition bl_send :: "u32 \<Rightarrow> uart_event list \<Rightarrow> 'a bl_uart_scheme \<Rightarrow> (uart_event list \<times> 'a bl_uart_scheme) option" where
  "bl_send c es s = map_option (\<lambda>es'. (es', s\<lparr>bl_thr := bl_thr s @ [ucast c]\<rparr>)) (bl_wait_tx es)"

definition bl_uart_putc :: "u32 \<Rightarrow> uart_event list \<Rightarrow> 'a bl_uart_scheme \<Rightarrow> (uart_event list \<times> 'a bl_uart_scheme) option" where
  "bl_uart_putc c es s =
     (if c = 10 then Option.bind (bl_send 13 es s) (\<lambda>(es', s'). bl_send c es' s') else bl_send c es s)"

definition bl_uart_getc_raw :: "uart_event list \<Rightarrow> (u8 \<times> uart_event list) option" where "bl_uart_getc_raw es = bl_wait_rx es"

definition bl_uart_getc :: "uart_event list \<Rightarrow> (u8 \<times> uart_event list) option" where
  "bl_uart_getc es = map_option (\<lambda>(c, es'). (if c = 13 then 10 else c, es')) (bl_wait_rx es)"

primrec bl_uart_puts :: "u8 list \<Rightarrow> uart_event list \<Rightarrow> 'a bl_uart_scheme \<Rightarrow> (uart_event list \<times> 'a bl_uart_scheme) option" where
  "bl_uart_puts [] es s = Some (es, s)"
| "bl_uart_puts (c # cs) es s = Option.bind (bl_uart_putc (ucast c) es s) (\<lambda>(es', s'). bl_uart_puts cs es' s')"

definition bl_hex_char :: "u64 \<Rightarrow> nat \<Rightarrow> u64" where
  "bl_hex_char h c = (let n = drop_bit c h AND 0xf in n + (if n > 9 then 0x57 else 48))"

primrec bl_uart_hex_from :: "nat \<Rightarrow> u64 \<Rightarrow> uart_event list \<Rightarrow> 'a bl_uart_scheme \<Rightarrow> (uart_event list \<times> 'a bl_uart_scheme) option" where
  "bl_uart_hex_from 0 h es s = Some (es, s)"
| "bl_uart_hex_from (Suc i) h es s =
     Option.bind (bl_uart_putc (ucast (bl_hex_char h (4 * i))) es s) (\<lambda>(es', s'). bl_uart_hex_from i h es' s')"

definition bl_uart_hex :: "u64 \<Rightarrow> uart_event list \<Rightarrow> 'a bl_uart_scheme \<Rightarrow> (uart_event list \<times> 'a bl_uart_scheme) option" where
  "bl_uart_hex h es s = Option.bind (bl_uart_puts [48, 120] es s) (\<lambda>(es', s'). bl_uart_hex_from 16 h es' s')"

function bl_dec_fill :: "u64 \<Rightarrow> u8 list \<Rightarrow> u8 list" where
  "bl_dec_fill x buf =
     (if x > 0 \<and> length buf < 32 then bl_dec_fill (x div 10) (buf @ [48 + ucast (x mod 10)]) else buf)"
  by pat_completeness auto
termination
  by (relation "measure (\<lambda>(x, buf). 32 - length buf)") auto

declare bl_dec_fill.simps [simp del]

definition bl_uart_dec :: "u64 \<Rightarrow> uart_event list \<Rightarrow> 'a bl_uart_scheme \<Rightarrow> (uart_event list \<times> 'a bl_uart_scheme) option" where
  "bl_uart_dec x es s =
     (if x = 0 then bl_uart_putc 48 es s else bl_uart_puts (rev (bl_dec_fill x [])) es s)"

subsection \<open>State of the program\<close>

text \<open>
  \<open>bl_console\<close> is the sequence of characters handed to the driver, \<open>bl_keys\<close> the bytes the terminal
  still sends. The variables in the zeroed segment are fields.
\<close>

record bl_state =
  bl_mem :: bytes
  bl_uart_addr :: u64
  bl_dtb_addr :: u64
  bl_cpio_addr :: u64
  bl_boot_hart_id :: int
  bl_buffer :: "u8 list"
  bl_buf_len :: nat
  bl_console :: "u8 list"
  bl_keys :: "u8 list"

text \<open>
  The link map: the size of the image, the offsets of the zeroed segment and of the variable
  \<^verbatim>\<open>had_relocated\<close>, the place of \<^verbatim>\<open>get_current_pc\<close>, the relocation address, the addresses of
  the line buffer and of the literal \<^verbatim>\<open>TRAILER!!!\<close>; the build, and the answers of the SBI.
\<close>

record bl_env =
  lk_size :: nat
  lk_bss_start :: nat
  lk_bss_end :: nat
  lk_flag :: nat
  lk_pc :: u64
  lk_relocate_addr :: u64
  lk_buffer :: u64
  lk_trailer :: u64
  lk_qemu :: bool
  lk_sbi :: "nat \<Rightarrow> u64"

definition bl_say :: "u8 list \<Rightarrow> bl_state \<Rightarrow> bl_state" where
  "bl_say text s = s\<lparr>bl_console := bl_console s @ text\<rparr>"

subsection \<open>Start and relocation\<close>

text \<open>\<^verbatim>\<open>_start\<close> clears the zeroed segment of the copy at \<open>base\<close>.\<close>

definition bl_start :: "bl_env \<Rightarrow> u64 \<Rightarrow> bl_state \<Rightarrow> bl_state" where
  "bl_start env base s =
     s\<lparr>bl_mem := memset_loop (base + of_nat (lk_bss_start env)) 0 (lk_bss_end env - lk_bss_start env) (bl_mem s),
       bl_uart_addr := 0, bl_dtb_addr := 0, bl_cpio_addr := 0, bl_boot_hart_id := 0,
       bl_buffer := replicate 128 0, bl_buf_len := 0\<rparr>"

definition get_current_pc :: "bl_env \<Rightarrow> u64 \<Rightarrow> u64" where "get_current_pc env base = base + lk_pc env"

text \<open>\<^verbatim>\<open>for (i = 0; i < loader_size; ++i) relocate_addr[i] = code_start[i]\<close>\<close>

definition copy_image :: "u64 \<Rightarrow> u64 \<Rightarrow> nat \<Rightarrow> bytes \<Rightarrow> bytes" where
  "copy_image dst src n m = fold (\<lambda>i m. m(dst + of_nat i := m (src + of_nat i))) [0..<n] m"

definition code_relocate :: "bl_env \<Rightarrow> u64 \<Rightarrow> bl_state \<Rightarrow> bl_state" where
  "code_relocate env base s =
     (let s1 = bl_say (newline @ bytes_of ''Start relocating!'' @ newline) s;
          s2 = s1\<lparr>bl_mem := copy_image (lk_relocate_addr env) base (lk_size env) (bl_mem s1)\<rparr>
      in bl_say (bytes_of ''Relocating completed!'' @ newline) s2)"

definition write32 :: "u64 \<Rightarrow> u32 \<Rightarrow> bytes \<Rightarrow> bytes" where
  "write32 a w m = fold (\<lambda>i m. m(a + of_nat i := ucast (drop_bit (8 * i) w))) [0..<4] m"

text \<open>\<^verbatim>\<open>main\<close> jumps to the relocation address, or enters the shell.\<close>

datatype bl_next = Relocated bl_state | Enter_Shell bl_state

definition bl_main :: "bl_env \<Rightarrow> u64 \<Rightarrow> int \<Rightarrow> u64 \<Rightarrow> bl_state \<Rightarrow> bl_next option" where
  "bl_main env base hart_id dtb_ptr s =
     do {
       serial \<leftarrow> bl_dtb_get_reg (bl_mem s) dtb_ptr (bytes_of ''/soc/serial'');
       u_base \<leftarrow> (if serial = 0 then bl_dtb_get_reg (bl_mem s) dtb_ptr (bytes_of ''/soc/uart'') else Some serial);
       initrd \<leftarrow> bl_dtb_load_initrd_addr (bl_mem s) dtb_ptr (bl_cpio_addr s);
       let s1 = s\<lparr>bl_dtb_addr := dtb_ptr, bl_uart_addr := (if u_base \<noteq> 0 then u_base else bl_uart_addr s), bl_cpio_addr := initrd\<rparr>;
       if sint (load32 (bl_mem s1) (base + of_nat (lk_flag env))) = - 1
       then let s2 = bl_say (newline @ bytes_of ''[Before Relocation] PC: '' @ hex_out (get_current_pc env base) @ newline) s1;
                s3 = s2\<lparr>bl_mem := write32 (base + of_nat (lk_flag env)) 1 (bl_mem s2)\<rparr>
            in Some (Relocated (code_relocate env base s3))
       else let s2 = bl_say (bytes_of ''Run in new place!'' @ newline @ bytes_of ''[After Relocation] PC: '' @
                       hex_out (get_current_pc env base) @ newline @ newline @ bytes_of ''Bootloader starting...'' @ newline) s1
            in Some (Enter_Shell (s2\<lparr>bl_boot_hart_id := hart_id\<rparr>))
     }"

text \<open>From the start of the copy at \<open>base\<close> to the shell: where it runs, and the state it starts in.\<close>

partial_function (option) bl_boot :: "bl_env \<Rightarrow> int \<Rightarrow> u64 \<Rightarrow> u64 \<Rightarrow> bl_state \<Rightarrow> (u64 \<times> bl_state) option" where
  "bl_boot env hart_id dtb_ptr base s =
     (case bl_main env base hart_id dtb_ptr (bl_start env base s) of
        None \<Rightarrow> None
      | Some (Enter_Shell s1) \<Rightarrow> Some (base, s1)
      | Some (Relocated s1) \<Rightarrow> bl_boot env hart_id dtb_ptr (lk_relocate_addr env) s1)"

subsection \<open>Shell commands\<close>

definition BL_KERNEL_LOAD_ADDR :: "bool \<Rightarrow> u64" where
  "BL_KERNEL_LOAD_ADDR qemu = (if qemu then 0x80200000 else 0x00200000)"

definition BL_BOOT_MAGIC :: u32 where "BL_BOOT_MAGIC = 0x544F4F42"
definition BL_BUFFER_SIZE :: nat where "BL_BUFFER_SIZE = 128"

definition bl_parse :: "u8 \<Rightarrow> special_char" where
  "bl_parse c =
     (if c > 127 then UNKNOWN
      else if c = 127 \<or> c = 8 then DELETE
      else if c = 13 \<or> c = 10 then LINE_FEED
      else REGULAR_INPUT)"

definition bl_command_help :: "bl_state \<Rightarrow> bl_state" where
  "bl_command_help =
     bl_say (bytes_of ''help  - show all commands.'' @ newline @
       bytes_of ''hello - print Hello World!'' @ newline @
       bytes_of ''load  - receive kernel over UART and boot.'' @ newline @
       bytes_of ''info  - print system info.'' @ newline @
       bytes_of ''ls    - list files in initramfs.'' @ newline @
       bytes_of ''cat   - display file content (usage: cat <filename>).'' @ newline)"

definition bl_command_hello :: "bl_state \<Rightarrow> bl_state" where
  "bl_command_hello = bl_say (bytes_of ''Hello World!'' @ newline)"

definition bl_command_info :: "bl_env \<Rightarrow> bl_state \<Rightarrow> bl_state" where
  "bl_command_info env =
     bl_say (bytes_of ''OpenSBI specification version: '' @ hex_out (lk_sbi env 0) @
       newline @ bytes_of ''Implementation ID: '' @ hex_out (lk_sbi env 1) @
       newline @ bytes_of ''Implementation version: '' @ hex_out (lk_sbi env 2) @ newline)"

definition bl_getc_raw :: "bl_state \<Rightarrow> (u8 \<times> bl_state) option" where
  "bl_getc_raw s = (case bl_keys s of [] \<Rightarrow> None | c # cs \<Rightarrow> Some (c, s\<lparr>bl_keys := cs\<rparr>))"

definition bl_getc :: "bl_state \<Rightarrow> (u8 \<times> bl_state) option" where
  "bl_getc s = map_option (\<lambda>(c, s'). (if c = 13 then 10 else c, s')) (bl_getc_raw s)"

definition bl_read_word :: "bl_state \<Rightarrow> (u32 \<times> bl_state) option" where
  "bl_read_word s =
     do {
       (a, s1) \<leftarrow> bl_getc s;
       (b, s2) \<leftarrow> bl_getc s1;
       (c, s3) \<leftarrow> bl_getc s2;
       (d, s4) \<leftarrow> bl_getc s3;
       Some (ucast a OR push_bit 8 (ucast b) OR push_bit 16 (ucast c) OR push_bit 24 (ucast d), s4)
     }"

primrec bl_receive :: "u64 \<Rightarrow> nat \<Rightarrow> bl_state \<Rightarrow> bl_state option" where
  "bl_receive dst 0 s = Some s"
| "bl_receive dst (Suc n) s =
     (case bl_getc_raw s of None \<Rightarrow> None
      | Some (c, s1) \<Rightarrow> bl_receive (dst + 1) n (s1\<lparr>bl_mem := (bl_mem s1)(dst := c)\<rparr>))"

definition bl_command_load :: "bl_env \<Rightarrow> bl_state \<Rightarrow> bl_state shell_flow option" where
  "bl_command_load env s0 =
     do {
       (magic, s1) \<leftarrow> bl_read_word (bl_say (bytes_of ''Waiting for kernel over UART...'' @ newline) s0);
       (sz, s2) \<leftarrow> bl_read_word s1;
       if magic \<noteq> BL_BOOT_MAGIC then Some (Prompt (bl_say (bytes_of ''Invalid header (bad magic).'' @ newline) s2))
       else do {
         s3 \<leftarrow> bl_receive (BL_KERNEL_LOAD_ADDR (lk_qemu env)) (unat sz) s2;
         Some (Jump (BL_KERNEL_LOAD_ADDR (lk_qemu env))
           (bl_say (bytes_of ''Loaded '' @ dec_text (ucast sz) @ bytes_of '' bytes, jumping to '' @
                    hex_out (BL_KERNEL_LOAD_ADDR (lk_qemu env)) @ bytes_of ''...'' @ newline) s3))
       }
     }"

definition bl_command_unknown :: "bl_state \<Rightarrow> bl_state" where
  "bl_command_unknown s =
     bl_say (bytes_of ''Unknown command: '' @ c_string (bl_buffer s) @ newline @
       bytes_of ''Use help to get commands.'' @ newline) s"

definition bl_bytes :: "bl_env \<Rightarrow> bl_state \<Rightarrow> bytes" where
  "bl_bytes env s a =
     (if unat (a - lk_buffer env) < length (bl_buffer s) then bl_buffer s ! unat (a - lk_buffer env) else bl_mem s a)"

definition bl_command_ls :: "bl_env \<Rightarrow> bl_state \<Rightarrow> bl_state option" where
  "bl_command_ls env s =
     (if bl_cpio_addr s = NULL then Some (bl_say (bytes_of ''Error: initrd not loaded.'' @ newline) s)
      else map_option (\<lambda>text. bl_say text s) (bl_cpio_ls (bl_bytes env s) (lk_trailer env) (bl_cpio_addr s)))"

definition bl_argument :: "u8 list \<Rightarrow> nat option" where
  "bl_argument b =
     (let p = skip_while (\<lambda>c. c \<noteq> 0 \<and> c \<noteq> 32) b 0
      in if at_ptr b p = 0 then None
         else let q = (if at_ptr b p = 32 then p + 1 else p)
              in if at_ptr b q = 0 then None else Some q)"

definition bl_command_cat :: "bl_env \<Rightarrow> bl_state \<Rightarrow> bl_state option" where
  "bl_command_cat env s =
     (case bl_argument (bl_buffer s) of
        None \<Rightarrow> Some (bl_say (bytes_of ''Usage: cat <filename>'' @ newline) s)
      | Some p \<Rightarrow>
          if bl_cpio_addr s = NULL then Some (bl_say (bytes_of ''Error: initrd not loaded.'' @ newline) s)
          else map_option (\<lambda>text. bl_say text s)
                 (bl_cpio_cat (bl_bytes env s) (lk_trailer env) (bl_cpio_addr s) (lk_buffer env + of_nat p)))"

subsection \<open>Dispatcher and line editor\<close>

definition bl_cmp_command :: "bl_env \<Rightarrow> bl_state \<Rightarrow> bl_state shell_flow option" where
  "bl_cmp_command env s =
     (let b = bl_buffer s
      in if line_is b ''help'' then Some (Prompt (bl_command_help s))
         else if line_is b ''hello'' then Some (Prompt (bl_command_hello s))
         else if line_is b ''info'' then Some (Prompt (bl_command_info env s))
         else if line_is b ''load'' then bl_command_load env s
         else if line_is b ''ls'' then map_option Prompt (bl_command_ls env s)
         else if line_begins b ''cat'' then map_option Prompt (bl_command_cat env s)
         else Some (Prompt (bl_command_unknown s)))"

definition bl_clear_line :: "bl_state \<Rightarrow> bl_state" where
  "bl_clear_line s = bl_say (bytes_of ''opi-rv2> '') (s\<lparr>bl_buf_len := 0, bl_buffer := replicate BL_BUFFER_SIZE 0\<rparr>)"

definition bl_put_char :: "bl_env \<Rightarrow> special_char \<Rightarrow> u8 \<Rightarrow> bl_state \<Rightarrow> bl_state shell_flow option" where
  "bl_put_char env sc c s =
     (case sc of
        DELETE \<Rightarrow> Some (Prompt (bl_say [8, 32, 8] (if bl_buf_len s > 0 then s\<lparr>bl_buf_len := bl_buf_len s - 1\<rparr> else s)))
      | LINE_FEED \<Rightarrow>
          let s1 = bl_say newline s
          in (case (if bl_buf_len s1 = BL_BUFFER_SIZE
                    then Some (Prompt (bl_say (bytes_of ''The command being entered is too long to process.'' @ newline) s1))
                    else bl_cmp_command env (s1\<lparr>bl_buffer := (bl_buffer s1)[bl_buf_len s1 := 0]\<rparr>)) of
                None \<Rightarrow> None
              | Some (Jump a s2) \<Rightarrow> Some (Jump a s2)
              | Some (Prompt s2) \<Rightarrow> Some (Prompt (bl_clear_line s2)))
      | REGULAR_INPUT \<Rightarrow>
          Some (Prompt (bl_say [c]
            (if bl_buf_len s < BL_BUFFER_SIZE
             then s\<lparr>bl_buffer := (bl_buffer s)[bl_buf_len s := c], bl_buf_len := bl_buf_len s + 1\<rparr> else s)))
      | _ \<Rightarrow> Some (Prompt s))"

definition bl_shell_round :: "bl_env \<Rightarrow> bl_state \<Rightarrow> bl_state shell_flow option" where
  "bl_shell_round env s0 =
     (case bl_getc s0 of None \<Rightarrow> None | Some (c, s) \<Rightarrow> bl_put_char env (bl_parse c) c s)"

primrec bl_shell_rounds :: "bl_env \<Rightarrow> nat \<Rightarrow> bl_state \<Rightarrow> bl_state shell_flow option" where
  "bl_shell_rounds env 0 s = Some (Prompt s)"
| "bl_shell_rounds env (Suc n) s =
     (case bl_shell_round env s of
        None \<Rightarrow> None
      | Some (Jump a s1) \<Rightarrow> Some (Jump a s1)
      | Some (Prompt s1) \<Rightarrow> bl_shell_rounds env n s1)"

definition bl_shell :: "bl_env \<Rightarrow> nat \<Rightarrow> bl_state \<Rightarrow> bl_state shell_flow option" where
  "bl_shell env n s = bl_shell_rounds env n (bl_say (bytes_of ''opi-rv2> '') s)"

end
