(* ===== verification/Ranges.thy ===== *)
theory Ranges
  imports Utils
begin

text \<open>
  Ranges of addresses, which may wrap around: membership, disjointness, parts of a range, and the
  copying loop between disjoint ranges.
\<close>

definition inside :: "u64 \<Rightarrow> nat \<Rightarrow> u64 \<Rightarrow> bool" where
  "inside a n x \<longleftrightarrow> unat (x - a) < n"

text \<open>Two ranges of \<open>n\<close> bytes without a common address.\<close>

definition disjoint_ranges :: "u64 \<Rightarrow> u64 \<Rightarrow> nat \<Rightarrow> bool" where
  "disjoint_ranges a b n \<longleftrightarrow> n \<le> unat (b - a) \<and> n \<le> unat (a - b)"

lemma unat_opposite: "a \<noteq> b \<Longrightarrow> unat (a - b :: u64) + unat (b - a) = 2 ^ 64"
proof -
  assume ne: "a \<noteq> b"
  have "(unat (a - b) + unat (b - a)) mod 2 ^ 64 = unat ((a - b) + (b - a))" unfolding unat_word_ariths by simp
  then have z: "(unat (a - b) + unat (b - a)) mod 2 ^ 64 = 0" by simp
  have "a - b \<noteq> 0" using ne by simp
  then have "0 < unat (a - b)" by (simp add: unat_gt_0)
  moreover obtain q where q: "unat (a - b) + unat (b - a) = 2 ^ 64 * q" using z unfolding mod_eq_0_iff_dvd by (rule dvdE)
  moreover have "q < 2" using q unat_u64_bound [of "a - b"] unat_u64_bound [of "b - a"] by simp
  ultimately have "q = 1" by (cases q) auto
  then show ?thesis using q by simp
qed

lemma ranges_outside: "disjoint_ranges a b n \<Longrightarrow> inside a n x \<Longrightarrow> \<not> inside b n x"
proof -
  assume ab: "disjoint_ranges a b n" and x: "inside a n x"
  let ?d = "a - b" and ?i = "x - a"
  have "?d \<noteq> 0" using ab x by (auto simp: disjoint_ranges_def inside_def)
  then have "unat ?d + unat (b - a) = 2 ^ 64" by (intro unat_opposite) simp
  then have "unat ?d + unat ?i < 2 ^ 64" using ab x unat_u64_bound [of ?d] by (simp add: disjoint_ranges_def inside_def)
  moreover have "x - b = ?d + ?i" by simp
  ultimately have "unat (x - b) = unat ?d + unat ?i" by (simp only: unat_add_nowrap)
  then show ?thesis using ab by (simp add: disjoint_ranges_def inside_def)
qed

lemma below_outside: "a < b \<Longrightarrow> unat b + n \<le> 2 ^ 64 \<Longrightarrow> \<not> inside b n a"
proof -
  assume lt: "a < b" and n: "unat b + n \<le> 2 ^ 64"
  have "unat (b - a) = unat b - unat a" using lt by (intro unat_sub) simp
  moreover have "unat (a - b) + unat (b - a) = 2 ^ 64" using lt by (intro unat_opposite) simp
  moreover have "unat a < unat b" using lt by (simp add: word_less_nat_alt)
  ultimately show ?thesis using n unfolding inside_def by linarith
qed

lemma inside_index: "i < n \<Longrightarrow> n \<le> 2 ^ 63 \<Longrightarrow> inside a n (a + of_nat i)"
  by (simp add: inside_def unat_of_nat_small)

lemma inside_obtain:
  assumes "inside a n x"
  obtains i where "i < n" "x = a + of_nat i"
  using assms by (intro that [of "unat (x - a)"]) (simp_all add: inside_def)

lemma inside_shift:
  assumes "i < 2 ^ 63" "c + k \<le> 2 ^ 63"
  shows "inside (a + of_nat c) k (a + of_nat i) \<longleftrightarrow> c \<le> i \<and> i < c + k"
proof (cases "c \<le> i")
  case True
  then have e: "a + of_nat i - (a + of_nat c) = (of_nat (i - c) :: u64)" by (simp add: of_nat_diff)
  have u: "unat (of_nat (i - c) :: u64) = i - c" using assms(1) by (intro unat_of_nat_small) simp
  show ?thesis unfolding inside_def e u using True by auto
next
  case False
  then have e: "a + of_nat c - (a + of_nat i) = (of_nat (c - i) :: u64)" by (simp add: of_nat_diff)
  have u: "unat (of_nat (c - i) :: u64) = c - i" using assms(2) by (intro unat_of_nat_small) simp
  have "of_nat (c - i) \<noteq> (0 :: u64)" using u False by (metis not_le unat_0 zero_less_diff less_irrefl)
  then have "a + of_nat i \<noteq> a + of_nat c" using e by auto
  then have "unat (a + of_nat i - (a + of_nat c)) + (c - i) = 2 ^ 64" using unat_opposite [of "a + of_nat i" "a + of_nat c"] unfolding e u by simp
  moreover have "c - i + k \<le> 2 ^ 63" "(2 :: nat) ^ 63 < 2 ^ 64" using assms(2) by auto
  ultimately have "\<not> unat (a + of_nat i - (a + of_nat c)) < k" by linarith
  then show ?thesis using False unfolding inside_def by simp
qed

lemma inside_part: "inside (a + of_nat c) k x \<Longrightarrow> c + k \<le> n \<Longrightarrow> n \<le> 2 ^ 63 \<Longrightarrow> inside a n x"
proof -
  assume "inside (a + of_nat c) k x" and b: "c + k \<le> n" "n \<le> 2 ^ 63"
  then obtain i where "i < k" "x = a + of_nat c + of_nat i" by (metis inside_obtain)
  then show ?thesis using b inside_index [of "c + i" n a] by (simp add: add.assoc)
qed

lemma inside_offset:
  assumes "c + n \<le> 2 ^ 63"
  shows "inside (b + of_nat c) n a \<longleftrightarrow> c \<le> unat (a - b) \<and> unat (a - b) < c + n"
proof
  assume "inside (b + of_nat c) n a"
  then obtain i where i: "i < n" "a = b + of_nat c + of_nat i" by (metis inside_obtain)
  then have a: "a - b = of_nat (c + i)" by simp
  have "unat (a - b) = c + i" unfolding a using i(1) assms by (intro unat_of_nat_small) auto
  then show "c \<le> unat (a - b) \<and> unat (a - b) < c + n" using i(1) by simp
next
  assume d: "c \<le> unat (a - b) \<and> unat (a - b) < c + n"
  have "a = b + of_nat (unat (a - b))" by simp
  then show "inside (b + of_nat c) n a" using inside_shift [of "unat (a - b)" c n b] d assms by simp
qed

lemma memcpy_range:
  assumes "n \<le> 2 ^ 63" "disjoint_ranges s d n"
  shows "memcpy d s n m a = (if inside d n a then m (s + (a - d)) else m a)"
proof -
  have "d + of_nat i \<noteq> s + of_nat j" if "i < n" "j < n" for i j
    using inside_index [OF that(1) assms(1), of d] inside_index [OF that(2) assms(1), of s] ranges_outside [OF assms(2)] by metis
  then show ?thesis unfolding inside_def by (rule memcpy_apply [OF assms(1)])
qed

end
