(* ===== verification/Bootloader_Spec.thy ===== *)
theory Bootloader_Spec
  imports Bootloader Shell_Spec Dtb_Spec Uart_Spec Ranges
begin

text \<open>
  The bootloader: its readers and its console are the kernel's, it moves itself out of the way of
  the kernel exactly once, and its \<^verbatim>\<open>load\<close> command leaves the image the sender sent.
\<close>

subsection \<open>The console before interrupts are enabled\<close>

definition polled_agree :: "'a uart_state_scheme \<Rightarrow> 'b bl_uart_scheme \<Rightarrow> bool" where
  "polled_agree s t \<longleftrightarrow> \<not> async_tx_enabled s \<and> thr_log s = bl_thr t"

text \<open>Two runs agree if both wait for ever, or both return with the same events left and states that agree.\<close>

definition runs_agree ::
  "(uart_event list \<times> 'a uart_state_scheme) option \<Rightarrow> (uart_event list \<times> 'b bl_uart_scheme) option \<Rightarrow> bool" where
  "runs_agree r q \<longleftrightarrow>
     (case r of None \<Rightarrow> q = None
      | Some (es, s) \<Rightarrow> (case q of None \<Rightarrow> False | Some (fs, t) \<Rightarrow> es = fs \<and> polled_agree s t))"

named_theorems agree

lemma agree_return [agree]: "polled_agree s t \<Longrightarrow> runs_agree (Some (es, s)) (Some (es, t))"
  by (simp add: runs_agree_def)

lemma agree_bind:
  "runs_agree r q \<Longrightarrow> (\<And>es s t. polled_agree s t \<Longrightarrow> runs_agree (f es s) (g es t)) \<Longrightarrow>
   runs_agree (Option.bind r (\<lambda>(es, s). f es s)) (Option.bind q (\<lambda>(es, t). g es t))"
  by (cases r; cases q) (auto simp: runs_agree_def)

lemma agree_restore: "runs_agree r q \<Longrightarrow> runs_agree (map_option (\<lambda>(es, s). (es, csrs b s)) r) q"
  by (cases r; cases q) (auto simp: runs_agree_def polled_agree_def csrs_def)

lemma polled_csrrci: "polled_agree s t \<Longrightarrow> polled_agree (s\<lparr>sie := False\<rparr>) t"
  by (simp add: polled_agree_def)

lemma bl_wait_tx_poll: "bl_wait_tx es = poll_ready es"
  by (induction es) simp_all

lemma send_agree [agree]: "polled_agree s t \<Longrightarrow> runs_agree (uart_putc_one c es s) (bl_send c es t)"
  by (cases "poll_ready es") (simp_all add: uart_putc_one_def bl_send_def bl_wait_tx_poll runs_agree_def polled_agree_def write_thr_def)

lemma putc_agree [agree]: "polled_agree s t \<Longrightarrow> runs_agree (uart_putc c es s) (bl_uart_putc c es t)"
  unfolding uart_putc_def bl_uart_putc_def by (auto intro: agree agree_bind)

lemma putcs_agree [agree]: "polled_agree s t \<Longrightarrow> runs_agree (uart_putcs cs es s) (bl_uart_puts cs es t)"
  by (induction cs arbitrary: es s t) (auto intro: agree agree_bind)

lemma puts_agree [agree]: "polled_agree s t \<Longrightarrow> runs_agree (uart_puts str es s) (bl_uart_puts str es t)"
  by (simp add: uart_puts_def csrrci_def) (intro agree_restore agree polled_csrrci)

lemma hex_char_same: "bl_hex_char h c = hex_char h c"
  by (simp add: bl_hex_char_def hex_char_def)

lemma hex_from_agree [agree]: "polled_agree s t \<Longrightarrow> runs_agree (uart_hex_from n h es s) (bl_uart_hex_from n h es t)"
  by (induction n arbitrary: es s t) (auto simp: hex_char_same intro: agree agree_bind)

lemma dec_fill_same: "bl_dec_fill x buf = dec_fill x buf"
proof (induction x buf rule: dec_fill.induct)
  case (1 x buf)
  then show ?case by (subst bl_dec_fill.simps, subst dec_fill.simps) simp
qed

lemma hex_agree: "polled_agree s t \<Longrightarrow> runs_agree (uart_hex h es s) (bl_uart_hex h es t)"
  unfolding uart_hex_def bl_uart_hex_def csrrci_def Let_def prod.case
  by (intro agree_restore agree_bind agree polled_csrrci)

lemma dec_agree: "polled_agree s t \<Longrightarrow> runs_agree (uart_dec x es s) (bl_uart_dec x es t)"
  by (auto simp: uart_dec_def bl_uart_dec_def csrrci_def dec_fill_same intro!: agree_restore agree polled_csrrci)

subsection \<open>Relocation\<close>

lemma copy_image_apply:
  assumes "disjoint_ranges src dst n" "n \<le> 2 ^ 63"
  shows "copy_image dst src n m a = (if inside dst n a then m (src + (a - dst)) else m a)"
proof -
  have "copy_image dst src k m a = (if inside dst k a then m (src + (a - dst)) else m a)" if "k \<le> n" for k a
    using that
  proof (induction k arbitrary: a)
    case (Suc k)
    have "inside src n (src + of_nat k)" using Suc.prems assms(2) by (intro inside_index) auto
    then have "\<not> inside dst n (src + of_nat k)" by (rule ranges_outside [OF assms(1)])
    then have "\<not> inside dst k (src + of_nat k)" using Suc.prems by (simp add: inside_def)
    then have "copy_image dst src k m (src + of_nat k) = m (src + of_nat k)" using Suc by simp
    moreover have "inside dst (Suc k) a \<longleftrightarrow> inside dst k a \<or> a = dst + of_nat k"
    proof -
      have "unat (a - dst) = k \<longleftrightarrow> a = dst + of_nat k"
      proof
        assume "unat (a - dst) = k"
        then have "of_nat k = a - dst" by auto
        then show "a = dst + of_nat k" by simp
      next
        assume "a = dst + of_nat k"
        then show "unat (a - dst) = k" using Suc.prems assms(2) by (simp add: unat_of_nat_small)
      qed
      then show ?thesis by (auto simp: inside_def less_Suc_eq)
    qed
    moreover have "copy_image dst src (Suc k) m = (copy_image dst src k m)(dst + of_nat k := copy_image dst src k m (src + of_nat k))"
      by (simp add: copy_image_def)
    ultimately show ?case using Suc by auto
  qed (simp add: copy_image_def inside_def)
  then show ?thesis by simp
qed

lemma write32_apply:
  "write32 a w m b = (if inside a 4 b then ucast (drop_bit (8 * unat (b - a)) w) else m b)"
proof -
  have "inside a 4 b \<longleftrightarrow> b = a \<or> b = a + 1 \<or> b = a + 2 \<or> b = a + 3"
  proof
    assume "inside a 4 b"
    then obtain i where "i < 4" "b = a + of_nat i" by (rule inside_obtain)
    then show "b = a \<or> b = a + 1 \<or> b = a + 2 \<or> b = a + 3" by (auto simp: less_Suc_eq numeral_eq_Suc)
  qed (auto simp: inside_def)
  then show ?thesis by (auto simp: write32_def upt_rec)
qed

text \<open>The layout of the linked program: the flag is initialised data, before the zeroed segment.\<close>

definition link_ok :: "bl_env \<Rightarrow> bool" where
  "link_ok env \<longleftrightarrow> lk_flag env + 4 \<le> lk_bss_start env \<and> lk_bss_start env \<le> lk_bss_end env \<and> lk_bss_end env \<le> lk_size env \<and>
     lk_size env \<le> 2 ^ 32"

text \<open>What the device tree tells the program: two candidates for the UART, and the ram disk.\<close>

definition tree_says :: "bytes \<Rightarrow> u64 \<Rightarrow> u64 \<Rightarrow> u64 \<Rightarrow> u64 \<Rightarrow> bool" where
  "tree_says m dtb serial uart initrd \<longleftrightarrow>
     bl_dtb_get_reg m dtb (bytes_of ''/soc/serial'') = Some serial \<and>
     bl_dtb_get_reg m dtb (bytes_of ''/soc/uart'') = Some uart \<and>
     bl_dtb_load_initrd_addr m dtb 0 = Some initrd"

text \<open>Byte \<open>i\<close> of the copy that runs in the end.\<close>

definition relocated_byte :: "bl_env \<Rightarrow> u64 \<Rightarrow> bytes \<Rightarrow> nat \<Rightarrow> u8" where
  "relocated_byte env base m i =
     (if lk_bss_start env \<le> i \<and> i < lk_bss_end env then 0
      else if i = lk_flag env then 1
      else if lk_flag env < i \<and> i < lk_flag env + 4 then 0
      else m (base + of_nat i))"

lemma load32_cong: "(\<And>a. inside p 4 a \<Longrightarrow> m a = m' (a + d)) \<Longrightarrow> load32 m p = load32 m' (p + d)"
proof -
  assume eq: "\<And>a. inside p 4 a \<Longrightarrow> m a = m' (a + d)"
  have "m p = m' (p + d)" "m (p + 1) = m' (p + 1 + d)" "m (p + 2) = m' (p + 2 + d)" "m (p + 3) = m' (p + 3 + d)"
    by (rule eq, simp add: inside_def)+
  then show ?thesis by (simp add: load32_def algebra_simps)
qed

lemma start_mem:
  assumes "link_ok env"
  shows "bl_mem (bl_start env base s) a =
    (if inside (base + of_nat (lk_bss_start env)) (lk_bss_end env - lk_bss_start env) a then 0 else bl_mem s a)"
proof -
  have "lk_bss_end env - lk_bss_start env \<le> 2 ^ 63" using assms by (auto simp: link_ok_def)
  note memset_loop_apply [OF this, of "base + of_nat (lk_bss_start env)" 0 "bl_mem s" a]
  then show ?thesis by (simp only: inside_def) (simp add: bl_start_def)
qed

lemma main_relocates:
  assumes "tree_says (bl_mem s) dtb serial uart initrd" "bl_cpio_addr s = 0"
    "load32 (bl_mem s) (base + of_nat (lk_flag env)) = 0xFFFFFFFF"
  shows "\<exists>s'. bl_main env base hart_id dtb s = Some (Relocated s') \<and>
    bl_mem s' = copy_image (lk_relocate_addr env) base (lk_size env) (write32 (base + of_nat (lk_flag env)) 1 (bl_mem s))"
proof (cases "serial = 0")
  case True
  then show ?thesis
    using assms by (simp add: tree_says_def bl_main_def Let_def code_relocate_def bl_say_def)
next
  case False
  then show ?thesis
    using assms by (simp add: tree_says_def bl_main_def Let_def code_relocate_def bl_say_def)
qed

lemma main_enters:
  assumes "tree_says (bl_mem s) dtb serial uart initrd" "bl_cpio_addr s = 0" "bl_uart_addr s = 0"
    "load32 (bl_mem s) (base + of_nat (lk_flag env)) = 1"
  shows "\<exists>s'. bl_main env base hart_id dtb s = Some (Enter_Shell s') \<and> bl_mem s' = bl_mem s \<and> bl_dtb_addr s' = dtb \<and>
    bl_uart_addr s' = (if serial = 0 then uart else serial) \<and> bl_cpio_addr s' = initrd \<and> bl_boot_hart_id s' = hart_id"
proof (cases "serial = 0")
  case True
  then show ?thesis
    using assms by (simp add: tree_says_def bl_main_def Let_def bl_say_def)
next
  case False
  then show ?thesis
    using assms by (simp add: tree_says_def bl_main_def Let_def bl_say_def)
qed

lemma write32_one:
  assumes "i < 2 ^ 32" "f < 2 ^ 32"
  shows "write32 (a + of_nat f) 1 m (a + of_nat i) =
    (if i = f then 1 else if f < i \<and> i < f + 4 then 0 else m (a + of_nat i))"
proof (cases "f \<le> i \<and> i < f + 4")
  case True
  then have e: "a + of_nat i - (a + of_nat f) = (of_nat (i - f) :: u64)" by (simp add: of_nat_diff)
  have u: "unat (of_nat (i - f) :: u64) = i - f" using assms(1) by (intro unat_of_nat_small) simp
  have "inside (a + of_nat f) 4 (a + of_nat i)" using True assms by (subst inside_shift) auto
  then have w: "write32 (a + of_nat f) 1 m (a + of_nat i) = ucast (drop_bit (8 * (i - f)) (1 :: u32))"
    unfolding write32_apply e u by simp
  consider "i - f = 0" | "i - f = 1" | "i - f = 2" | "i - f = 3" using True by linarith
  then show ?thesis unfolding w using True by cases auto
next
  case False
  then have "\<not> inside (a + of_nat f) 4 (a + of_nat i)" using assms by (subst inside_shift) auto
  then show ?thesis unfolding write32_apply using False by auto
qed

lemma load32_same: "(\<And>a. inside p 4 a \<Longrightarrow> m a = m' a) \<Longrightarrow> load32 m p = load32 m' p"
  using load32_cong [of p m m' 0] by simp

lemma load32_one:
  assumes "m p = 1" "m (p + 1) = 0" "m (p + 2) = 0" "m (p + 3) = 0"
  shows "load32 m p = 1"
  using assms by (simp add: load32_def)

lemma start_outside: "link_ok env \<Longrightarrow> \<not> inside base (lk_size env) x \<Longrightarrow> bl_mem (bl_start env base s) x = bl_mem s x"
  using inside_part [of base "lk_bss_start env" "lk_bss_end env - lk_bss_start env" x "lk_size env"]
  by (auto simp: start_mem link_ok_def)

lemma start_byte:
  "link_ok env \<Longrightarrow> i < lk_size env \<Longrightarrow> bl_mem (bl_start env base s) (base + of_nat i) =
    (if lk_bss_start env \<le> i \<and> i < lk_bss_end env then 0 else bl_mem s (base + of_nat i))"
  by (subst start_mem, assumption, subst inside_shift) (auto simp: link_ok_def)

lemma start_fields:
  "bl_cpio_addr (bl_start env base s) = 0" "bl_uart_addr (bl_start env base s) = 0"
  by (simp_all add: bl_start_def)

text \<open>Memory when the second copy has cleared its segment.\<close>

lemma second_memory:
  assumes link: "link_ok env" and apart: "disjoint_ranges base t (lk_size env)"
    and m: "bl_mem s1 = copy_image t base (lk_size env) (write32 (base + of_nat (lk_flag env)) 1 (bl_mem (bl_start env base s)))"
  shows "i < lk_size env \<Longrightarrow> bl_mem (bl_start env t s1) (t + of_nat i) = relocated_byte env base (bl_mem s) i"
    and "\<not> inside base (lk_size env) x \<Longrightarrow> \<not> inside t (lk_size env) x \<Longrightarrow> bl_mem (bl_start env t s1) x = bl_mem s x"
proof -
  let ?w = "write32 (base + of_nat (lk_flag env)) 1 (bl_mem (bl_start env base s))"
  have n: "lk_size env \<le> 2 ^ 63" "lk_flag env + 4 \<le> lk_size env" "lk_flag env < 2 ^ 32" using link by (auto simp: link_ok_def)
  note copy = copy_image_apply [OF apart n(1), of ?w, folded m]
  show "bl_mem (bl_start env t s1) (t + of_nat i) = relocated_byte env base (bl_mem s) i" if i: "i < lk_size env"
  proof -
    have "i < 2 ^ 32" using i link by (auto simp: link_ok_def)
    note w = write32_one [OF this n(3), of base "bl_mem (bl_start env base s)"]
    have "inside t (lk_size env) (t + of_nat i)" by (rule inside_index [OF i n(1)])
    then have "bl_mem s1 (t + of_nat i) = ?w (base + of_nat i)" by (simp add: copy)
    then show ?thesis using link by (auto simp: start_byte [OF link i] w relocated_byte_def link_ok_def)
  qed
  assume x: "\<not> inside base (lk_size env) x" "\<not> inside t (lk_size env) x"
  have "\<not> inside (base + of_nat (lk_flag env)) 4 x" using inside_part [OF _ n(2,1)] x(1) by blast
  then show "bl_mem (bl_start env t s1) x = bl_mem s x"
    using x by (simp add: start_outside [OF link] copy write32_apply)
qed

lemma flag_words:
  assumes link: "link_ok env"
  shows "load32 (bl_mem (bl_start env base s)) (base + of_nat (lk_flag env)) = load32 (bl_mem s) (base + of_nat (lk_flag env))"
    and "(\<And>i. i < lk_size env \<Longrightarrow> m (t + of_nat i) = relocated_byte env base (bl_mem s) i) \<Longrightarrow> load32 m (t + of_nat (lk_flag env)) = 1"
proof -
  have n: "lk_flag env + 4 \<le> lk_bss_start env" "lk_bss_start env \<le> lk_size env" using link by (auto simp: link_ok_def)
  show "load32 (bl_mem (bl_start env base s)) (base + of_nat (lk_flag env)) = load32 (bl_mem s) (base + of_nat (lk_flag env))"
  proof (rule load32_same)
    fix a assume "inside (base + of_nat (lk_flag env)) 4 a"
    then obtain j where j: "j < 4" "a = base + of_nat (lk_flag env) + of_nat j" by (metis inside_obtain)
    then have a: "a = base + of_nat (lk_flag env + j)" by simp
    have "lk_flag env + j < lk_size env" using j(1) n by linarith
    note b = start_byte [OF link this, of base s]
    show "bl_mem (bl_start env base s) a = bl_mem s a" unfolding a b using j(1) n(1) by simp
  qed
  assume m: "\<And>i. i < lk_size env \<Longrightarrow> m (t + of_nat i) = relocated_byte env base (bl_mem s) i"
  have "m (t + of_nat (lk_flag env + j)) = (if j = 0 then 1 else 0)" if "j < 4" for j
    using m [of "lk_flag env + j"] n that by (simp add: relocated_byte_def)
  from this [of 0] this [of 1] this [of 2] this [of 3] show "load32 m (t + of_nat (lk_flag env)) = 1"
    by (intro load32_one) (simp_all add: ac_simps)
qed

subsection \<open>The line and the load command\<close>

definition bl_ok :: "bl_state \<Rightarrow> bool" where
  "bl_ok s \<longleftrightarrow> length (bl_buffer s) = BL_BUFFER_SIZE \<and> bl_buf_len s \<le> BL_BUFFER_SIZE"

definition bl_typed_line :: "bl_state \<Rightarrow> u8 list" where "bl_typed_line s = take (bl_buf_len s) (bl_buffer s)"

definition bl_machine :: "bl_state \<Rightarrow> bl_state" where
  "bl_machine s = s\<lparr>bl_buffer := [], bl_buf_len := 0, bl_console := []\<rparr>"

definition bl_press_key :: "bl_env \<Rightarrow> u8 \<Rightarrow> bl_state \<Rightarrow> bl_state option" where
  "bl_press_key env c s = (case bl_put_char env (bl_parse c) c s of Some (Prompt s') \<Rightarrow> Some s' | _ \<Rightarrow> None)"

lemma bl_parse_same: "bl_parse c = parse c"
  by (simp add: bl_parse_def parse_def)

interpretation bl_editor: line_editor "bl_press_key env" bl_typed_line bl_console bl_machine bl_ok BL_BUFFER_SIZE for env
proof
  fix s c
  assume ok: "bl_ok s" and c: "kind_of c \<noteq> Submit"
  show "\<exists>s'. bl_press_key env c s = Some s' \<and> bl_ok s' \<and> bl_typed_line s' = edit BL_BUFFER_SIZE (bl_typed_line s) c \<and>
      bl_console s' = bl_console s @ echo c \<and> bl_machine s' = bl_machine s"
    using ok c take_update_last [of "bl_buf_len s" "bl_buffer s" c] take_pred [of "bl_buf_len s" "bl_buffer s"]
    by (cases "kind_of c")
      (auto simp: bl_press_key_def bl_put_char_def bl_parse_same parse_kind edit_def echo_def bl_ok_def bl_typed_line_def
        bl_machine_def bl_say_def)
qed

lemma bl_read_word_keys:
  assumes "bl_keys s = le_bytes w @ ks" "13 \<notin> set (le_bytes w)"
  shows "bl_read_word s = Some (w, s\<lparr>bl_keys := ks\<rparr>)"
proof -
  define a b c d where "a = (ucast w :: u8)" and "b = (ucast (drop_bit 8 w) :: u8)" and "c = (ucast (drop_bit 16 w) :: u8)" and "d = (ucast (drop_bit 24 w) :: u8)"
  have l: "le_bytes w = [a, b, c, d]" by (simp add: le_bytes_def upt_rec a_def b_def c_def d_def)
  then have "bl_read_word s = Some (ucast a OR push_bit 8 (ucast b) OR push_bit 16 (ucast c) OR push_bit 24 (ucast d), s\<lparr>bl_keys := ks\<rparr>)"
    using assms by (simp add: bl_read_word_def bl_getc_def bl_getc_raw_def)
  moreover have "ucast a OR push_bit 8 (ucast b) OR push_bit 16 (ucast c) OR push_bit 24 (ucast d) = w"
    unfolding a_def b_def c_def d_def by (rule word_of_le_bytes)
  ultimately show ?thesis by simp
qed

lemma bl_receive_keys:
  assumes "length data \<le> 2 ^ 32" "bl_keys s = data @ ks"
  shows "\<exists>m. bl_receive dst (length data) s = Some (s\<lparr>bl_mem := m, bl_keys := ks\<rparr>) \<and>
    (\<forall>a. m a = (if inside dst (length data) a then data ! unat (a - dst) else bl_mem s a))"
  using assms
proof (induction data arbitrary: dst s)
  case Nil
  then have "s = s\<lparr>bl_mem := bl_mem s, bl_keys := ks\<rparr>" by simp
  then show ?case by (intro exI [of _ "bl_mem s"]) (simp add: inside_def)
next
  case (Cons c cs)
  let ?s1 = "s\<lparr>bl_keys := cs @ ks, bl_mem := (bl_mem s)(dst := c)\<rparr>"
  obtain m where m: "bl_receive (dst + 1) (length cs) ?s1 = Some (?s1\<lparr>bl_mem := m, bl_keys := ks\<rparr>)"
    "\<forall>a. m a = (if inside (dst + 1) (length cs) a then cs ! unat (a - (dst + 1)) else bl_mem ?s1 a)"
    using Cons.IH [of ?s1 "dst + 1"] Cons.prems by auto
  have "m a = (if inside dst (length (c # cs)) a then (c # cs) ! unat (a - dst) else bl_mem s a)" for a
  proof (cases "a = dst")
    case True
    have "unat (dst - (dst + 1)) + unat (dst + 1 - dst) = 2 ^ 64" by (rule unat_opposite) simp
    then have "\<not> inside (dst + 1) (length cs) a" using Cons.prems(1) True by (simp add: inside_def)
    then show ?thesis using m(2) True by (simp add: inside_def)
  next
    case False
    then have "a - dst \<noteq> 0" by simp
    then have "unat (a - dst) = Suc (unat (a - dst - 1))" using unat_minus_one [of "a - dst"] by (simp add: unat_gt_0)
    moreover have "a - (dst + 1) = a - dst - 1" by simp
    ultimately show ?thesis using m(2) [rule_format, of a] False by (simp only: inside_def) simp
  qed
  moreover have "bl_receive dst (length (c # cs)) s = Some (s\<lparr>bl_mem := m, bl_keys := ks\<rparr>)"
    using Cons.prems(2) m(1) by (simp add: bl_getc_raw_def)
  ultimately show ?case by blast
qed

subsection \<open>Buffers\<close>

lemma put_char_ok: "shell_ok s \<Longrightarrow> put_char env sc c s = Some (Prompt s') \<Longrightarrow> shell_ok s'"
  by (cases sc) (auto simp: put_char_def shell_ok_def say_def clear_line_def Let_def split: if_splits option.splits shell_flow.splits)

lemma shell_round_ok: "shell_ok s \<Longrightarrow> shell_round env s = Some (Prompt s') \<Longrightarrow> shell_ok s'"
proof -
  assume ok: "shell_ok s" and r: "shell_round env s = Some (Prompt s')"
  then obtain c s1 where "getc (s\<lparr>sie := True\<rparr>) = Some (c, s1)" "put_char env (parse c) c s1 = Some (Prompt s')"
    by (auto simp: shell_round_def split: option.splits)
  moreover have "shell_ok s1" using calculation(1) ok by (auto simp: getc_def getc_raw_def shell_ok_def split: list.splits)
  ultimately show ?thesis by (blast intro: put_char_ok)
qed

lemma shell_rounds_ok: "shell_ok s \<Longrightarrow> shell_rounds env n s = Some (Prompt s') \<Longrightarrow> shell_ok s'"
  by (induction n arbitrary: s) (auto split: option.splits shell_flow.splits dest: shell_round_ok)

lemma bl_put_char_ok: "bl_ok s \<Longrightarrow> bl_put_char env sc c s = Some (Prompt s') \<Longrightarrow> bl_ok s'"
  by (cases sc) (auto simp: bl_put_char_def bl_ok_def bl_say_def bl_clear_line_def Let_def split: if_splits option.splits shell_flow.splits)

lemma bl_shell_round_ok: "bl_ok s \<Longrightarrow> bl_shell_round env s = Some (Prompt s') \<Longrightarrow> bl_ok s'"
proof -
  assume ok: "bl_ok s" and r: "bl_shell_round env s = Some (Prompt s')"
  then obtain c s1 where "bl_getc s = Some (c, s1)" "bl_put_char env (bl_parse c) c s1 = Some (Prompt s')"
    by (auto simp: bl_shell_round_def split: option.splits)
  moreover have "bl_ok s1" using calculation(1) ok by (auto simp: bl_getc_def bl_getc_raw_def bl_ok_def split: list.splits)
  ultimately show ?thesis by (blast intro: bl_put_char_ok)
qed

lemma bl_shell_rounds_ok: "bl_ok s \<Longrightarrow> bl_shell_rounds env n s = Some (Prompt s') \<Longrightarrow> bl_ok s'"
  by (induction n arbitrary: s) (auto split: option.splits shell_flow.splits dest: bl_shell_round_ok)

text \<open>The tree \<^verbatim>\<open>/ { soc { serial { reg } } chosen { linux,initrd-start } }\<close> at \<open>0x4000\<close>, and a machine with it.\<close>

definition boot_dtb :: bytes where
  "boot_dtb = word_blob 0x4000
     [0xD00DFEED, 0xa0, 0x28, 0x88, 0, 17, 16, 0, 24, 0x60,
      1, 0,
      1, 0x736f6300,
      1, 0x73657269, 0x616c0000,
      3, 8, 0, 0, 0x10000000,
      2, 2,
      1, 0x63686f73, 0x656e0000,
      3, 4, 4, 0x84000000,
      2, 2, 9,
      0x72656700, 0x6c696e75, 0x782c696e, 0x69747264, 0x2d737461, 0x72740000]"

definition boot_tree :: fdt_node where
  "boot_tree = Fdt_Node [] []
     [Fdt_Node (bytes_of ''soc'') [] [Fdt_Node (bytes_of ''serial'') [(reg_name, 0x4050, 8)] []],
      Fdt_Node (bytes_of ''chosen'') [(initrd_start_name, 0x4078, 4)] []]"

definition boot_env :: bl_env where
  "boot_env = \<lparr>lk_size = 64, lk_bss_start = 48, lk_bss_end = 64, lk_flag = 40, lk_pc = 8, lk_relocate_addr = 0x82000000,
     lk_buffer = 0x80200030, lk_trailer = 0x80200020, lk_qemu = True, lk_sbi = (\<lambda>_. 0)\<rparr>"

definition boot_machine :: "u8 list \<Rightarrow> bl_state" where
  "boot_machine ks = \<lparr>bl_mem = (\<lambda>a. if inside 0x80200028 4 a then 255 else boot_dtb a), bl_uart_addr = 0, bl_dtb_addr = 0,
     bl_cpio_addr = 0, bl_boot_hart_id = 0, bl_buffer = replicate 128 0, bl_buf_len = 0, bl_console = [], bl_keys = ks\<rparr>"

lemma boot_tree_at:
  assumes m: "\<And>a. a < 0x80000000 \<Longrightarrow> m a = boot_dtb a"
  shows "fdt_at m 0x4000 boot_tree"
  by (simp add: fdt_at_def boot_tree_def fdt_magic_def load32_def bswap_32_def m boot_dtb_def word_blob_def FDT_HEADER_MAGIC_def
     dtb_struct_def off_dt_struct_def off_dt_strings_def size_dt_struct_def fdt_tokens reg_name_def bytes_of_def initrd_start_name_def align_32_def)

lemma boot_tree_says:
  assumes m: "\<And>a. a < 0x80000000 \<Longrightarrow> m a = boot_dtb a"
  shows "tree_says m 0x4000 0x10000000 0 0x84000000"
proof -
  have "first_prop (bytes_of ''/soc/serial'') reg_name (path_depth (bytes_of ''/soc/serial'')) 0 boot_tree = Some (0x4050, 8)"
    "first_prop (bytes_of ''/soc/uart'') reg_name (path_depth (bytes_of ''/soc/uart'')) 0 boot_tree = None"
    "first_prop (bytes_of ''/chosen'') initrd_start_name (path_depth (bytes_of ''/chosen'')) 0 boot_tree = Some (0x4078, 4)"
    by (simp_all add: boot_tree_def path_simps reg_name_def initrd_start_name_def)
  then have "dtb_getprop m 0x4000 (bytes_of ''/soc/serial'') reg_name = Some (0x4050, Some 8)"
    "dtb_getprop m 0x4000 (bytes_of ''/soc/uart'') reg_name = Some (NULL, Some 0)"
    "dtb_getprop m 0x4000 (bytes_of ''/chosen'') initrd_start_name = Some (0x4078, Some 4)"
    using getprop_tree [OF boot_tree_at [OF m]] by (simp_all add: reg_name_def initrd_start_name_def bytes_of_def)
  moreover have "cell32 m 0x4050 0 = 0" "cell32 m 0x4050 1 = 0x10000000" "cell32 m 0x4078 0 = 0x84000000"
    by (simp_all add: cell32_def load32_def bswap_32_def m boot_dtb_def word_blob_def)
  ultimately show ?thesis
    by (simp add: tree_says_def bl_same dtb_get_reg_def dtb_load_initrd_addr_def reg_name_def stored_len_def)
qed

subsection \<open>Properties\<close>

text \<open>C37: until the kernel's driver enables interrupts its printing routines and the bootloader's polled ones
  are the same: on the same answers of the device both wait for ever, or both return after the same
  number of polls having sent the same bytes, in polling mode still.\<close>

theorem polled_printing_equivalent:
  assumes "polled_agree s t"
  shows "runs_agree (uart_putc c es s) (bl_uart_putc c es t) \<and> runs_agree (uart_puts str es s) (bl_uart_puts str es t) \<and>
    runs_agree (uart_hex h es s) (bl_uart_hex h es t) \<and> runs_agree (uart_dec x es s) (bl_uart_dec x es t)"
  using assms by (simp add: agree hex_agree dec_agree)

text \<open>C36: the bootloader's own copies of the string comparison, the ram disk reader and the device tree reader
  compute what the kernel's do on every memory, so what holds of the kernel's readers holds of these.\<close>

theorem bootloader_readers_same:
  "bl_strcmp m a b = strcmp m a b \<and> bl_cpio_ls m trailer p = cpio_ls m trailer p \<and>
   bl_cpio_cat m trailer p name = cpio_cat m trailer p name \<and> bl_dtb_getprop m d path nm = dtb_getprop m d path nm \<and>
   bl_dtb_get_reg m d path = dtb_get_reg m d path \<and> bl_dtb_load_initrd_addr m d c = dtb_load_initrd_addr m d c"
  by (simp add: bl_same)



theorem polled_printing_equivalent_witness:
  "\<exists>s'. uart_puts [65, 10] [ready, ready, ready, ready] uart_boot = Some ([ready], s') \<and> thr_log s' = [65, 13, 10]"
proof -
  let ?t = "\<lparr>bl_uart_base = 0, bl_thr = []\<rparr>"
  have r: "ev_tx_lsr ready AND LSR_TDRQ \<noteq> 0" by (simp add: ready_def LSR_TDRQ_def)
  have "polled_agree uart_boot ?t" by (simp add: polled_agree_def uart_boot_def)
  moreover have "bl_uart_puts [65, 10] [ready, ready, ready, ready] ?t = Some ([ready], \<lparr>bl_uart_base = 0, bl_thr = [65, 13, 10]\<rparr>)"
    using r by (simp add: bl_uart_putc_def bl_send_def)
  ultimately show ?thesis
    using polled_printing_equivalent [of uart_boot ?t 0 "[ready, ready, ready, ready]" "[65, 10]" 0 0]
    by (auto simp: runs_agree_def polled_agree_def split: option.splits)
qed





end
