(* ===== verification/Video.thy ===== *)
theory Video
  imports Vm Dtb Ranges "HOL-Library.Signed_Division"
begin

text \<open>
  The display, \<^verbatim>\<open>kernel/src/video.c\<close>: QEMU's frame buffer is announced through the firmware
  configuration device, which transfers blocks of memory described by a big-endian request; an
  image is copied row by row into the middle of the screen. Memory is a function on addresses as
  the processor sees them; the flush of the data cache changes no memory and console output is not
  modelled.
\<close>

subsection \<open>Constants and byte order\<close>

definition FB_WIDTH :: int where "FB_WIDTH = 1920"
definition FB_HEIGHT :: int where "FB_HEIGHT = 1080"
definition FB_BPP :: int where "FB_BPP = 4"
definition FB_BASE :: "bool \<Rightarrow> u64" where "FB_BASE qemu = (if qemu then 0x87000000 else 0x7f700000)"
definition XRGB8888 :: u32 where "XRGB8888 = 875713112"

definition video_bswap32 :: "u32 \<Rightarrow> u32" where
  "video_bswap32 x =
     drop_bit 24 (x AND 0xff000000) OR drop_bit 8 (x AND 0x00ff0000) OR
     push_bit 8 (x AND 0x0000ff00) OR push_bit 24 (x AND 0x000000ff)"

definition video_bswap64 :: "u64 \<Rightarrow> u64" where
  "video_bswap64 x =
     drop_bit 56 (x AND 0xff00000000000000) OR drop_bit 40 (x AND 0x00ff000000000000) OR
     drop_bit 24 (x AND 0x0000ff0000000000) OR drop_bit 8 (x AND 0x000000ff00000000) OR
     push_bit 8 (x AND 0x00000000ff000000) OR push_bit 24 (x AND 0x0000000000ff0000) OR
     push_bit 40 (x AND 0x000000000000ff00) OR push_bit 56 (x AND 0x00000000000000ff)"

definition video_bswap16 :: "16 word \<Rightarrow> 16 word" where
  "video_bswap16 x = drop_bit 8 (x AND 0xff00) OR push_bit 8 (x AND 0x00ff)"

definition store64 :: "u64 \<Rightarrow> u64 \<Rightarrow> bytes \<Rightarrow> bytes" where
  "store64 a w b = fold (\<lambda>i b. b(a + of_nat i := ucast (drop_bit (8 * i) w))) [0..<8] b"

definition load16 :: "bytes \<Rightarrow> u64 \<Rightarrow> 16 word" where
  "load16 m a = ucast (m a) OR push_bit 8 (ucast (m (a + 1)))"

subsection \<open>Firmware configuration\<close>

text \<open>
  The device: what a write to its DMA register starts, and what it does between two polls. The
  other fields are the addresses of the local variables and of the string literal.
\<close>

record 'd fw_env =
  fw_dma :: "u64 \<Rightarrow> bytes \<times> 'd \<Rightarrow> bytes \<times> 'd"
  fw_step :: "bytes \<times> 'd \<Rightarrow> bytes \<times> 'd"
  fw_access :: u64
  fw_count :: u64
  fw_file :: u64
  fw_cfg :: u64
  fw_name :: u64

definition FW_CFG_FILE_DIR :: u32 where "FW_CFG_FILE_DIR = 0x19"
definition FW_CFG_DMA_CTL_ERROR :: u32 where "FW_CFG_DMA_CTL_ERROR = 1"
definition FW_CFG_DMA_CTL_READ :: u32 where "FW_CFG_DMA_CTL_READ = 2"
definition FW_CFG_DMA_CTL_SELECT :: u32 where "FW_CFG_DMA_CTL_SELECT = 8"
definition FW_CFG_DMA_CTL_WRITE :: u32 where "FW_CFG_DMA_CTL_WRITE = 16"

partial_function (option) fw_wait :: "('d, 'e) fw_env_scheme \<Rightarrow> bytes \<times> 'd \<Rightarrow> (bytes \<times> 'd) option" where
  "fw_wait env md =
     (if video_bswap32 (load32 (fst md) (fw_access env)) AND NOT FW_CFG_DMA_CTL_ERROR \<noteq> 0
      then fw_wait env (fw_step env md) else Some md)"

definition fw_cfg_dma_transfer ::
  "('d, 'e) fw_env_scheme \<Rightarrow> u64 \<Rightarrow> u32 \<Rightarrow> u32 \<Rightarrow> bytes \<times> 'd \<Rightarrow> (bytes \<times> 'd) option" where
  "fw_cfg_dma_transfer env address len control md =
     (let a = fw_access env;
          m = store64 (a + 8) (video_bswap64 (pa_of address))
                (store32 (a + 4) (video_bswap32 len) (store32 a (video_bswap32 control) (fst md)))
      in fw_wait env (fw_dma env (video_bswap64 (pa_of a)) (m, snd md)))"

definition fw_cfg_read_entry :: "('d, 'e) fw_env_scheme \<Rightarrow> u64 \<Rightarrow> u32 \<Rightarrow> u32 \<Rightarrow> bytes \<times> 'd \<Rightarrow> (bytes \<times> 'd) option" where
  "fw_cfg_read_entry env buf e len md =
     fw_cfg_dma_transfer env buf len (push_bit 16 e OR FW_CFG_DMA_CTL_SELECT OR FW_CFG_DMA_CTL_READ) md"

definition fw_cfg_write_entry :: "('d, 'e) fw_env_scheme \<Rightarrow> u64 \<Rightarrow> u32 \<Rightarrow> u32 \<Rightarrow> bytes \<times> 'd \<Rightarrow> (bytes \<times> 'd) option" where
  "fw_cfg_write_entry env buf e len md =
     fw_cfg_dma_transfer env buf len (push_bit 16 e OR FW_CFG_DMA_CTL_SELECT OR FW_CFG_DMA_CTL_WRITE) md"

primrec fw_find_from :: "('d, 'e) fw_env_scheme \<Rightarrow> nat \<Rightarrow> bytes \<times> 'd \<Rightarrow> (int \<times> bytes \<times> 'd) option" where
  "fw_find_from env 0 md = Some (- 1, md)"
| "fw_find_from env (Suc n) md =
     (case fw_cfg_dma_transfer env (fw_file env) 64 FW_CFG_DMA_CTL_READ md of
        None \<Rightarrow> None
      | Some md1 \<Rightarrow>
          if strncmp (fst md1) (fw_name env) (fw_file env + 8) 56 = 0
          then Some (uint (video_bswap16 (load16 (fst md1) (fw_file env + 4))), md1)
          else fw_find_from env n md1)"

definition fw_cfg_find_file :: "('d, 'e) fw_env_scheme \<Rightarrow> bytes \<times> 'd \<Rightarrow> (int \<times> bytes \<times> 'd) option" where
  "fw_cfg_find_file env md =
     (case fw_cfg_read_entry env (fw_count env) FW_CFG_FILE_DIR 4 (store32 (fw_count env) 0 (fst md), snd md) of
        None \<Rightarrow> None
      | Some md1 \<Rightarrow> fw_find_from env (unat (video_bswap32 (load32 (fst md1) (fw_count env)))) md1)"

text \<open>The configuration of the frame buffer as it is laid out for the device.\<close>

definition ramfb_config :: "bool \<Rightarrow> u64 \<Rightarrow> bytes \<Rightarrow> bytes" where
  "ramfb_config qemu c m =
     store32 (c + 24) (video_bswap32 (of_int (FB_WIDTH * FB_BPP)))
       (store32 (c + 20) (video_bswap32 (of_int FB_HEIGHT))
         (store32 (c + 16) (video_bswap32 (of_int FB_WIDTH))
           (store32 (c + 12) (video_bswap32 0)
             (store32 (c + 8) (video_bswap32 XRGB8888)
               (store64 c (video_bswap64 (FB_BASE qemu)) m)))))"

text \<open>The result tells whether the device was found.\<close>

definition video_init ::
  "bool \<Rightarrow> ('d, 'e) fw_env_scheme \<Rightarrow> bytes \<times> 'd \<Rightarrow> 'a buddy_state_scheme \<Rightarrow> (bool \<times> (bytes \<times> 'd) \<times> 'a buddy_state_scheme) option" where
  "video_init qemu env md s =
     (if qemu
      then let s1 = memory_reserve (FB_BASE qemu) (of_int (FB_WIDTH * FB_HEIGHT * FB_BPP)) s
           in do {
             (select, md1) \<leftarrow> fw_cfg_find_file env (ramfb_config qemu (fw_cfg env) (fst md), snd md);
             if select \<ge> 0
             then map_option (\<lambda>md2. (True, md2, s1)) (fw_cfg_write_entry env (fw_cfg env) (of_int select) 28 md1)
             else Some (False, md1, s1)
           }
      else Some (True, md, s))"

subsection \<open>Showing an image\<close>

definition start_x :: "int \<Rightarrow> int" where "start_x width = (FB_WIDTH - width) sdiv 2"
definition start_y :: "int \<Rightarrow> int" where "start_y height = (FB_HEIGHT - height) sdiv 2"

text \<open>One turn of the loop; \<^verbatim>\<open>memcpy\<close> counts its 32-bit argument down to zero.\<close>

definition copy_row :: "bool \<Rightarrow> u64 \<Rightarrow> int \<Rightarrow> int \<Rightarrow> int \<Rightarrow> bytes \<Rightarrow> bytes" where
  "copy_row qemu bmp width height y m =
     memcpy (va (FB_BASE qemu) + of_int (4 * ((start_y height + y) * FB_WIDTH + start_x width)))
       (bmp + of_int (4 * (y * width))) (unat (of_int (4 * width) :: u32)) m"

definition video_bmp_display :: "bool \<Rightarrow> u64 \<Rightarrow> int \<Rightarrow> int \<Rightarrow> bytes \<Rightarrow> bytes" where
  "video_bmp_display qemu bmp width height m =
     fold (\<lambda>y. copy_row qemu bmp width height (int y)) [0..<nat height] m"

subsection \<open>Where the pixels go\<close>

text \<open>
  The byte of the image shown at offset \<open>d\<close> of the frame buffer, if the offset lies in the first
  \<open>k\<close> rows of the image.
\<close>

definition shown_at :: "nat \<Rightarrow> nat \<Rightarrow> nat \<Rightarrow> nat \<Rightarrow> nat \<Rightarrow> nat \<Rightarrow> nat option" where
  "shown_at up left n k row col =
     (if up \<le> row \<and> row < up + k \<and> left \<le> col \<and> col < left + n then Some ((row - up) * n + (col - left)) else None)"

definition shown_byte :: "nat \<Rightarrow> nat \<Rightarrow> nat \<Rightarrow> nat \<Rightarrow> nat option" where
  "shown_byte w h k d = shown_at ((1080 - h) div 2) (4 * ((1920 - w) div 2)) (4 * w) k (d div 7680) (d mod 7680)"

lemma shown_at_Some:
  "shown_at up left n k row col = Some i \<longleftrightarrow>
     up \<le> row \<and> row < up + k \<and> left \<le> col \<and> col < left + n \<and> i = (row - up) * n + (col - left)"
  by (auto simp: shown_at_def)

lemma shown_at_0: "shown_at up left n 0 row col = None"
  by (auto simp: shown_at_def)

lemma shown_at_Suc:
  "shown_at up left n (Suc k) row col =
     (if row = up + k \<and> left \<le> col \<and> col < left + n then Some (k * n + (col - left)) else shown_at up left n k row col)"
  by (auto simp: shown_at_def)

lemma start_values:
  assumes "w \<le> 1920" "h \<le> 1080"
  shows "start_x (int w) = int ((1920 - w) div 2)" "start_y (int h) = int ((1080 - h) div 2)"
proof -
  have "sgn (int a) * (int a div 2) = int (a div 2)" for a by (cases "a = 0") auto
  note d = this [of "1920 - w"] this [of "1080 - h"]
  have "FB_WIDTH - int w = int (1920 - w)" "FB_HEIGHT - int h = int (1080 - h)"
    using assms by (simp_all add: FB_WIDTH_def FB_HEIGHT_def)
  then show "start_x (int w) = int ((1920 - w) div 2)" "start_y (int h) = int ((1080 - h) div 2)"
    using d by (simp_all add: start_x_def start_y_def signed_divide_int_def)
qed

lemma row_offset:
  assumes "l + n \<le> 7680"
  shows "r * 7680 + l \<le> d \<and> d < r * 7680 + l + n \<longleftrightarrow> d div 7680 = r \<and> l \<le> d mod 7680 \<and> d mod 7680 < l + (n :: nat)"
proof -
  have d: "d = d div 7680 * 7680 + d mod 7680" by simp
  show ?thesis
  proof
    assume a: "r * 7680 + l \<le> d \<and> d < r * 7680 + l + n"
    then have "d div 7680 = r" using assms by (intro div_nat_eqI) auto
    then show "d div 7680 = r \<and> l \<le> d mod 7680 \<and> d mod 7680 < l + n" using a d by (metis add_less_cancel_left add.assoc add_le_cancel_left)
  next
    assume "d div 7680 = r \<and> l \<le> d mod 7680 \<and> d mod 7680 < l + n"
    then show "r * 7680 + l \<le> d \<and> d < r * 7680 + l + n" using d by auto
  qed
qed

lemma shown_bound:
  assumes "w \<le> 1920" "h \<le> 1080" "k \<le> h" "shown_byte w h k d = Some i"
  shows "d < 8294400" "i < k * (4 * w)"
proof -
  let ?row = "d div 7680" and ?col = "d mod 7680" and ?top = "(1080 - h) div 2" and ?left = "4 * ((1920 - w) div 2)"
  have r: "?top \<le> ?row" "?row < ?top + k" "?left \<le> ?col" "?col < ?left + 4 * w" and i: "i = (?row - ?top) * (4 * w) + (?col - ?left)"
    using assms(4) unfolding shown_byte_def shown_at_Some by blast+
  have "?top + k \<le> 1080" using assms(2,3) by linarith
  then have "?row < 1080" using r(2) by linarith
  then show "d < 8294400" by linarith
  have "?row - ?top + 1 \<le> k" using r(1,2) by linarith
  then have "(?row - ?top + 1) * (4 * w) \<le> k * (4 * w)" by (rule mult_le_mono1)
  moreover have "i < (?row - ?top + 1) * (4 * w)" 
  proof -
    have "?col - ?left < 4 * w" using r(3,4) by linarith
    then show ?thesis by (simp only: i add_mult_distrib mult_1 add_less_cancel_left)
  qed
  ultimately show "i < k * (4 * w)" by linarith
qed

lemma shown_next:
  assumes "w \<le> 1920" "h \<le> 1080" "k < h"
  defines "c \<equiv> ((1080 - h) div 2 + k) * 7680 + 4 * ((1920 - w) div 2)"
  shows "shown_byte w h (Suc k) d = (if c \<le> d \<and> d < c + 4 * w then Some (k * (4 * w) + (d - c)) else shown_byte w h k d)"
proof -
  let ?top = "(1080 - h) div 2" and ?left = "4 * ((1920 - w) div 2)"
  have l: "?left + 4 * w \<le> 7680" using assms(1) by linarith
  note r = row_offset [OF l, of "?top + k" d]
  have e: "d - c = d mod 7680 - ?left" if a: "d div 7680 = ?top + k"
  proof -
    have "d = (?top + k) * 7680 + d mod 7680" using div_mult_mod_eq [of d 7680] unfolding a by (rule sym)
    moreover have "d = a + m \<Longrightarrow> d - (a + l) = m - l" for a m l by simp
    ultimately show ?thesis unfolding c_def by blast
  qed
  show ?thesis unfolding shown_byte_def shown_at_Suc r [folded c_def] using e by presburger
qed

lemma display_rows:
  assumes w: "w \<le> 1920" and h: "h \<le> 1080" and k: "k \<le> h"
    and src: "\<And>i. i < 4 * w * h \<Longrightarrow> \<not> inside (va (FB_BASE qemu)) 8294400 (bmp + of_nat i)"
  shows "fold (\<lambda>y. copy_row qemu bmp (int w) (int h) (int y)) [0..<k] m a =
    (case shown_byte w h k (unat (a - va (FB_BASE qemu))) of Some i \<Rightarrow> m (bmp + of_nat i) | None \<Rightarrow> m a)"
  using k
proof (induction k arbitrary: a)
  case 0
  have "shown_byte w h 0 d = None" for d by (simp only: shown_byte_def shown_at_0)
  then show ?case by simp
next
  case (Suc k)
  let ?fb = "va (FB_BASE qemu)" and ?n = "4 * w"
  define c where "c = ((1080 - h) div 2 + k) * 7680 + 4 * ((1920 - w) div 2)"
  let ?m = "fold (\<lambda>y. copy_row qemu bmp (int w) (int h) (int y)) [0..<k] m"
  have c: "c + ?n \<le> 8294400" "c + ?n \<le> 2 ^ 63"
  proof -
    have "(1080 - h) div 2 + k \<le> 1079" "4 * ((1920 - w) div 2) + ?n \<le> 7680" using Suc.prems h w by linarith+
    moreover have "x \<le> 1079 \<Longrightarrow> l + n \<le> 7680 \<Longrightarrow> x * 7680 + l + n \<le> (8294400 :: nat)" for x l n by linarith
    ultimately show "c + ?n \<le> 8294400" unfolding c_def by blast
    then show "c + ?n \<le> 2 ^ 63" by (rule order_trans) simp
  qed
  have dst: "?fb + of_int (4 * ((start_y (int h) + int k) * FB_WIDTH + start_x (int w))) = ?fb + of_nat c"
  proof -
    have "4 * ((start_y (int h) + int k) * FB_WIDTH + start_x (int w)) = int c"
      unfolding start_values [OF w h] FB_WIDTH_def c_def by simp
    then show ?thesis by simp
  qed
  have len: "unat (of_int (4 * int w) :: u32) = ?n"
  proof -
    have "(of_int (4 * int w) :: u32) = of_nat ?n" by simp
    moreover have "unat (of_nat ?n :: u32) = ?n"
      using w by (subst unsigned_of_nat) (simp add: take_bit_nat_eq_self)
    ultimately show ?thesis by (simp only:)
  qed
  have start: "bmp + of_int (4 * (int k * int w)) = bmp + of_nat (k * ?n)" by (simp add: mult.commute mult.left_commute)
  have kn: "k * ?n + j < 4 * w * h" if "j < ?n" for j
  proof -
    have "Suc k * ?n \<le> h * ?n" using Suc.prems by (intro mult_le_mono1) simp
    then show ?thesis using that by (simp add: algebra_simps)
  qed
  have row: "copy_row qemu bmp (int w) (int h) (int k) ?m a = 
      (if inside (?fb + of_nat c) ?n a then ?m (bmp + of_nat (k * ?n) + (a - (?fb + of_nat c))) else ?m a)"
    unfolding copy_row_def dst len start inside_def
  proof (rule memcpy_apply)
    show "?n \<le> 2 ^ 63" using w by simp
    fix i j assume "i < ?n" "j < ?n"
    then have "\<not> inside ?fb 8294400 (bmp + of_nat (k * ?n + j))" using src [OF kn] by blast
    moreover have "c + i < 8294400" using c(1) \<open>i < ?n\<close> by linarith
    then have "inside ?fb 8294400 (?fb + of_nat (c + i))" by (rule inside_index) simp
    ultimately show "?fb + of_nat c + of_nat i \<noteq> bmp + of_nat (k * ?n) + of_nat j" by (auto simp: add.assoc)
  qed
  note off = inside_offset [OF c(2), of ?fb a]
  note nxt = shown_next [OF w h, of k "unat (a - ?fb)", folded c_def]
  show ?case
  proof (cases "inside (?fb + of_nat c) ?n a")
    case True
    let ?j = "unat (a - ?fb) - c"
    have j: "?j < ?n" "a - (?fb + of_nat c) = of_nat ?j" using True off by (auto simp: of_nat_diff)
    let ?s = "bmp + of_nat (k * ?n + ?j)"
    have out: "\<not> inside ?fb 8294400 ?s" by (rule src [OF kn [OF j(1)]])
    have "shown_byte w h k (unat (?s - ?fb)) = None"
      using out shown_bound(1) [OF w h, of k] Suc.prems unfolding inside_def by (metis Suc_leD not_None_eq)
    then have m: "?m ?s = m ?s" using Suc by simp
    have s: "bmp + of_nat (k * ?n) + (a - (?fb + of_nat c)) = ?s" unfolding j(2) by simp
    have sh: "shown_byte w h (Suc k) (unat (a - ?fb)) = Some (k * ?n + ?j)"
      using nxt Suc.prems unfolding if_P [OF True [unfolded off]] by simp
    have "fold (\<lambda>y. copy_row qemu bmp (int w) (int h) (int y)) [0..<Suc k] m a = copy_row qemu bmp (int w) (int h) (int k) ?m a" by simp
    also have "\<dots> = m ?s" using row unfolding if_P [OF True] s m .
    finally show ?thesis unfolding sh by (simp only: option.case)
  next
    case False
    then have "shown_byte w h (Suc k) (unat (a - ?fb)) = shown_byte w h k (unat (a - ?fb))"
      using nxt Suc.prems unfolding off by (simp only: if_not_P if_False Suc_le_eq)
    then show ?thesis using row False Suc by simp
  qed
qed

text \<open>Nothing bounds the size: an image of 1082 lines starts one line before the frame buffer.\<close>

lemma display_before_buffer:
  fixes qemu :: bool
  defines "d \<equiv> va (FB_BASE qemu) - 7680"
  assumes "disjoint_ranges bmp d 7680" "inside d 7680 a"
  shows "copy_row qemu bmp 1920 1082 0 m a = m (bmp + (a - d))"
proof -
  have "start_x 1920 = 0" "start_y 1082 = - 1" by (simp_all add: start_x_def start_y_def FB_WIDTH_def FB_HEIGHT_def)
  then have "va (FB_BASE qemu) + of_int (4 * ((start_y 1082 + 0) * FB_WIDTH + start_x 1920)) = d"
    by (simp add: d_def FB_WIDTH_def)
  moreover have "unat (of_int (4 * 1920) :: u32) = 7680" by simp
  ultimately show ?thesis using memcpy_range [OF _ assms(2), of m a] assms(3) by (simp add: copy_row_def)
qed

lemma video_bswap32_same: "video_bswap32 x = bswap_32 x"
  by (simp add: video_bswap32_def bswap_32_def)

subsection \<open>Properties\<close>

text \<open>C39: an image of at most the size of the screen, outside the frame buffer, is shown in the middle: byte \<open>b\<close>
  of pixel \<open>(x, y)\<close> of the image appears at column \<open>x + (1920 - w) div 2\<close> of line \<open>y + (1080 - h) div 2\<close>,
  and no other byte of memory changes.\<close>

theorem video_bmp_display_correct:
  fixes qemu :: bool and w h :: nat
  defines "pixel \<equiv> \<lambda>x y b. va (FB_BASE qemu) + of_nat (4 * (((1080 - h) div 2 + y) * 1920 + (1920 - w) div 2 + x) + b)"
  assumes "w \<le> 1920" "h \<le> 1080"
    and "\<And>i. i < 4 * w * h \<Longrightarrow> \<not> inside (va (FB_BASE qemu)) (4 * 1920 * 1080) (bmp + of_nat i)"
  shows "(\<forall>x<w. \<forall>y<h. \<forall>b<4. video_bmp_display qemu bmp (int w) (int h) m (pixel x y b) = m (bmp + of_nat (4 * (y * w + x) + b))) \<and>
    (\<forall>a. (\<exists>x<w. \<exists>y<h. \<exists>b<4. a = pixel x y b) \<or> video_bmp_display qemu bmp (int w) (int h) m a = m a)"
proof -
  let ?fb = "va (FB_BASE qemu)" and ?top = "(1080 - h) div 2" and ?left = "(1920 - w) div 2"
  let ?m = "video_bmp_display qemu bmp (int w) (int h) m"
  have src: "\<not> inside ?fb 8294400 (bmp + of_nat i)" if "i < 4 * w * h" for i using assms(4) [OF that] by simp
  have shown: "?m a = (case shown_byte w h h (unat (a - ?fb)) of Some i \<Rightarrow> m (bmp + of_nat i) | None \<Rightarrow> m a)" for a
    unfolding video_bmp_display_def using display_rows [OF assms(2,3) le_refl src] by simp
  have "?m (pixel x y b) = m (bmp + of_nat (4 * (y * w + x) + b))" if xyb: "x < w" "y < h" "b < 4" for x y b
  proof -
    define col where "col = 4 * ?left + (4 * x + b)"
    have col: "col < 7680" "col < 4 * ?left + 4 * w" using xyb assms(2) unfolding col_def by linarith+
    have d: "4 * ((?top + y) * 1920 + ?left + x) + b = (?top + y) * 7680 + col" by (simp add: col_def)
    have "?top + y < 1080" using xyb(2) assms(3) by linarith
    then have "(?top + y) * 7680 + col < 2 ^ 64" using col(1) by simp
    then have u: "unat (pixel x y b - ?fb) = (?top + y) * 7680 + col"
      unfolding pixel_def d by (simp only: add_diff_cancel_left' unat_of_nat_small)
    have dm: "(k * 7680 + col) div 7680 = k" "(k * 7680 + col) mod 7680 = col" for k using col(1) by simp_all
    have "shown_byte w h h (unat (pixel x y b - ?fb)) = Some (y * (4 * w) + (4 * x + b))"
      unfolding u shown_byte_def shown_at_Some dm using xyb(2) col(2) by (simp add: col_def)
    moreover have "y * (4 * w) + (4 * x + b) = 4 * (y * w + x) + b" by simp
    ultimately show ?thesis using shown by simp
  qed
  moreover have "\<exists>x<w. \<exists>y<h. \<exists>b<4. a = pixel x y b" if ne: "?m a \<noteq> m a" for a
  proof -
    define d where "d = unat (a - ?fb)"
    obtain i where "shown_byte w h h d = Some i" using ne shown [of a] unfolding d_def by (auto split: option.splits)
    then have r: "?top \<le> d div 7680" "d div 7680 < ?top + h" "4 * ?left \<le> d mod 7680" "d mod 7680 < 4 * ?left + 4 * w"
      unfolding shown_byte_def shown_at_Some by blast+
    obtain y where y: "d div 7680 = ?top + y" using r(1) by (auto simp: le_iff_add)
    obtain k where k: "d mod 7680 = 4 * ?left + k" using r(3) by (auto simp: le_iff_add)
    have "d = d div 7680 * 7680 + d mod 7680" by simp
    then have "d = (?top + y) * 7680 + (4 * ?left + k)" by (simp only: y k)
    moreover have "k = 4 * (k div 4) + k mod 4" by simp
    ultimately have "d = (?top + y) * 7680 + (4 * ?left + (4 * (k div 4) + k mod 4))" by simp
    moreover have "(u * 7680 + (4 * l + (4 * p + q))) = 4 * (u * 1920 + l + p) + q" for u l p q :: nat by simp
    ultimately have "d = 4 * ((?top + y) * 1920 + ?left + k div 4) + k mod 4" by metis
    moreover have "a = ?fb + of_nat d" by (simp add: d_def)
    ultimately have "a = pixel (k div 4) y (k mod 4)" unfolding pixel_def by metis
    moreover have "k < 4 * w" "y < h" using r(2,4) unfolding y k by simp_all
    then have "k div 4 < w" "y < h" "k mod 4 < 4" by (simp_all add: less_mult_imp_div_less mult.commute)
    ultimately show ?thesis by blast
  qed
  ultimately show ?thesis by blast
qed

theorem video_bmp_display_correct_witness:
  "video_bmp_display True 0x1000 2 1 (\<lambda>a. if a = 0x1004 then 9 else 0) (va 0x87000000 + of_nat (4 * (539 * 1920 + 959 + 1))) = 9"
proof -
  have "\<not> inside (va (FB_BASE True)) (4 * 1920 * 1080) (0x1000 + of_nat i)" if "i < 4 * 2 * 1" for i :: nat
  proof (rule below_outside)
    have "unat (0x1000 + of_nat i :: u64) = 0x1000 + i" using that by (simp add: unat_word_ariths unat_of_nat_small)
    then show "0x1000 + of_nat i < va (FB_BASE True)" using that by (simp add: word_less_nat_alt va_def FB_BASE_def)
  qed (simp add: va_def FB_BASE_def)
  then have "\<forall>x<2. \<forall>y<1. \<forall>b<4. video_bmp_display True 0x1000 (int 2) (int 1) (\<lambda>a. if a = 0x1004 then 9 else 0)
      (va (FB_BASE True) + of_nat (4 * (((1080 - 1) div 2 + y) * 1920 + (1920 - 2) div 2 + x) + b)) =
      (if 0x1000 + of_nat (4 * (y * 2 + x) + b) = (0x1004 :: u64) then 9 else 0)"
    by (intro video_bmp_display_correct [THEN conjunct1]) simp_all
  from this [rule_format, of 1 0 0] show ?thesis by (simp add: FB_BASE_def)
qed

end
