(* ===== verification/Plic.thy ===== *)
theory Plic
  imports Trap
begin

text \<open>
  The interrupt controller, \<^verbatim>\<open>kernel/src/plic.c\<close>: register addresses, the routing of the UART's
  interrupt to the supervisor context of the boot hart, and the claim register, whose reads have
  side effects in the device and whose answers are therefore a parameter.
\<close>

definition PLIC_BASE :: "bool \<Rightarrow> u64" where
  "PLIC_BASE qemu = (if qemu then 0x0c000000 else 0xe0000000) + PAGE_OFFSET"

definition PLIC_PRIORITY :: "bool \<Rightarrow> int \<Rightarrow> u64" where "PLIC_PRIORITY qemu irq = PLIC_BASE qemu + of_int (irq * 4)"
definition PLIC_ENABLE :: "bool \<Rightarrow> int \<Rightarrow> u64" where "PLIC_ENABLE qemu ctx = PLIC_BASE qemu + 0x2000 + of_int (ctx * 0x80)"
definition PLIC_THRESHOLD :: "bool \<Rightarrow> int \<Rightarrow> u64" where
  "PLIC_THRESHOLD qemu ctx = PLIC_BASE qemu + 0x200000 + of_int (ctx * 0x1000)"
definition PLIC_CLAIM :: "bool \<Rightarrow> int \<Rightarrow> u64" where "PLIC_CLAIM qemu ctx = PLIC_BASE qemu + 0x200004 + of_int (ctx * 0x1000)"

definition get_current_s_context :: "int \<Rightarrow> int" where "get_current_s_context boot_hart_id = 2 * boot_hart_id + 1"

definition plic_init :: "bool \<Rightarrow> int \<Rightarrow> (u64 \<Rightarrow> u32) \<Rightarrow> (u64 \<Rightarrow> u32)" where
  "plic_init qemu boot_hart_id r =
     (let ctx = get_current_s_context boot_hart_id; irq = UART0_IRQ qemu;
          r1 = r(PLIC_PRIORITY qemu irq := 1);
          enable_reg = PLIC_ENABLE qemu ctx + of_int (irq div 32 * 4);
          enable_bits = r1 enable_reg OR push_bit (nat (irq mod 32)) 1;
          r2 = r1(enable_reg := enable_bits)
      in r2(PLIC_THRESHOLD qemu ctx := 0))"

definition plic_claim :: "(u64 \<Rightarrow> 's \<Rightarrow> u32 \<times> 's) \<Rightarrow> bool \<Rightarrow> int \<Rightarrow> 's \<Rightarrow> int \<times> 's" where
  "plic_claim read32 qemu boot_hart_id s =
     (let (w, s1) = read32 (PLIC_CLAIM qemu (get_current_s_context boot_hart_id)) s in (sint w, s1))"

definition plic_complete :: "(u64 \<Rightarrow> u32 \<Rightarrow> 's \<Rightarrow> 's) \<Rightarrow> bool \<Rightarrow> int \<Rightarrow> int \<Rightarrow> 's \<Rightarrow> 's" where
  "plic_complete write32 qemu boot_hart_id irq s =
     write32 (PLIC_CLAIM qemu (get_current_s_context boot_hart_id)) (of_int irq) s"

subsection \<open>Registers\<close>

text \<open>The offset of the enable word, and of the other two registers, from the base.\<close>

lemma plic_offsets:
  "PLIC_PRIORITY qemu (UART0_IRQ qemu) = PLIC_BASE qemu + of_nat (if qemu then 40 else 168)"
  "PLIC_ENABLE qemu (get_current_s_context (int h)) + of_int (UART0_IRQ qemu div 32 * 4) =
     PLIC_BASE qemu + of_nat (0x2080 + h * 0x100 + (if qemu then 0 else 4))"
  "PLIC_THRESHOLD qemu (get_current_s_context (int h)) = PLIC_BASE qemu + of_nat (0x201000 + h * 0x2000)"
  by (simp_all add: PLIC_PRIORITY_def PLIC_ENABLE_def PLIC_THRESHOLD_def UART0_IRQ_def get_current_s_context_def algebra_simps)

lemma plic_apart:
  "a < 2 ^ 64 \<Longrightarrow> b < 2 ^ 64 \<Longrightarrow> PLIC_BASE qemu + of_nat a = PLIC_BASE qemu + of_nat b \<longleftrightarrow> a = b"
  by (simp add: of_nat_u64_inj)

text \<open>\<^verbatim>\<open>plic_init\<close> gives the UART's interrupt priority 1, enables it for the supervisor context of the boot
  hart, keeping the other bits of that enable word, lowers that context's threshold to 0, and writes no other
  register, so that no other context is affected.\<close>

theorem plic_init_correct:
  fixes h :: nat and qemu :: bool
  assumes "h < 7936"
  defines "ctx \<equiv> get_current_s_context (int h)"
  defines "enable \<equiv> PLIC_ENABLE qemu ctx + of_int (UART0_IRQ qemu div 32 * 4)"
  shows "plic_init qemu (int h) r (PLIC_PRIORITY qemu (UART0_IRQ qemu)) = 1 \<and>
    (\<forall>n. bit (plic_init qemu (int h) r enable) n = (n = nat (UART0_IRQ qemu mod 32) \<or> bit (r enable) n)) \<and>
    plic_init qemu (int h) r (PLIC_THRESHOLD qemu ctx) = 0 \<and>
    (\<forall>a. a = PLIC_PRIORITY qemu (UART0_IRQ qemu) \<or> a = enable \<or> a = PLIC_THRESHOLD qemu ctx \<or>
       plic_init qemu (int h) r a = r a)"
proof -
  let ?e = "0x2080 + h * 0x100 + (if qemu then 0 else 4)" and ?p = "if qemu then 40 else 168 :: nat" and ?t = "0x201000 + h * 0x2000"
  have b: "?p < 2 ^ 64" "?e < 2 ^ 64" "?t < 2 ^ 64" "?p \<noteq> ?e" "?p \<noteq> ?t" "?e \<noteq> ?t" using assms(1) by auto
  have ne: "enable \<noteq> PLIC_PRIORITY qemu (UART0_IRQ qemu)" "PLIC_THRESHOLD qemu ctx \<noteq> PLIC_PRIORITY qemu (UART0_IRQ qemu)"
    "PLIC_THRESHOLD qemu ctx \<noteq> enable"
    unfolding enable_def ctx_def plic_offsets using b by (simp_all only: plic_apart not_False_eq_True simp_thms)
  have n: "nat (UART0_IRQ qemu mod 32) < 32" by (simp add: UART0_IRQ_def)
  have "plic_init qemu (int h) r = r(PLIC_PRIORITY qemu (UART0_IRQ qemu) := 1,
      enable := r enable OR push_bit (nat (UART0_IRQ qemu mod 32)) 1, PLIC_THRESHOLD qemu ctx := 0)"
    using ne by (simp add: plic_init_def Let_def enable_def ctx_def)
  then show ?thesis using ne n by (auto simp: bit_simps)
qed

end
