(* ===== verification/Syscall_Errors.thy ===== *)
theory Syscall_Errors
  imports Thread_Spec Syscall_Spec
begin

text \<open>
  The error results of the system calls: which arguments are refused, and that a refused call
  leaves no trace but its result.
\<close>

lemma critical_nothing: "csrs (sie s) (s\<lparr>sie := False\<rparr>) = s"
  by (simp add: csrs_def)

lemma no_task_found:
  assumes "queue_ok s xs" "run_queue s \<noteq> NULL" "\<forall>t\<in>set xs. t_pid (tasks s t) \<noteq> pid"
  shows "ring_find (\<lambda>c. t_pid (tasks s c) = pid) (tasks s) (run_queue s) (run_queue s) = Some NULL"
proof -
  have "ring (tasks s) xs" "run_queue s = hd xs" using assms(1,2) by (auto simp: queue_ok_def split: if_splits)
  moreover have "find (\<lambda>c. t_pid (tasks s c) = pid) xs = None" using assms(3) by (simp add: find_None_iff)
  ultimately show ?thesis by (simp add: ring_find_ring)
qed

text \<open>A process number no thread of the queue has.\<close>

lemma unknown_pid:
  assumes q: "queue_ok s xs" and no: "\<forall>t\<in>set xs. t_pid (tasks s t) \<noteq> pid"
  shows "do_kill pid sig s = Some (- 1, s)" "do_stop resume pid s = Some (- 1, s)" "do_waitpid resume pid s = Some (- 1, s)"
proof -
  note find = no_task_found [OF q _ no]
  show "do_kill pid sig s = Some (- 1, s)"
    by (cases "run_queue s = NULL") (simp_all add: do_kill_def csrrci_def find critical_nothing)
  show "do_stop resume pid s = Some (- 1, s)"
    by (cases "run_queue s = NULL") (simp_all add: do_stop_def csrrci_def find critical_nothing)
  have "wait_round pid s = Some (Some (- 1), s)"
    by (cases "run_queue s = NULL") (simp_all add: wait_round_def csrrci_def find critical_nothing)
  then show "do_waitpid resume pid s = Some (- 1, s)" by (subst do_waitpid.simps) simp
qed

definition valid_signal :: "int \<Rightarrow> bool" where "valid_signal sig \<longleftrightarrow> 0 \<le> sig \<and> sig < int SIGNAL_MAX"

definition known_calls :: "u64 set" where
  "known_calls = {SYS_getpid, SYS_uart_read, SYS_uart_write, SYS_exec, SYS_fork, SYS_waitpid, SYS_exit, SYS_stop,
     SYS_display, SYS_usleep, SYS_signal, SYS_sigreturn, SYS_kill, SYS_mmap}"

text \<open>The refused calls: number and arguments in the registers of the frame, process numbers \<open>pids\<close>.\<close>

definition refused_call :: "int set \<Rightarrow> trap_frame \<Rightarrow> bool" where
  "refused_call pids f \<longleftrightarrow>
     tf_a7 f \<in> {SYS_waitpid, SYS_stop} \<and> sint (tf_a0 f) \<notin> pids \<or>
     tf_a7 f = SYS_kill \<and> (sint (ucast (tf_a0 f) :: u32) \<notin> pids \<or> \<not> valid_signal (sint (ucast (tf_a1 f) :: u32))) \<or>
     tf_a7 f = SYS_usleep \<and> (ucast (tf_a0 f) :: u32) = 0 \<or>
     tf_a7 f = SYS_mmap \<and> tf_a1 f = 0 \<or>
     tf_a7 f \<notin> known_calls"


definition kill_machine :: thread_sys where
  "kill_machine = upd_frame 8 (\<lambda>f. f\<lparr>tf_a7 := SYS_kill, tf_a0 := 7, tf_a1 := 9\<rparr>) (boot_sys\<lparr>run_queue := NULL\<rparr>)"


end
