(* ===== verification/Heap_Steps.thy ===== *)
theory Heap_Steps
  imports Process_Spec
begin

text \<open>
  Sequences of allocations: what a step of a routine may do to the heap, so that the routine's
  effect follows by composing its steps. A whole page is a frame the buddy allocator handed out
  on its own, outside the pools.
\<close>

definition whole_page :: "'a kmalloc_state_scheme \<Rightarrow> u64 \<Rightarrow> bool" where
  "whole_page s p \<longleftrightarrow> (\<exists>b. p = idx_to_addr s b \<and> owned s b 0 \<and> page_pool_idx s b = - 1)"

definition keeps_whole :: "u64 set \<Rightarrow> 'a kmalloc_state_scheme \<Rightarrow> 'a kmalloc_state_scheme \<Rightarrow> bool" where
  "keeps_whole T s s' \<longleftrightarrow> (\<forall>p. whole_page s p \<longrightarrow> whole_page s' p) \<and>
     (\<forall>p c. whole_page s p \<and> p \<notin> T \<and> in_page p c \<longrightarrow> mem s' c = mem s c)"

text \<open>The step takes at most \<open>n\<close> frames, makes the objects \<open>P\<close> and writes no whole page but those of \<open>T\<close>.\<close>

definition heap_step ::
  "nat \<Rightarrow> u64 set \<Rightarrow> u64 set \<Rightarrow> 'a kmalloc_state_scheme \<Rightarrow> 'a kmalloc_state_scheme \<Rightarrow> bool" where
  "heap_step n P T s s' \<longleftrightarrow> kmalloc_inv s' \<and> (\<forall>p. owns_object s p \<longrightarrow> owns_object s' p) \<and>
     (\<forall>p\<in>P. owns_object s' p \<and> \<not> owns_object s p) \<and> card (free_frames s) \<le> card (free_frames s') + n \<and>
     address_map s' = address_map s \<and> keeps_whole T s s'"

lemma heap_step_trans:
  assumes "heap_step n P T s s1" "heap_step m Q U s1 s2"
  shows "heap_step (n + m) (P \<union> Q) (T \<union> U) s s2" "P \<inter> Q = {}"
  using assms unfolding heap_step_def keeps_whole_def by (auto 0 3)

lemma whole_page_own: "whole_page s p \<Longrightarrow> own_page s p"
  by (auto simp: whole_page_def own_page_def)

lemma whole_page_object: "kmalloc_inv s \<Longrightarrow> whole_page s p \<Longrightarrow> owns_object s p"
  unfolding kmalloc_inv_def owns_object_def live_def whole_page_def by blast

text \<open>A page made by the step itself may be written.\<close>

lemma heap_step_new:
  assumes "kmalloc_inv s" "heap_step n P (insert q T) s s'" "q \<in> P"
  shows "heap_step n P T s s'"
proof -
  have "\<not> whole_page s q" using assms whole_page_object [OF assms(1), of q] by (auto simp: heap_step_def)
  then show ?thesis using assms(2) unfolding heap_step_def keeps_whole_def by (metis insert_iff)
qed

lemma heap_step_view:
  fixes s s' s1 s1' :: "'a kmalloc_state_scheme"
  assumes "kmalloc_state.truncate s1 = kmalloc_state.truncate s" "kmalloc_state.truncate s1' = kmalloc_state.truncate s'"
  shows "heap_step n P T s1 s1' = heap_step n P T s s'"
  using heap_view [OF assms(1)] heap_view [OF assms(2)] kmalloc_view [OF assms(1)] kmalloc_view [OF assms(2)]
  by (simp add: heap_step_def keeps_whole_def whole_page_def)

lemma whole_page_view:
  fixes s s1 :: "'a kmalloc_state_scheme"
  shows "kmalloc_state.truncate s1 = kmalloc_state.truncate s \<Longrightarrow> whole_page s1 = whole_page s"
  using heap_view [of s1 s] by (simp add: fun_eq_iff whole_page_def)

lemma heap_step_refl: "kmalloc_inv s \<Longrightarrow> heap_step 0 {} {} s s"
  by (simp add: heap_step_def keeps_whole_def)

lemma card_less_one: "card A \<le> card (A - {b}) + 1"
  by (cases "finite A"; cases "b \<in> A") (auto simp: card_Diff_singleton_if)

subsection \<open>A small object\<close>

lemma free_frames_unused:
  assumes rep: "kmalloc_rep ch s" and b: "b \<in> free_frames s"
  shows "page_pool_idx s b = - 1" "\<not> owned s b k"
proof -
  show u: "\<not> owned s b k" for k using owned_not_free [OF rep_D(1) [OF rep], of b k] b block_head [of b k] by blast
  show "page_pool_idx s b = - 1"
    using rep_D(4) [OF rep] b u by (fastforce simp: pool_pages_def free_frames_def)
qed

lemma push_chunks:
  fixes s :: "'a kmalloc_state_scheme"
  shows "free_frames (fold (\<lambda>j. push_chunk i (g j)) js s) = free_frames s \<and>
    address_map (fold (\<lambda>j. push_chunk i (g j)) js s) = address_map s \<and>
    (c \<notin> g ` set js \<longrightarrow> mem (fold (\<lambda>j. push_chunk i (g j)) js s) c = mem s c)"
proof (induction js arbitrary: s)
  case (Cons j js)
  have "free_frames (push_chunk i (g j) s) = free_frames s" "address_map (push_chunk i (g j) s) = address_map s"
    by (simp_all add: push_chunk_def free_frames_def address_map_def)
  then show ?case using Cons [of "push_chunk i (g j) s"] by (auto simp: push_chunk_def)
qed simp

lemma pop_chunk_frame:
  fixes s :: "'a kmalloc_state_scheme"
  shows "free_frames (snd (pop_chunk i s)) = free_frames s" "address_map (snd (pop_chunk i s)) = address_map s"
    "mem (snd (pop_chunk i s)) = mem s"
  by (simp_all add: pop_chunk_def Let_def free_frames_def address_map_def)

text \<open>What a small request does to frames and pages.\<close>

lemma kmalloc_small_frame:
  assumes rep: "kmalloc_rep ch s" and i: "i < NUM_POOLS"
  defines "s' \<equiv> snd (kmalloc_small i s)"
  shows "card (free_frames s) \<le> card (free_frames s') + 1 \<and> address_map s' = address_map s \<and>
    (\<forall>p c. whole_page s p \<and> in_page p c \<longrightarrow> mem s' c = mem s c)"
proof (cases "ch i = [] \<and> can_serve s PAGE_SIZE")
  case False
  then show ?thesis
    using kmalloc_small_fail [OF rep i] pool_empty [OF rep i]
    by (cases "ch i = []") (simp_all add: s'_def kmalloc_small_def pop_chunk_frame)
next
  case True
  note inv = rep_D(1) [OF rep] and g = rep_D(2) [OF rep]
  let ?s1 = "snd (buddy_alloc PAGE_SIZE s)"
  obtain b where b: "fst (buddy_alloc PAGE_SIZE s) = idx_to_addr s b" "alloc_effect s b 0 ?s1"
    using buddy_alloc_cases [OF inv, of PAGE_SIZE] True by (auto simp: order_of_page)
  note map = address_map_eqD [OF address_map_alloc [of PAGE_SIZE s]]
  have f: "frames_of b 0 = {b}" by (auto simp: frames_of_def)
  have bf: "b \<in> free_frames s" "free_frames ?s1 = free_frames s - {b}" using b(2) by (simp_all add: alloc_effect_def f)
  then have bn: "b < buddy_total_pages s" by (simp add: free_frames_def)
  let ?s2 = "?s1\<lparr>page_pool_idx := (page_pool_idx ?s1)(b := int i)\<rparr>"
  let ?g = "slot ?s2 b i" and ?n = "4096 div psize i"
  have idx: "addr_to_page_idx ?s1 (idx_to_addr s b) = b"
    using addr_to_idx_inverse [of b s] bn g by (simp add: addr_to_page_idx_def addr_to_idx_def alloc_base geometry_def)
  have cs: "chunk_size (pools ?s2 i) = pool_sizes ! i" using rep_D(5) [OF rep_alloc [OF rep]] i by (simp add: pools_ok_def)
  have base: "idx_to_addr s b = idx_to_addr ?s2 b" by (simp add: map)
  have s': "s' = snd (pop_chunk i (fold (\<lambda>j. push_chunk i (?g j)) [0..<?n] ?s2))"
    using True pool_empty [OF rep i] b(1) addr_in_range(1) [OF g bn] idx slice_page_eq [OF i cs, of b]
    unfolding s'_def kmalloc_small_def by (simp add: case_prod_unfold Let_def base)
  have "mem s' c = mem s c" if p: "whole_page s p" "in_page p c" for p c
  proof -
    have pi: "page_inv s" by (rule rep_page_inv [OF rep])
    have own: "own_page s p" by (rule whole_page_own [OF p(1)])
    have "c \<notin> list_area s (free_frames s)" by (rule own_page_props(3) [OF pi own p(2)])
    then have m1: "mem ?s1 c = mem s c" using b(2) by (simp add: alloc_effect_def)
    have "c \<notin> ?g ` set [0..<?n]"
    proof
      assume "c \<in> ?g ` set [0..<?n]"
      then obtain j where j: "j < ?n" "c = ?g j" by auto
      have "j < 4096 div k \<Longrightarrow> 0 < k \<Longrightarrow> j * k < 4096" for k :: nat
        using less_eq_div_iff_mult_less_eq [of k "Suc j" 4096] by simp
      then have "j * psize i < 4096" using j(1) by simp
      then have "in_page (idx_to_addr s b) c"
        using slot_in_page [OF g bn] j(2) by (simp add: in_page_def slot_def map)
      then have "p = idx_to_addr s b"
        using in_page_unique [OF own_page_props(1) [OF pi own] frame_page(1) [OF pi bn] p(2)] by blast
      then obtain d where d: "idx_to_addr s d = idx_to_addr s b" "owned s d 0" using p(1) by (auto simp: whole_page_def)
      then have "d = b" using idx_eq_owned [OF inv d(2) bn] by simp
      then show False using free_frames_unused(2) [OF rep bf(1)] d(2) by simp
    qed
    then show ?thesis using m1 by (simp add: s' pop_chunk_frame push_chunks)
  qed
  moreover have "free_frames s' = free_frames s - {b}" using bf(2) by (simp add: s' pop_chunk_frame push_chunks)
  moreover have "address_map ?s2 = address_map ?s1" by (simp add: address_map_def)
  then have "address_map s' = address_map s"
    using address_map_alloc [of PAGE_SIZE s] by (simp add: s' pop_chunk_frame push_chunks)
  ultimately show ?thesis using card_less_one [of "free_frames s" b] by (metis (no_types))
qed

lemma kmalloc_small_step:
  assumes inv: "kmalloc_inv s" and sz: "sz \<noteq> 0" "sz \<le> 2048"
  defines "p \<equiv> fst (kmalloc sz s)" and "s' \<equiv> snd (kmalloc sz s)"
  shows "heap_step 1 (if p = NULL then {} else {p}) {} s s'" and "free_frames s \<noteq> {} \<Longrightarrow> p \<noteq> NULL"
proof -
  obtain ch where rep: "kmalloc_rep ch s" using inv by (auto simp: kmalloc_inv_def)
  obtain i where i: "find_pool sz = int i" "i < NUM_POOLS" using find_pool_small [OF sz(2)] by metis
  let ?s = "s\<lparr>sie := False\<rparr>"
  have eq: "s' = (snd (kmalloc_small i ?s))\<lparr>sie := sie s\<rparr>" by (simp add: s'_def kmalloc_eq(2) [OF rep sz(1) i(1)])
  have wp: "whole_page ?s = whole_page s" by (simp add: fun_eq_iff whole_page_def)
  note frame = kmalloc_small_frame [of ch ?s i, unfolded wp, OF _ i(2)]
  have f: "card (free_frames s) \<le> card (free_frames s') + 1" "address_map s' = address_map s"
    "whole_page s q \<Longrightarrow> in_page q c \<Longrightarrow> mem s' c = mem s c" for q c
    using frame rep by (simp_all add: eq)
  have "whole_page s' q" if q: "whole_page s q" for q
    using q owned_keeps_page [OF rep i(2,1) sz(1)] unfolding whole_page_def s'_def by metis
  then have k: "keeps_whole {} s s'" using f(3) unfolding keeps_whole_def by blast
  have "owns_object s' q" if "owns_object s q" for q
    using kheap.alloc_keeps [OF inv that] by (simp add: s'_def)
  moreover have "owns_object s' p \<and> \<not> owns_object s p" if "p \<noteq> NULL"
    using kheap.alloc_owns [OF inv, of sz] kheap.alloc_fresh [OF inv, of sz] that by (simp add: p_def s'_def)
  moreover have "kmalloc_inv s'" using kheap.alloc_inv [OF inv] by (simp add: s'_def)
  ultimately show "heap_step 1 (if p = NULL then {} else {p}) {} s s'"
    using f(1,2) k unfolding heap_step_def by simp
  show "p \<noteq> NULL" if room: "free_frames s \<noteq> {}"
  proof -
    have "can_serve s PAGE_SIZE" using page_served [OF rep_D(1) [OF rep]] room by simp
    then obtain ch' where e: "small_effect ch s i p ch' s'"
      using kmalloc_small_cases [OF rep sz(1) i] by (auto simp: p_def s'_def)
    then obtain d j where d: "d < buddy_total_pages s'" "p = slot s' d i j" "j * psize i < 4096" "kmalloc_rep ch' s'"
      by (auto simp: small_effect_def chunk_of_def)
    then show ?thesis
      using slot_in_page(1) [OF rep_D(2) [OF d(4)] d(1,3)] addr_in_range(1) [OF rep_D(2) [OF d(4)] d(1)]
      by (auto simp: word_unat_eq_iff)
  qed
qed

subsection \<open>A page\<close>

lemma alloc_page_step:
  assumes inv: "kmalloc_inv s" and room: "free_frames s \<noteq> {}"
  defines "p \<equiv> fst (alloc_page s)" and "s' \<equiv> snd (alloc_page s)"
  shows "heap_step 1 {p} {} s s'" "whole_page s' p" "p \<noteq> NULL"
    "\<And>c. in_page p c \<Longrightarrow> c AND 7 = 0 \<Longrightarrow> mem s' c = 0"
    "buddy_state.more s' = buddy_state.more s" "sie s' = sie s"
proof -
  obtain ch where rep: "kmalloc_rep ch s" using inv by (auto simp: kmalloc_inv_def)
  note pi = rep_page_inv [OF rep]
  obtain b where b: "p = idx_to_addr s b" "page_taken s b s'"
    using alloc_page_cases [OF pi] room by (auto simp: p_def s'_def)
  have bf: "b \<in> free_frames s" and bo: "owned s' b 0" and am: "address_map s' = address_map s"
    and fr: "free_frames s' = free_frames s - {b}" and more: "buddy_state.more s' = buddy_state.more s"
    and own: "\<And>c k. owned s c k \<Longrightarrow> owned s' c k"
    using b(2) by (simp_all add: page_taken_def)
  note map = address_map_eqD [OF am] and pool = more_fields(2) [OF more]
  have rep': "kmalloc_rep ch s'"
    using keeps_rep [OF rep _ keeps_pages_taken [OF pi b(2)] _ am more] b(2) by (simp add: page_taken_def)
  have ck: "chunk_of s' = chunk_of s" by (rule chunk_of_map [OF am pool])
  have idx: "page_pool_idx s b = - 1" "\<not> owned s b k" for k using free_frames_unused [OF rep bf] by auto
  show w: "whole_page s' p" using bo idx(1) b(1) by (auto simp: whole_page_def map pool)
  have bn: "b < buddy_total_pages s" using bf by (simp add: free_frames_def)
  show "p \<noteq> NULL" using frame_page(2) [OF pi bn] b(1) by simp
  show "mem s' c = 0" if "in_page p c" "c AND 7 = 0" for c using b that by (simp add: page_taken_def)
  show "buddy_state.more s' = buddy_state.more s" "sie s' = sie s" using b(2) by (simp_all add: page_taken_def)
  have live: "live ch s' q" if "live ch s q" for q
    using that own unfolding live_def ck map pool by blast
  have "\<not> live ch s p"
    unfolding live_def
  proof (intro notI, elim disjE exE conjE)
    fix k assume k: "chunk_of s k p"
    have "addr_to_page_idx s (p AND NOT (PAGE_SIZE - 1)) = b"
      unfolding b(1) using bn addr_unat [OF rep_D(2) [OF rep], of b]
      by (intro page_idx_of [OF rep_D(2,3) [OF rep], where d = 0]) auto
    then show False using chunk_page(2) [OF rep k] idx(2) by simp
  next
    fix d k assume d: "p = idx_to_addr s d" "owned s d k"
    then have "d = b" using b(1) bn idx_eq_owned [OF rep_D(1) [OF rep] d(2)] by simp
    then show False using idx(2) d(2) by simp
  qed
  moreover have "live ch s' p" using w by (auto simp: whole_page_def live_def)
  moreover have "keeps_whole {} s s'"
    unfolding keeps_whole_def
  proof (intro conjI allI impI)
    show "whole_page s' q" if "whole_page s q" for q using that own by (auto simp: whole_page_def map pool)
    show "mem s' c = mem s c" if "whole_page s q \<and> q \<notin> {} \<and> in_page q c" for q c
      using page_taken_keeps(3) [OF pi b(2) whole_page_own] that by blast
  qed
  ultimately show "heap_step 1 {p} {} s s'"
    using rep rep' live am card_less_one [of "free_frames s" b]
    by (auto simp: heap_step_def kmalloc_inv_def owns_object_eq [OF rep] owns_object_eq [OF rep'] fr)
qed

text \<open>Writing a whole page.\<close>

lemma write_page_step:
  assumes inv: "kmalloc_inv s" and p: "whole_page s p" and m: "\<And>c. \<not> in_page p c \<Longrightarrow> m c = mem s c"
  shows "heap_step 0 {} {p} s (s\<lparr>mem := m\<rparr>)"
proof -
  obtain ch where rep: "kmalloc_rep ch s" using inv by (auto simp: kmalloc_inv_def)
  let ?s = "s\<lparr>mem := m\<rparr>"
  note pi = rep_page_inv [OF rep]
  obtain b where b: "p = idx_to_addr s b" "owned s b 0" "page_pool_idx s b = - 1" using p by (auto simp: whole_page_def)
  note own = whole_page_own [OF p]
  have other: "m c = mem s c" if "own_page s q" "q \<notin> {p}" "in_page q c" for q c
    using in_page_unique [OF own_page_props(1) [OF pi that(1)] own_page_props(1) [OF pi own] that(3)] that(2) m by blast
  have k: "keeps_pages {p} s ?s" by (rule keeps_pages_mem [OF other])
  have "buddy_inv ?s"
    by (rule buddy_inv_mem [OF rep_D(1) [OF rep]]) (use own_page_props(3) [OF pi own] m in blast)
  then have "page_inv ?s" using pi by (simp add: page_inv_def)
  moreover have "page_pool_idx s c = - 1" if "owned s c 0" "idx_to_addr s c \<in> {p}" for c
    using that b idx_eq_owned [OF rep_D(1) [OF rep] that(1) owned_index [OF b(2)]] by auto
  ultimately have rep': "kmalloc_rep ch ?s" using keeps_rep [OF rep _ k] by (simp add: address_map_def)
  have "live ch ?s = live ch s" by (simp add: fun_eq_iff live_def chunk_of_def slot_def owned_def)
  then have "owns_object ?s = owns_object s" by (simp add: fun_eq_iff owns_object_eq [OF rep] owns_object_eq [OF rep'])
  moreover have "whole_page ?s = whole_page s" by (simp add: fun_eq_iff whole_page_def owned_def)
  moreover have "free_frames ?s = free_frames s" by (simp add: free_frames_def)
  moreover have "mem ?s c = mem s c" if "whole_page s q \<and> q \<notin> {p} \<and> in_page q c" for q c
    using other [of q c] whole_page_own [of s q] that by auto
  ultimately show ?thesis
    using rep' unfolding heap_step_def keeps_whole_def by (auto simp: kmalloc_inv_def address_map_def)
qed

lemma kmalloc_page_step:
  assumes inv: "kmalloc_inv s" and room: "free_frames s \<noteq> {}"
  defines "p \<equiv> fst (kmalloc STACK_SIZE s)" and "s' \<equiv> snd (kmalloc STACK_SIZE s)"
  shows "heap_step 1 {p} {} s s'" "whole_page s' p" "p \<noteq> NULL"
proof -
  obtain ch where rep: "kmalloc_rep ch s" using inv by (auto simp: kmalloc_inv_def)
  obtain b where b: "p = idx_to_addr s b" "heap_page ch s b s'"
    using kmalloc_page [OF rep room] by (auto simp: p_def s'_def)
  then have am: "address_map s' = address_map s" and bf: "b \<in> free_frames s" and more: "buddy_state.more s' = buddy_state.more s"
    and fr: "free_frames s' = free_frames s - {b}" and k: "keeps_pages {} s s'" and bo: "owned s' b 0" "page_pool_idx s' b = - 1"
    by (simp_all add: heap_page_def)
  note map = address_map_eqD [OF am] and pool = more_fields(2) [OF more]
  have rep': "kmalloc_rep ch s'" using b(2) by (simp add: heap_page_def)
  show "p \<noteq> NULL"
    using frame_page(2) [OF rep_page_inv [OF rep]] bf b(1) by (auto simp: free_frames_def)
  show w: "whole_page s' p" using bo b(1) by (auto simp: whole_page_def map)
  have "whole_page s' q \<and> (\<forall>c. in_page q c \<longrightarrow> mem s' c = mem s c)" if q: "whole_page s q" for q
  proof -
    obtain d where d: "q = idx_to_addr s d" "owned s d 0" "page_pool_idx s d = - 1" using q by (auto simp: whole_page_def)
    have own: "own_page s q" by (rule whole_page_own [OF q])
    then have "own_page s' q" and m: "\<forall>c. in_page q c \<longrightarrow> mem s' c = mem s c" using k by (simp_all add: keeps_pages_def)
    then obtain e where e: "q = idx_to_addr s' e" "owned s' e 0" by (auto simp: own_page_def)
    have same: "idx_to_addr s' e = idx_to_addr s' d" unfolding map using e(1) [unfolded map] d(1) by (rule subst)
    have "d < buddy_total_pages s'" unfolding map by (rule owned_index [OF d(2)])
    then have "e = d" using idx_eq_owned [OF rep_D(1) [OF rep'] e(2) _ same] by blast
    then have "q = idx_to_addr s' d" "owned s' d 0" "page_pool_idx s' d = - 1" using e d(3) pool by simp_all
    then have "whole_page s' q" unfolding whole_page_def by blast
    then show ?thesis using m by blast
  qed
  then have "keeps_whole {} s s'" unfolding keeps_whole_def by blast
  moreover have "kmalloc_inv s'" using rep' by (auto simp: kmalloc_inv_def)
  moreover have "owns_object s' q" if "owns_object s q" for q
    using kheap.alloc_keeps [OF inv that] by (simp add: s'_def)
  moreover have "owns_object s' p \<and> \<not> owns_object s p"
    using kheap.alloc_owns [OF inv, of STACK_SIZE] kheap.alloc_fresh [OF inv, of STACK_SIZE] \<open>p \<noteq> NULL\<close> by (simp add: p_def s'_def)
  ultimately show "heap_step 1 {p} {} s s'"
    using am card_less_one [of "free_frames s" b] by (simp add: heap_step_def fr)
qed

end
