(* ===== verification/Boot_Main.thy ===== *)
theory Boot_Main
  imports Process Dtb Video Plic Uart
begin

text \<open>
  The start of the kernel: \<^verbatim>\<open>main\<close> of \<^verbatim>\<open>kernel/src/main.c\<close>, entered in the high half with the page
  tables of \<^verbatim>\<open>setup_vm\<close> in use, up to the idle loop it ends in; \<^verbatim>\<open>core_timer_enable\<close> of \<^verbatim>\<open>timer.c\<close> and
  \<^verbatim>\<open>trap_init\<close> of \<^verbatim>\<open>trap.c\<close>. The state adds the globals, the control registers and the devices \<^verbatim>\<open>main\<close>
  sets up. Console output is not modelled here, and interrupts do not arrive before the idle loop.
\<close>

record 'd kernel_sys = thread_sys +
  boot_hart_id :: int
  dtb_addr :: u64
  cpio_addr :: u64
  serial :: uart_state
  sie_csr :: u64
  sum_bit :: bool
  stvec :: u64
  sscratch :: u64
  g_user_base :: u64
  plic_regs :: "u64 \<Rightarrow> u32"
  fw_device :: 'd

text \<open>The build, the linker's symbols, the addresses of functions, and the display device.\<close>

record 'd boot_env =
  be_qemu :: bool
  be_start :: u64
  be_end :: u64
  be_trap_entry :: u64
  be_preempt_callback :: u64
  be_idle :: u64
  be_shell :: u64
  be_fw :: "'d fw_env"

definition SIE_STIE :: u64 where "SIE_STIE = push_bit 5 1"
definition SIE_SEIE :: u64 where "SIE_SEIE = push_bit 9 1"

definition trap_init :: "u64 \<Rightarrow> ('d, 'a) kernel_sys_scheme \<Rightarrow> ('d, 'a) kernel_sys_scheme" where
  "trap_init trap_entry s = s\<lparr>stvec := trap_entry, sscratch := 0\<rparr>"

definition trap_set_user_base :: "u64 \<Rightarrow> ('d, 'a) kernel_sys_scheme \<Rightarrow> ('d, 'a) kernel_sys_scheme" where
  "trap_set_user_base base s = s\<lparr>g_user_base := base\<rparr>"

definition core_timer_enable :: "bool \<Rightarrow> u64 \<Rightarrow> ('d, 'a) kernel_sys_scheme \<Rightarrow> ('d, 'a) kernel_sys_scheme" where
  "core_timer_enable qemu callback s =
     add_timer_ticks callback NULL (SYS_CLOCK_FREQ qemu div 32) (s\<lparr>sie_csr := sie_csr s OR SIE_STIE\<rparr>)"

subsection \<open>What \<^verbatim>\<open>buddy_init\<close> reads\<close>

text \<open>The regions \<^verbatim>\<open>dtb_find_and_reserve_memory\<close> passes to \<^verbatim>\<open>memory_reserve\<close>, and the rest of the
  information, from the tree in memory.\<close>

definition empty_regions :: buddy_state where
  "empty_regions = \<lparr>sie = False, mem = (\<lambda>_. 0), buddy_base_addr = 0, buddy_end_addr = 0, buddy_total_pages = 0,
     frame_array = (\<lambda>_. 0), ref_count = (\<lambda>_. 0), frame_array_ptr = NULL, ref_count_ptr = NULL, free_list = NULL,
     reserved_regions = []\<rparr>"

definition dtb_reserved :: "bytes \<Rightarrow> u64 \<Rightarrow> (u64 \<times> u64) list option" where
  "dtb_reserved m dtb =
     map_option (\<lambda>t. map (\<lambda>r. (rg_start r, rg_end r - rg_start r)) (reserved_regions t))
       (dtb_find_and_reserve_memory m dtb empty_regions)"

definition read_boot_info :: "('d, 'e) boot_env_scheme \<Rightarrow> bytes \<Rightarrow> u64 \<Rightarrow> u64 \<Rightarrow> boot_info option" where
  "read_boot_info env m dtb cpio =
     do {
       (start, sz) \<leftarrow> dtb_get_memory_region m dtb;
       regions \<leftarrow> dtb_reserved m dtb;
       Some \<lparr>bi_start = be_start env, bi_end = be_end env, bi_mem_start = start, bi_mem_size = sz,
             bi_dtb_addr = dtb, bi_dtb_totalsize = dtb_get_totalsize m dtb, bi_cpio_addr = cpio, bi_dtb_reserved = regions\<rparr>
     }"

subsection \<open>The steps of \<^verbatim>\<open>main\<close>\<close>

text \<open>Steps 1 to 3: the tree, the serial port's registers, the ram disk.\<close>

definition find_devices :: "int \<Rightarrow> u64 \<Rightarrow> ('d, 'a) kernel_sys_scheme \<Rightarrow> ('d, 'a) kernel_sys_scheme option" where
  "find_devices hart_id dtb_ptr s0 =
     (let s = s0\<lparr>boot_hart_id := hart_id, dtb_addr := va dtb_ptr\<rparr>; m = load8 (mem s)
      in do {
        serial_reg \<leftarrow> dtb_get_reg m (dtb_addr s) (bytes_of ''/soc/serial'');
        u_base \<leftarrow> (if serial_reg = 0 then dtb_get_reg m (dtb_addr s) (bytes_of ''/soc/uart'') else Some serial_reg);
        initrd \<leftarrow> dtb_load_initrd_addr m (dtb_addr s) (cpio_addr s);
        Some (s\<lparr>serial := uart_set_base (va u_base) (serial s),
                cpio_addr := (if initrd \<noteq> NULL then va initrd else initrd)\<rparr>)
      })"

text \<open>Steps 3.5 to 5: the display and the allocators.\<close>

definition init_memory :: "('d, 'e) boot_env_scheme \<Rightarrow> ('d, 'a) kernel_sys_scheme \<Rightarrow> ('d, 'a) kernel_sys_scheme option" where
  "init_memory env s0 =
     (let s1 = drop_identity_map s0
      in do {
        (found, (m, d), s2) \<leftarrow> video_init (be_qemu env) (be_fw env) (load8 (mem s1), fw_device s1) s1;
        let s3 = s2\<lparr>mem := with_bytes (\<lambda>_. m) (mem s2), fw_device := d\<rparr>;
        bi \<leftarrow> read_boot_info env (load8 (mem s3)) (dtb_addr s3) (cpio_addr s3);
        Some (kmalloc_init ((buddy_init (be_qemu env) bi s3)\<lparr>buddy_is_ready := True\<rparr>))
      })"

text \<open>Steps 6 to 9 and the first two threads; the calling context becomes the idle thread.\<close>

definition start_kernel :: "('d, 'e) boot_env_scheme \<Rightarrow> ('d, 'a) kernel_sys_scheme \<Rightarrow> ('d, 'a) kernel_sys_scheme" where
  "start_kernel env s0 =
     (let s1 = core_timer_enable (be_qemu env) (be_preempt_callback env) (trap_init (be_trap_entry env) s0);
          s2 = s1\<lparr>plic_regs := plic_init (be_qemu env) (boot_hart_id s1) (plic_regs s1), serial := uart_intr_enable (serial s1)\<rparr>;
          s3 = s2\<lparr>sie_csr := sie_csr s2 OR SIE_SEIE, sie := True, sum_bit := True\<rparr>;
          (idle_thread, s4) = thread_create (be_idle env) s3;
          (shell_thread, s5) = thread_create (be_shell env) (s4\<lparr>tp := idle_thread\<rparr>)
      in s5)"

definition kernel_main ::
  "('d, 'e) boot_env_scheme \<Rightarrow> int \<Rightarrow> u64 \<Rightarrow> ('d, 'a) kernel_sys_scheme \<Rightarrow> ('d, 'a) kernel_sys_scheme option" where
  "kernel_main env hart_id dtb_ptr s =
     do {
       s1 \<leftarrow> find_devices hart_id dtb_ptr s;
       s2 \<leftarrow> init_memory env s1;
       Some (start_kernel env s2)
     }"

end
