(* ===== verification/Creation_Spec.thy ===== *)
theory Creation_Spec
  imports Heap_Steps Boot_Main
begin

text \<open>
  Making a thread: \<^verbatim>\<open>thread_create\<close> takes a task structure, a page table and a stack from the
  allocators and links the task into the run queue. The kernel's own page table is a page of the
  kernel's image, which the buddy allocator holds as used.
\<close>

lemma thread_heap_fields:
  fixes s s' :: "'a thread_sys_scheme"
  assumes "kmalloc_state.more s' = kmalloc_state.more s"
  shows "tasks s' = tasks s" "pg_dir s' = pg_dir s" "nr_threads s' = nr_threads s" "run_queue s' = run_queue s"
    "tp s' = tp s" "timer_list s' = timer_list s" "sched_saved s' = sched_saved s" "thread_sys.more s' = thread_sys.more s"
  using assms by (cases s; cases s'; simp)+

lemma page_more: "buddy_state.more s' = buddy_state.more s \<Longrightarrow> kmalloc_state.more s' = kmalloc_state.more s"
  for s s' :: "'a kmalloc_state_scheme"
  by (cases s; cases s'; simp)

lemma copy_half_entry:
  fixes k n :: nat and m :: mem
  assumes "aligned_page pgd" "aligned_page pd" "pgd \<noteq> pd" "n \<le> 512"
  defines "m' \<equiv> fold (\<lambda>i m. m(entry_at pgd i := m (entry_at pd i))) [k..<n] m"
  shows "(\<forall>i<512. m' (entry_at pgd i) = (if k \<le> i \<and> i < n then m (entry_at pd i) else m (entry_at pgd i))) \<and>
    (\<forall>c. (\<forall>i<512. c \<noteq> entry_at pgd i) \<longrightarrow> m' c = m c)"
  using assms(4) unfolding m'_def
proof (induction n)
  case (Suc n)
  show ?case
  proof (cases "k \<le> n")
    case True
    define m1 where "m1 = fold (\<lambda>i m. m(entry_at pgd i := m (entry_at pd i))) [k..<n] m"
    have IH: "\<forall>i<512. m1 (entry_at pgd i) = (if k \<le> i \<and> i < n then m (entry_at pd i) else m (entry_at pgd i))"
      "\<forall>c. (\<forall>i<512. c \<noteq> entry_at pgd i) \<longrightarrow> m1 c = m c"
      using Suc.IH [folded m1_def] Suc.prems by simp_all
    have n: "n < 512" using Suc.prems by simp
    have "\<forall>i<512. entry_at pd n \<noteq> entry_at pgd i" using entry_eq [OF assms(1,2) _ n] assms(3) by metis
    then have src: "m1 (entry_at pd n) = m (entry_at pd n)" using IH(2) by blast
    have e: "entry_at pgd i = entry_at pgd n \<longleftrightarrow> i = n" if "i < 512" for i
      using entry_eq [OF assms(1,1) that n] by simp
    have step: "fold (\<lambda>i m. m(entry_at pgd i := m (entry_at pd i))) [k..<Suc n] m = m1(entry_at pgd n := m (entry_at pd n))"
      using True by (simp add: m1_def [symmetric] src del: fun_upd_apply)
    show ?thesis
      unfolding step using IH e n True by (auto simp: less_Suc_eq)
  qed auto
qed simp

text \<open>The task structure after its creation.\<close>

definition new_thread :: "u64 \<Rightarrow> int \<Rightarrow> task_struct \<Rightarrow> bool" where
  "new_thread threadfn pid x \<longleftrightarrow> t_pid x = pid \<and> t_ppid x = 0 \<and> t_state x = THREAD_RUNNING \<and> t_tf x = NULL \<and>
     th_ra (t_thread x) = threadfn \<and> th_sp (t_thread x) = t_stack x + STACK_SIZE \<and> t_vma_list x = NULL \<and>
     t_pending_signals x = 0 \<and> t_is_handling_signal x = 0 \<and> t_signal_stack x = NULL \<and>
     (\<forall>i<SIGNAL_MAX. t_signal_handlers x i = NULL)"

lemma thread_create_run:
  fixes s :: "'a thread_sys_scheme"
  assumes inv: "kmalloc_inv s" and room: "3 \<le> card (free_frames s)" and dir: "whole_page s (pg_dir s)"
  obtains t pgd stack s6 where "thread_create f s = (t, enqueue t s6)"
    "heap_step 3 {t, pgd, stack} {} s s6" "t \<noteq> NULL" "t \<noteq> pgd" "t \<noteq> stack" "pgd \<noteq> stack"
    "whole_page s6 pgd" "whole_page s6 stack" "t_pgd (tasks s6 t) = pgd" "t_stack (tasks s6 t) = stack"
    "new_thread f (nr_threads s) (tasks s6 t)" "nr_threads s6 = nr_threads s + 1" "pg_dir s6 = pg_dir s" "tp s6 = tp s"
    "\<forall>i<512. mem s6 (entry_at pgd i) = (if i < 256 then 0 else mem s (entry_at (pg_dir s) i))"
    "\<forall>x. x \<noteq> t \<longrightarrow> tasks s6 x = tasks s x" "run_queue s6 = run_queue s"
    "thread_sys.more s6 = thread_sys.more s" "timer_list s6 = timer_list s" "sie s6 = sie s"
proof -
  define t where "t = fst (kmalloc sizeof_task_struct s)"
  define s1 where "s1 = snd (kmalloc sizeof_task_struct s)"
  have room1: "free_frames s \<noteq> {}" using room by auto
  note a = kmalloc_small_step [OF inv, of sizeof_task_struct, folded t_def s1_def]
  have t: "t \<noteq> NULL" using a(2) room1 by (simp add: sizeof_task_struct_def)
  then have A: "heap_step 1 {t} {} s s1" using a(1) by (simp add: sizeof_task_struct_def)
  note f1 = thread_heap_fields [OF kmalloc_more [of sizeof_task_struct s, folded s1_def]]
  have inv1: "kmalloc_inv s1" and room2: "2 \<le> card (free_frames s1)" using A room by (auto simp: heap_step_def)
  define pgd where "pgd = fst (alloc_page s1)"
  define s2 where "s2 = snd (alloc_page s1)"
  have "free_frames s1 \<noteq> {}" using room2 by auto
  note b = alloc_page_step [OF inv1 this, folded pgd_def s2_def]
  note f2 = thread_heap_fields [OF page_more [OF b(5)]]
  note AB = heap_step_trans [OF A b(1)]
  define s2' where "s2' = upd_task t (\<lambda>x. x\<lparr>t_pgd := pgd\<rparr>) s2"
  have v2: "kmalloc_state.truncate s2' = kmalloc_state.truncate s2" by (simp add: s2'_def)
  have inv2: "kmalloc_inv s2" using b(1) by (simp add: heap_step_def)
  have dir2: "whole_page s2 (pg_dir s)" using dir AB(1) by (simp add: heap_step_def keeps_whole_def)
  have pi: "page_inv s2" using inv2 rep_page_inv by (auto simp: kmalloc_inv_def)
  have al: "aligned_page pgd" "aligned_page (pg_dir s)"
    using own_page_props(1) [OF pi whole_page_own] b(2) dir2 by blast+
  have ne: "pgd \<noteq> pg_dir s"
    using whole_page_object [OF inv dir] AB(1) by (auto simp: heap_step_def)
  define m where "m = fold (\<lambda>i m. m(entry_at pgd i := m (entry_at (pg_dir s) i))) [256..<512] (mem s2)"
  note c = copy_half_entry [OF al ne order_refl, of 256 "mem s2", folded m_def]
  define s3 where "s3 = copy_kernel_half pgd s2'"
  have s3: "s3 = s2'\<lparr>mem := m\<rparr>"
  proof -
    have "pg_dir s2' = pg_dir s" "mem s2' = mem s2" by (simp_all add: s2'_def upd_task_def f1 f2)
    then show ?thesis by (simp only: s3_def copy_kernel_half_def m_def)
  qed
  have "m c = mem s2 c" if "\<not> in_page pgd c" for c
  proof -
    have "\<forall>i<512. c \<noteq> entry_at pgd i" using that entry_in_page [OF al(1)] by metis
    then show ?thesis using conjunct2 [OF c] by blast
  qed
  then have C': "heap_step 0 {} {pgd} s2 (s2\<lparr>mem := m\<rparr>)" by (rule write_page_step [OF inv2 b(2)])
  have v3: "kmalloc_state.truncate s3 = kmalloc_state.truncate (s2\<lparr>mem := m\<rparr>)"
    by (simp add: s3 s2'_def upd_task_def kmalloc_state.truncate_def)
  have C: "heap_step 0 {} {pgd} s2 s3" using C' heap_step_view [OF refl v3, where s = s2] by simp
  have ABC: "heap_step 2 ({t} \<union> {pgd}) {} s s3"
    using heap_step_new [OF inv, of 2 "{t} \<union> {pgd}" pgd "{}"] heap_step_trans(1) [OF AB(1) C]
    by (simp add: numeral_2_eq_2)
  define s4 where "s4 = upd_task t (\<lambda>x. x\<lparr>t_tf := NULL, t_pid := nr_threads s3, t_ppid := 0, t_state := THREAD_RUNNING\<rparr>)
    (s3\<lparr>nr_threads := nr_threads s3 + 1\<rparr>)"
  have v4: "kmalloc_state.truncate s4 = kmalloc_state.truncate s3"
    by (simp add: s4_def upd_task_def kmalloc_state.truncate_def)
  have D: "heap_step 2 ({t} \<union> {pgd}) {} s s4" using ABC heap_step_view [OF refl v4, where s = s] by simp
  have inv4: "kmalloc_inv s4" and room4: "1 \<le> card (free_frames s4)" using D room by (auto simp: heap_step_def)
  define stack where "stack = fst (kmalloc STACK_SIZE s4)"
  define s5 where "s5 = snd (kmalloc STACK_SIZE s4)"
  have "free_frames s4 \<noteq> {}" using room4 by auto
  note d = kmalloc_page_step [OF inv4 this, folded stack_def s5_def]
  note f5 = thread_heap_fields [OF kmalloc_more [of STACK_SIZE s4, folded s5_def]]
  note E = heap_step_trans [OF D d(1)]
  define s6 where "s6 = upd_task t (\<lambda>x. x\<lparr>t_stack := stack, t_thread := (t_thread x)\<lparr>th_ra := f, th_sp := stack + STACK_SIZE\<rparr>,
    t_signal_handlers := fill 0 0 SIGNAL_MAX NULL (t_signal_handlers x),
    t_pending_signals := 0, t_is_handling_signal := 0, t_signal_stack := NULL, t_vma_list := NULL\<rparr>)
    (s5\<lparr>sched_saved := (sched_saved s5)(t := None)\<rparr>)"
  have v6: "kmalloc_state.truncate s6 = kmalloc_state.truncate s5"
    by (simp add: s6_def upd_task_def kmalloc_state.truncate_def)
  have F: "heap_step 3 {t, pgd, stack} {} s s6"
    using E(1) heap_step_view [OF refl v6, where s = s] by (simp add: insert_commute)
  have run: "thread_create f s = (t, enqueue t s6)"
    by (simp add: thread_create_def t_def s1_def pgd_def s2_def s2'_def s3_def s4_def stack_def s5_def s6_def case_prod_unfold Let_def)
  have ts4: "\<forall>x. x \<noteq> t \<longrightarrow> tasks s4 x = tasks s x" "t_pgd (tasks s4 t) = pgd" "nr_threads s4 = nr_threads s + 1"
    "pg_dir s4 = pg_dir s" "tp s4 = tp s" "run_queue s4 = run_queue s" "thread_sys.more s4 = thread_sys.more s" "timer_list s4 = timer_list s"
    "t_pid (tasks s4 t) = nr_threads s" "t_ppid (tasks s4 t) = 0" "t_state (tasks s4 t) = THREAD_RUNNING" "t_tf (tasks s4 t) = NULL"
    by (simp_all add: s4_def s3 s2'_def upd_task_def f1 f2)
  show thesis
  proof (rule that [OF run F t])
    show "t \<noteq> pgd" "t \<noteq> stack" "pgd \<noteq> stack" using AB(2) E(2) by auto
    have pgd4: "whole_page s4 pgd"
      using C b(2) by (simp add: whole_page_view [OF v4] heap_step_def keeps_whole_def)
    then have "whole_page s5 pgd" using d(1) by (simp add: heap_step_def keeps_whole_def)
    then show "whole_page s6 pgd" "whole_page s6 stack" using d(2) by (simp_all add: whole_page_view [OF v6])
    show "t_pgd (tasks s6 t) = pgd" "t_stack (tasks s6 t) = stack" "nr_threads s6 = nr_threads s + 1" "pg_dir s6 = pg_dir s"
      "tp s6 = tp s" "\<forall>x. x \<noteq> t \<longrightarrow> tasks s6 x = tasks s x" "run_queue s6 = run_queue s"
      "thread_sys.more s6 = thread_sys.more s" "timer_list s6 = timer_list s"
      using ts4 by (simp_all add: s6_def upd_task_def f5)
    show "new_thread f (nr_threads s) (tasks s6 t)"
      using ts4 by (simp add: new_thread_def s6_def upd_task_def f5 fill_apply)
    show "\<forall>i<512. mem s6 (entry_at pgd i) = (if i < 256 then 0 else mem s (entry_at (pg_dir s) i))"
    proof (intro allI impI)
      fix i :: nat assume i: "i < 512"
      have "mem s6 (entry_at pgd i) = mem s5 (entry_at pgd i)" by (simp add: s6_def)
      also have "\<dots> = mem s4 (entry_at pgd i)"
        using d(1) pgd4 entry_in_page [OF al(1) i] unfolding heap_step_def keeps_whole_def by blast
      also have "\<dots> = m (entry_at pgd i)" by (simp add: s4_def s3)
      also have "\<dots> = (if 256 \<le> i \<and> i < 512 then mem s2 (entry_at (pg_dir s) i) else mem s2 (entry_at pgd i))"
        using conjunct1 [OF c] i by blast
      also have "\<dots> = (if i < 256 then 0 else mem s (entry_at (pg_dir s) i))"
      proof -
        have "mem s2 (entry_at (pg_dir s) i) = mem s (entry_at (pg_dir s) i)"
          using AB(1) dir entry_in_page [OF al(2) i] unfolding heap_step_def keeps_whole_def by blast
        moreover have "mem s2 (entry_at pgd i) = 0" using b(4) entry_in_page [OF al(1) i] entry_cell [OF al(1) i] by blast
        ultimately show ?thesis using i by simp
      qed
      finally show "mem s6 (entry_at pgd i) = (if i < 256 then 0 else mem s (entry_at (pg_dir s) i))" .
    qed
    show "sie s6 = sie s"
    proof -
      have "sie s5 = sie s4" unfolding s5_def by (rule kmalloc_sie [OF inv4])
      moreover have "sie s4 = sie s2" by (simp add: s4_def s3 s2'_def upd_task_def)
      moreover have "sie s1 = sie s" unfolding s1_def by (rule kmalloc_sie [OF inv])
      ultimately show ?thesis using b(6) by (simp add: s6_def)
    qed
  qed
qed

subsection \<open>In the run queue\<close>

lemma enqueue_frame:
  fixes s :: "'a thread_sys_scheme"
  shows "kmalloc_state.truncate (enqueue t s) = kmalloc_state.truncate s" "nr_threads (enqueue t s) = nr_threads s"
    "pg_dir (enqueue t s) = pg_dir s" "tp (enqueue t s) = tp s" "thread_sys.more (enqueue t s) = thread_sys.more s"
    "timer_list (enqueue t s) = timer_list s" "sie (enqueue t s) = sie s"
    "tasks (enqueue t s) x = (tasks s x)\<lparr>t_next := t_next (tasks (enqueue t s) x)\<rparr>"
  by (simp_all add: enqueue_def irq_defs Let_def upd_task_def kmalloc_state.truncate_def)

definition with_new :: "'a \<Rightarrow> 'a list \<Rightarrow> 'a list" where
  "with_new t xs = (case xs of [] \<Rightarrow> [t] | x # ys \<Rightarrow> x # t # ys)"

lemma new_thread_next [simp]: "new_thread f pid (x\<lparr>t_next := p\<rparr>) = new_thread f pid x"
  by (simp add: new_thread_def)

lemma thread_create_ok:
  fixes s :: "'a thread_sys_scheme"
  assumes "kmalloc_inv s" "queue_ok s xs" "\<forall>x\<in>set xs. owns_object s x"
    and "3 \<le> card (free_frames s)" "whole_page s (pg_dir s)" "thread_create f s = (t, s')"
  defines "pgd \<equiv> t_pgd (tasks s' t)" and "stack \<equiv> t_stack (tasks s' t)"
  shows "heap_step 3 {t, pgd, stack} {} s s'" "distinct [NULL, t, pgd, stack]" "queue_ok s' (with_new t xs)"
    "new_thread f (nr_threads s) (tasks s' t)" "nr_threads s' = nr_threads s + 1"
    "\<forall>i<512. mem s' (entry_at pgd i) = (if i < 256 then 0 else mem s (entry_at (pg_dir s) i))"
    "\<forall>x. x \<noteq> t \<longrightarrow> tasks s' x = (tasks s x)\<lparr>t_next := t_next (tasks s' x)\<rparr>"
    "timer_list s' = timer_list s" "pg_dir s' = pg_dir s" "tp s' = tp s" "thread_sys.more s' = thread_sys.more s"
    "sie s' = sie s"
proof -
  obtain t' pgd' stack' s6 where r: "thread_create f s = (t', enqueue t' s6)"
    "heap_step 3 {t', pgd', stack'} {} s s6" "t' \<noteq> NULL" "t' \<noteq> pgd'" "t' \<noteq> stack'" "pgd' \<noteq> stack'"
    "whole_page s6 pgd'" "whole_page s6 stack'" "t_pgd (tasks s6 t') = pgd'" "t_stack (tasks s6 t') = stack'"
    "new_thread f (nr_threads s) (tasks s6 t')" "nr_threads s6 = nr_threads s + 1" "pg_dir s6 = pg_dir s" "tp s6 = tp s"
    "\<forall>i<512. mem s6 (entry_at pgd' i) = (if i < 256 then 0 else mem s (entry_at (pg_dir s) i))"
    "\<forall>x. x \<noteq> t' \<longrightarrow> tasks s6 x = tasks s x" "run_queue s6 = run_queue s"
    "thread_sys.more s6 = thread_sys.more s" "timer_list s6 = timer_list s" "sie s6 = sie s"
    by (rule thread_create_run [OF assms(1,4,5)])
  have "t' = t" and run: "s' = enqueue t s6" using r(1) assms(6) by simp_all
  note c = r [unfolded \<open>t' = t\<close>]
  note e = enqueue_frame [of t s6, folded run]
  obtain n where "tasks s' t = (tasks s6 t)\<lparr>t_next := n\<rparr>" using e(8) [of t] by blast
  then have f: "pgd = pgd'" "stack = stack'" "new_thread f (nr_threads s) (tasks s' t)"
    using c(9-11) by (simp_all add: pgd_def stack_def)
  show step: "heap_step 3 {t, pgd, stack} {} s s'" using c(2) heap_step_view [OF refl e(1)] f by metis
  have nn: "NULL \<noteq> pgd" "NULL \<noteq> stack"
    using c(2,7,8) own_page_props(2) [OF rep_page_inv whole_page_own] f by (auto simp: heap_step_def kmalloc_inv_def)
  have t: "t \<notin> set xs" using step assms(3) by (auto simp: heap_step_def)
  have "queue_ok s6 xs"
  proof (cases "xs = []")
    case False
    have "ring (tasks s6) xs = ring (tasks s) xs" using c(16) t by (intro ring_cong) metis
    then show ?thesis using assms(2) False c(17) by (simp add: queue_ok_def)
  qed (use assms(2) c(17) in \<open>simp add: queue_ok_def\<close>)
  then show "queue_ok s' (with_new t xs)" unfolding run with_new_def by (rule enqueue_ok [OF _ t c(3)])
  have mem: "mem s' = mem s6" by (rule heap_view(1) [OF e(1)])
  show "\<forall>x. x \<noteq> t \<longrightarrow> tasks s' x = (tasks s x)\<lparr>t_next := t_next (tasks s' x)\<rparr>" using e(8) c(16) by metis
  show "distinct [NULL, t, pgd, stack]" using c(3-6) nn f(1,2) by auto
  show "new_thread f (nr_threads s) (tasks s' t)" by (rule f(3))
  show "\<forall>i<512. mem s' (entry_at pgd i) = (if i < 256 then 0 else mem s (entry_at (pg_dir s) i))"
    unfolding mem f(1) by (rule c(15))
  show "nr_threads s' = nr_threads s + 1" "timer_list s' = timer_list s" "pg_dir s' = pg_dir s" "tp s' = tp s"
    "thread_sys.more s' = thread_sys.more s" "sie s' = sie s"
    using e(2-7) c(12-14,18-20) by simp_all
qed

lemma step_objects:
  assumes "heap_step n P T s s'"
  shows "kmalloc_inv s'" "\<forall>p. owns_object s p \<longrightarrow> owns_object s' p" "\<forall>p\<in>P. owns_object s' p \<and> \<not> owns_object s p"
    "card (free_frames s) \<le> card (free_frames s') + n" "whole_page s p \<Longrightarrow> whole_page s' p"
  using assms unfolding heap_step_def keeps_whole_def by blast+

text \<open>C30: \<^verbatim>\<open>thread_create\<close> with three frames left. The task, its page table and its stack are three new
  objects, every other object and the heap invariant are kept; the task is linked in behind the head
  of the run queue and its fields say it is ready to run the function on the new stack; the user half
  of its page table is empty and the kernel half is the kernel's; of the other tasks only links change.\<close>

theorem thread_create_correct:
  fixes s :: "'a thread_sys_scheme"
  assumes "kmalloc_inv s" "queue_ok s xs" "\<forall>x\<in>set xs. owns_object s x"
    and "3 \<le> card (free_frames s)" "whole_page s (pg_dir s)" "thread_create f s = (t, s')"
  defines "pgd \<equiv> t_pgd (tasks s' t)" and "stack \<equiv> t_stack (tasks s' t)"
  shows "kmalloc_inv s' \<and> (\<forall>p. owns_object s p \<longrightarrow> owns_object s' p) \<and> distinct [NULL, t, pgd, stack] \<and>
    (\<forall>p\<in>{t, pgd, stack}. owns_object s' p \<and> \<not> owns_object s p) \<and>
    queue_ok s' (with_new t xs) \<and> new_thread f (nr_threads s) (tasks s' t) \<and> nr_threads s' = nr_threads s + 1 \<and>
    (\<forall>i<512. mem s' (entry_at pgd i) = (if i < 256 then 0 else mem s (entry_at (pg_dir s) i))) \<and>
    (\<forall>x. x \<noteq> t \<longrightarrow> tasks s' x = (tasks s x)\<lparr>t_next := t_next (tasks s' x)\<rparr>) \<and> timer_list s' = timer_list s"
proof -
  note r = thread_create_ok [OF assms(1-6)]
  show ?thesis unfolding pgd_def stack_def using step_objects(1-3) [OF r(1)] r(2-8) by blast
qed

end
