(* ===== verification/Reserved_Regions.thy ===== *)
theory Reserved_Regions
  imports Boot_Main
begin

text \<open>
  The regions of the device tree's reserved-memory nodes as a list: the scan reserves the same
  regions whatever the state, so the list \<open>main\<close> hands to \<^verbatim>\<open>buddy_init\<close> in the model stands for the call
  of \<^verbatim>\<open>dtb_find_and_reserve_memory\<close> inside it.
\<close>

definition region_of :: "u64 \<times> u64 \<Rightarrow> mem_region" where
  "region_of r = \<lparr>rg_start = fst r, rg_end = fst r + snd r\<rparr>"

lemma fold_reserve:
  "fold (\<lambda>(a, n). memory_reserve a n) rs s = s\<lparr>reserved_regions :=
     reserved_regions s @ take (MAX_RESERVED_REGIONS - length (reserved_regions s)) (map region_of rs)\<rparr>"
proof (induction rs arbitrary: s)
  case (Cons r rs)
  obtain a n where r: "r = (a, n)" by (cases r)
  show ?case
  proof (cases "length (reserved_regions s) < MAX_RESERVED_REGIONS")
    case True
    then obtain k where k: "MAX_RESERVED_REGIONS - length (reserved_regions s) = Suc k" by (metis Suc_diff_Suc)
    then have "MAX_RESERVED_REGIONS - Suc (length (reserved_regions s)) = k" by simp
    then show ?thesis
      unfolding r fold.simps comp_def prod.case Cons.IH [of "memory_reserve a n s"] using True k
      by (simp add: memory_reserve_def) (simp add: region_of_def)
  next
    case False
    then have "memory_reserve a n s = s" by (simp add: memory_reserve_def)
    then show ?thesis unfolding r fold.simps comp_def prod.case Cons.IH [of "memory_reserve a n s"] using False by simp
  qed
qed simp

abbreviation reserve_list :: "(u64 \<times> u64) list \<Rightarrow> 'a buddy_state_scheme \<Rightarrow> 'a buddy_state_scheme" where
  "reserve_list rs \<equiv> fold (\<lambda>(a, n). memory_reserve a n) rs"

lemma reserve_reg_fold:
  obtains rs where "\<And>s :: 'a buddy_state_scheme. reserve_reg m v n s = reserve_list rs s"
    "\<And>s :: 'b buddy_state_scheme. reserve_reg m v n s = reserve_list rs s"
proof
  let ?rs = "if n \<ge> 16 then [(push_bit 32 (cell32 m v 0) OR cell32 m v 1, push_bit 32 (cell32 m v 2) OR cell32 m v 3)]
    else if n \<ge> 8 then [(cell32 m v 0, cell32 m v 1)] else []"
  show "reserve_reg m v n s = reserve_list ?rs s" for s :: "'a buddy_state_scheme" by (simp add: reserve_reg_def)
  show "reserve_reg m v n s = reserve_list ?rs s" for s :: "'b buddy_state_scheme" by (simp add: reserve_reg_def)
qed

text \<open>The control flow of the scan does not depend on the state: two runs, on states of any kind,
  reserve the same regions.\<close>

definition uniform :: "('a buddy_state_scheme \<Rightarrow> 'a buddy_state_scheme option) \<Rightarrow> ('b buddy_state_scheme \<Rightarrow> 'b buddy_state_scheme option) \<Rightarrow> bool" where
  "uniform f g \<longleftrightarrow> (\<exists>rs. (\<forall>s. f s = Some (reserve_list rs s)) \<and> (\<forall>s. g s = Some (reserve_list rs s)))"

lemma uniform_step:
  fixes f :: "'a buddy_state_scheme \<Rightarrow> _" and g :: "'b buddy_state_scheme \<Rightarrow> _"
  assumes "uniform f g"
  shows "uniform (\<lambda>s. f (reserve_reg m v n s)) (\<lambda>s. g (reserve_reg m v n s))"
proof -
  obtain rs where "\<And>s. f s = Some (reserve_list rs s)" "\<And>s. g s = Some (reserve_list rs s)"
    using assms by (auto simp: uniform_def)
  moreover obtain qs where "\<And>s :: 'a buddy_state_scheme. reserve_reg m v n s = reserve_list qs s"
    "\<And>s :: 'b buddy_state_scheme. reserve_reg m v n s = reserve_list qs s" by (rule reserve_reg_fold) blast
  ultimately show ?thesis unfolding uniform_def by (intro exI [of _ "qs @ rs"]) simp
qed

lemma reserve_loop_uniform:
  assumes "reserve_loop m dts e c d r s = Some t"
  shows "uniform (reserve_loop m dts e c d r :: 'a buddy_state_scheme \<Rightarrow> _) (reserve_loop m dts e c d r :: 'b buddy_state_scheme \<Rightarrow> _)"
proof (rule reserve_loop.raw_induct [where P = "\<lambda>m dts e c d r s t.
    uniform (reserve_loop m dts e c d r :: 'a buddy_state_scheme \<Rightarrow> _) (reserve_loop m dts e c d r :: 'b buddy_state_scheme \<Rightarrow> _)",
    OF _ assms])
  fix f m dts e c d r s t
  let ?u = "\<lambda>m dts e c d r. uniform (reserve_loop m dts e c d r :: 'a buddy_state_scheme \<Rightarrow> _) (reserve_loop m dts e c d r :: 'b buddy_state_scheme \<Rightarrow> _)"
  let ?tok = "bswap_32 (load32 m c)"
  assume IH: "\<And>m dts e c d r s t. f m dts e c d r s = Some t \<Longrightarrow> ?u m dts e c d r"
    and body: "(if c < e
      then let token = bswap_32 (load32 m c); c = c + 4
           in if token = FDT_BEGIN_NODE
              then Option.bind (skip_string m c) (\<lambda>past. let depth = d + 1
                       in f m dts e (align_32 past) depth
                           (if r < 0 \<and> depth = 1 \<and> node_name_match m c (bytes_of ''reserved-memory'') then depth else r) s)
              else if token = FDT_END_NODE then f m dts e c (d - 1) (if r = d then - 1 else r) s
              else if token = FDT_PROP
              then let prop_len = bswap_32 (load32 m c); name = dts + ucast (bswap_32 (load32 m (c + 4))); prop_val = c + 8
                   in Let (if 0 \<le> r \<and> d = r + 1 \<and> strcmp_lit m name (bytes_of ''reg'') = 0
                           then reserve_reg m prop_val prop_len s else s)
                        (f m dts e (align_32 (prop_val + ucast prop_len)) d r)
              else if token = FDT_NOP then f m dts e c d r s else Some s
      else Some s) = Some t"
  have unf: "?u m dts e c d r" if "\<And>s'. reserve_loop m dts e c d r s' = g s'" "\<And>s'. reserve_loop m dts e c d r s' = h s'" "uniform g h"
    for g :: "'a buddy_state_scheme \<Rightarrow> _" and h :: "'b buddy_state_scheme \<Rightarrow> _"
  proof -
    have "reserve_loop m dts e c d r = g" "reserve_loop m dts e c d r = h" using that(1,2) by (simp_all add: fun_eq_iff)
    then show ?thesis using that(3) by simp
  qed
  have stays: "uniform (Some :: 'a buddy_state_scheme \<Rightarrow> _) (Some :: 'b buddy_state_scheme \<Rightarrow> _)"
    unfolding uniform_def by (rule exI [of _ "[]"]) simp
  consider "\<not> c < e" | "c < e" "?tok = FDT_BEGIN_NODE" | "c < e" "?tok = FDT_END_NODE" | "c < e" "?tok = FDT_PROP"
    | "c < e" "?tok = FDT_NOP" | "c < e" "?tok \<notin> {FDT_BEGIN_NODE, FDT_END_NODE, FDT_PROP, FDT_NOP}" by auto
  then show "?u m dts e c d r"
  proof cases
    case 1
    then show ?thesis by (intro unf [OF _ _ stays]) (subst reserve_loop.simps, simp)+
  next
    case 2
    then obtain past where p: "skip_string m (c + 4) = Some past"
      and "f m dts e (align_32 past) (d + 1)
        (if r < 0 \<and> d + 1 = 1 \<and> node_name_match m (c + 4) (bytes_of ''reserved-memory'') then d + 1 else r) s = Some t"
      using body by (auto simp: Let_def bind_eq_Some_conv)
    from IH [OF this(2)] show ?thesis
      by (rule unf [rotated 2]) (subst reserve_loop.simps, simp add: 2 p Let_def)+
  next
    case 3
    then have "f m dts e (c + 4) (d - 1) (if r = d then - 1 else r) s = Some t" using body by (simp add: Let_def fdt_tokens)
    from IH [OF this] show ?thesis
      by (rule unf [rotated 2]) (subst reserve_loop.simps, simp add: 3 Let_def fdt_tokens)+
  next
    case 4
    let ?len = "bswap_32 (load32 m (c + 4))" and ?val = "c + 4 + 8"
    let ?g = "reserve_loop m dts e (align_32 (?val + ucast ?len)) d r :: 'a buddy_state_scheme \<Rightarrow> _"
    let ?h = "reserve_loop m dts e (align_32 (?val + ucast ?len)) d r :: 'b buddy_state_scheme \<Rightarrow> _"
    let ?hit = "0 \<le> r \<and> d = r + 1 \<and> strcmp_lit m (dts + ucast (bswap_32 (load32 m (c + 4 + 4)))) (bytes_of ''reg'') = 0"
    have "\<exists>x. f m dts e (align_32 (?val + ucast ?len)) d r x = Some t" using 4 body by (auto simp: Let_def fdt_tokens)
    then have u: "uniform ?g ?h" using IH by blast
    have "uniform (\<lambda>s'. ?g (if b then reserve_reg m ?val ?len s' else s')) (\<lambda>s'. ?h (if b then reserve_reg m ?val ?len s' else s'))" for b
      using uniform_step [OF u] u by (cases b) (simp_all only: if_True if_False)
    from this [of ?hit] show ?thesis by (rule unf [rotated 2]) (subst reserve_loop.simps, simp add: 4 Let_def fdt_tokens)+
  next
    case 5
    then have "f m dts e (c + 4) d r s = Some t" using body by (simp add: Let_def fdt_tokens)
    from IH [OF this] show ?thesis
      by (rule unf [rotated 2]) (subst reserve_loop.simps, simp add: 5 Let_def fdt_tokens)+
  next
    case 6
    then show ?thesis by (intro unf [OF _ _ stays]) (subst reserve_loop.simps, simp add: Let_def)+
  qed
qed

text \<open>So the list of regions read from the tree is what \<^verbatim>\<open>dtb_find_and_reserve_memory\<close> reserves on any state.\<close>

lemma dtb_reserved_correct:
  fixes s :: "'a buddy_state_scheme"
  shows "dtb_find_and_reserve_memory m dtb s =
    map_option (\<lambda>rs. fold (\<lambda>(a, n). memory_reserve a n) rs s) (dtb_reserved m dtb)"
proof (cases "dtb = NULL \<or> fdt_magic m dtb \<noteq> FDT_HEADER_MAGIC")
  case True
  then show ?thesis by (auto simp: dtb_find_and_reserve_memory_def dtb_reserved_def empty_regions_def)
next
  case False
  let ?l = "\<lambda>s. reserve_loop m (dtb + ucast (off_dt_strings m dtb)) (dtb + ucast (off_dt_struct m dtb) + ucast (size_dt_struct m dtb))
     (dtb + ucast (off_dt_struct m dtb)) (- 1) (- 1) s"
  have find: "dtb_find_and_reserve_memory m dtb x = ?l x" for x :: "'c buddy_state_scheme"
    using False by (simp add: dtb_find_and_reserve_memory_def Let_def)
  show ?thesis
  proof (cases "?l empty_regions")
    case None
    have "?l s = None"
    proof (rule ccontr)
      assume "?l s \<noteq> None"
      then obtain t where "?l s = Some t" by blast
      from reserve_loop_uniform [OF this, where 'b = unit] have "?l empty_regions \<noteq> None" by (auto simp: uniform_def)
      then show False using None by blast
    qed
    then show ?thesis using None by (simp add: find dtb_reserved_def)
  next
    case (Some t)
    obtain rs where rs: "?l s = Some (reserve_list rs s)" "?l empty_regions = Some (reserve_list rs empty_regions)"
      using reserve_loop_uniform [OF Some, where 'a = 'a and 'b = unit] by (auto simp: uniform_def)
    have "dtb_reserved m dtb = Some (map (\<lambda>r. (rg_start r, rg_end r - rg_start r)) (take MAX_RESERVED_REGIONS (map region_of rs)))"
      unfolding dtb_reserved_def find rs(2) fold_reserve by (simp add: empty_regions_def)
    also have "\<dots> = Some (take MAX_RESERVED_REGIONS rs)" by (simp add: take_map comp_def region_of_def)
    finally have d: "dtb_reserved m dtb = Some (take MAX_RESERVED_REGIONS rs)" .
    show ?thesis unfolding find rs(1) d by (simp add: fold_reserve take_map min_def)
  qed
qed

end
