(* ===== verification/Boot_Spec.thy ===== *)
theory Boot_Spec
  imports Creation_Spec Uart_Spec Reserved_Regions
begin

text \<open>
  What the kernel has set up when \<^verbatim>\<open>main\<close> becomes the idle loop.
\<close>

lemma kernel_fields:
  fixes s s' :: "('d, 'a) kernel_sys_scheme"
  assumes "kmalloc_state.more s' = kmalloc_state.more s"
  shows "tasks s' = tasks s" "pg_dir s' = pg_dir s" "nr_threads s' = nr_threads s" "run_queue s' = run_queue s"
    "timer_list s' = timer_list s" "clock s' = clock s" "clock_reads s' = clock_reads s" "thread_sys.more s' = thread_sys.more s"
  using assms by (cases s; cases s'; simp)+

lemma kernel_globals:
  fixes s s' :: "('d, 'a) kernel_sys_scheme"
  assumes "thread_sys.more s' = thread_sys.more s"
  shows "boot_hart_id s' = boot_hart_id s" "dtb_addr s' = dtb_addr s" "cpio_addr s' = cpio_addr s" "serial s' = serial s"
    "sie_csr s' = sie_csr s" "sum_bit s' = sum_bit s" "stvec s' = stvec s" "sscratch s' = sscratch s" "plic_regs s' = plic_regs s"
    "fw_device s' = fw_device s"
  using assms by (cases s; cases s'; simp)+

lemma bit_single: "k < 64 \<Longrightarrow> bit (push_bit k (1 :: u64)) n \<longleftrightarrow> n = k"
  by (auto simp: bit_simps)

text \<open>Without a serial node in the tree the base is the bare offset of the high half: the test for 0 in
  \<^verbatim>\<open>uart_set_base\<close> comes after the translation and never fails.\<close>

lemma missing_serial_base:
  assumes "dtb_get_reg (load8 (mem s)) (va dtb_ptr) (bytes_of ''/soc/serial'') = Some 0"
    and "dtb_get_reg (load8 (mem s)) (va dtb_ptr) (bytes_of ''/soc/uart'') = Some 0" "find_devices h dtb_ptr s = Some s'"
  shows "g_uart_base (serial s') = PAGE_OFFSET"
  using assms by (auto simp: find_devices_def Let_def uart_set_base_def va_def bind_eq_Some_conv)

text \<open>The first timer event.\<close>

definition preempt_event :: "('d, 'e) boot_env_scheme \<Rightarrow> ('d, 'a) kernel_sys_scheme \<Rightarrow> timer_event" where
  "preempt_event env s = \<lparr>expire_cycles = clock s (clock_reads s) + SYS_CLOCK_FREQ (be_qemu env) div 32,
     timer_callback = be_preempt_callback env, timer_arg = NULL\<rparr>"

lemma heap_step_sie [simp]:
  "heap_step n P T (s\<lparr>sie := e\<rparr>) s' = heap_step n P T s s'" "heap_step n P T s (s'\<lparr>sie := e\<rparr>) = heap_step n P T s s'"
  by (simp_all add: heap_step_def keeps_whole_def whole_page_def)

lemma core_timer_enable_run:
  fixes s :: "('d, 'a) kernel_sys_scheme" and env :: "('d, 'e) boot_env_scheme"
  assumes inv: "kmalloc_inv s" and room: "free_frames s \<noteq> {}" and empty: "timer_list s = []"
  defines "s' \<equiv> core_timer_enable (be_qemu env) (be_preempt_callback env) s"
  obtains p where "heap_step 1 {p} {} s s'" "timer_list s' = [(p, preempt_event env s)]"
    "sbi_timer s' = expire_cycles (preempt_event env s)" "sie s' = sie s"
    "tasks s' = tasks s" "pg_dir s' = pg_dir s" "nr_threads s' = nr_threads s" "run_queue s' = run_queue s"
    "thread_sys.more s' = thread_sys.more (s\<lparr>sie_csr := sie_csr s OR SIE_STIE\<rparr>)"
proof -
  define s1 where "s1 = s\<lparr>sie_csr := sie_csr s OR SIE_STIE, sie := False\<rparr>"
  define p where "p = fst (kmalloc sizeof_timer_event s1)"
  define s2 where "s2 = snd (kmalloc sizeof_timer_event s1)"
  have t1: "kmalloc_state.truncate s1 = kmalloc_state.truncate (s\<lparr>sie := False\<rparr>)" by (simp add: s1_def kmalloc_state.truncate_def)
  have inv1: "kmalloc_inv s1" using inv by (simp add: kmalloc_view(1) [OF t1])
  have "free_frames s1 \<noteq> {}" using room by (simp add: s1_def free_frames_def)
  then have p: "p \<noteq> NULL" and step: "heap_step 1 {p} {} s1 s2"
    using kmalloc_small_step [OF inv1, of sizeof_timer_event, folded p_def s2_def] by (simp_all add: sizeof_timer_event_def)
  note f = kernel_fields [OF kmalloc_more [of sizeof_timer_event s1, folded s2_def]]
  have sie2: "sie s2 = False" using kmalloc_sie [OF inv1, of sizeof_timer_event] by (simp add: s2_def s1_def)
  have "s' = csrs (sie s) (insert_event (p, preempt_event env s) (s2\<lparr>clock_reads := clock_reads s2 + 1\<rparr>))"
    using p f by (simp add: s'_def core_timer_enable_def add_timer_ticks_def irq_defs(1) p_def s2_def s1_def
        get_cycles_def preempt_event_def case_prod_unfold Let_def)
  also have "\<dots> = s2\<lparr>clock_reads := clock_reads s2 + 1, timer_list := [(p, preempt_event env s)],
      sbi_timer := expire_cycles (preempt_event env s), sie := sie s\<rparr>"
    using f(5) empty sie2 by (simp add: insert_event_def sbi_set_timer_def irq_defs(2) s1_def)
  finally have e: "s' = s2\<lparr>clock_reads := clock_reads s2 + 1, timer_list := [(p, preempt_event env s)],
      sbi_timer := expire_cycles (preempt_event env s), sie := sie s\<rparr>" .
  show thesis
  proof (rule that [of p])
    show "heap_step 1 {p} {} s s'"
    proof -
      have "kmalloc_state.truncate s' = kmalloc_state.truncate (s2\<lparr>sie := sie s\<rparr>)"
        by (simp add: e kmalloc_state.truncate_def)
      then show ?thesis using heap_step_view [OF t1, of s' "s2\<lparr>sie := sie s\<rparr>"] heap_step_view [OF t1 refl] step by simp
    qed
  qed (use f in \<open>simp_all add: e s1_def\<close>)
qed

subsection \<open>Memory\<close>

text \<open>The allocators that \<open>init_memory\<close> sets up: their inputs come from the tree in memory and the frame
  buffer is the first region reserved; when the ranges make sense and the tables can be placed the heap
  invariant holds.\<close>

lemma init_memory_heap:
  fixes s :: "('d, 'a) kernel_sys_scheme"
  assumes "init_memory env s = Some s'"
  obtains bi t where "read_boot_info env (load8 (mem t)) (dtb_addr s) (cpio_addr s) = Some bi"
    "s' = kmalloc_init ((buddy_init (be_qemu env) bi t)\<lparr>buddy_is_ready := True\<rparr>)"
    "reserved_regions t = reserved_regions
       (if be_qemu env then memory_reserve (FB_BASE True) (of_int (FB_WIDTH * FB_HEIGHT * FB_BPP)) s else s)"
    "\<lbrakk>sane_boot (be_qemu env) bi t; frame_array_ptr (buddy_init (be_qemu env) bi t) \<noteq> NULL;
      ref_count_ptr (buddy_init (be_qemu env) bi t) \<noteq> NULL; base_aligned (buddy_init (be_qemu env) bi t);
      can_serve (buddy_init (be_qemu env) bi t) (of_nat (buddy_total_pages (buddy_init (be_qemu env) bi t)))\<rbrakk>
     \<Longrightarrow> kmalloc_inv s'"
proof -
  define s1 where "s1 = drop_identity_map s"
  obtain found m d s2 where v: "video_init (be_qemu env) (be_fw env) (load8 (mem s1), fw_device s1) s1 = Some (found, (m, d), s2)"
    and rest: "Option.bind (read_boot_info env (load8 (mem (s2\<lparr>mem := with_bytes (\<lambda>_. m) (mem s2), fw_device := d\<rparr>)))
        (dtb_addr s2) (cpio_addr s2))
      (\<lambda>bi. Some (kmalloc_init ((buddy_init (be_qemu env) bi (s2\<lparr>mem := with_bytes (\<lambda>_. m) (mem s2), fw_device := d\<rparr>))\<lparr>buddy_is_ready := True\<rparr>))) = Some s'"
    using assms unfolding init_memory_def Let_def s1_def [symmetric]
    by (cases "video_init (be_qemu env) (be_fw env) (load8 (mem s1), fw_device s1) s1") auto
  define t where "t = s2\<lparr>mem := with_bytes (\<lambda>_. m) (mem s2), fw_device := d\<rparr>"
  obtain bi where bi: "read_boot_info env (load8 (mem t)) (dtb_addr s2) (cpio_addr s2) = Some bi"
    "s' = kmalloc_init ((buddy_init (be_qemu env) bi t)\<lparr>buddy_is_ready := True\<rparr>)"
    using rest unfolding t_def [symmetric] by (auto simp: bind_eq_Some_conv)
  have s2: "s2 = (if be_qemu env then memory_reserve (FB_BASE True) (of_int (FB_WIDTH * FB_HEIGHT * FB_BPP)) s1 else s1)"
    using v by (auto simp: video_init_def Let_def bind_eq_Some_conv split: if_splits)
  have g: "dtb_addr s2 = dtb_addr s" "cpio_addr s2 = cpio_addr s"
    by (simp_all add: s2 s1_def memory_reserve_def drop_identity_map_def)
  have r: "reserved_regions t = reserved_regions
       (if be_qemu env then memory_reserve (FB_BASE True) (of_int (FB_WIDTH * FB_HEIGHT * FB_BPP)) s else s)"
    by (simp add: t_def s2 s1_def memory_reserve_def drop_identity_map_def)
  let ?b = "buddy_init (be_qemu env) bi t"
  let ?r = "?b\<lparr>buddy_is_ready := True\<rparr>"
  have v: "buddy_state.truncate ?r = buddy_state.truncate ?b" by (simp add: buddy_state.truncate_def)
  show thesis
  proof (rule that [OF bi(1) [unfolded g] bi(2) r])
    assume a: "sane_boot (be_qemu env) bi t" "frame_array_ptr ?b \<noteq> NULL" "ref_count_ptr ?b \<noteq> NULL"
      "base_aligned ?b" "can_serve ?b (of_nat (buddy_total_pages ?b))"
    have "buddy_inv ?b" using buddy_init_establishes [OF a(1-3)] by simp
    then have "buddy_inv ?r" "base_aligned ?r" "can_serve ?r (of_nat (buddy_total_pages ?r))"
      using a(4,5) by (simp_all add: buddy_view [OF v] base_aligned_def can_serve_def free_heads_def)
    then show "kmalloc_inv s'" unfolding bi(2) kmalloc_inv_def using kmalloc_init_rep(1) by blast
  qed
qed

subsection \<open>Two threads\<close>

text \<open>Two creations on an empty run queue, the first of them current when the second runs.\<close>

lemma two_threads:
  fixes s :: "('d, 'a) kernel_sys_scheme"
  assumes "kmalloc_inv s" "queue_ok s []" "6 \<le> card (free_frames s)" "whole_page s (pg_dir s)"
    and first: "thread_create f s = (idle, s1)" and second: "thread_create g (s1\<lparr>tp := idle\<rparr>) = (shell, s')"
  shows "kmalloc_inv s'" "\<forall>p. owns_object s p \<longrightarrow> owns_object s' p" "queue_ok s' [idle, shell]" "t_next (tasks s' idle) = shell"
    "new_thread f (nr_threads s) (tasks s' idle)" "new_thread g (nr_threads s + 1) (tasks s' shell)"
    "timer_list s' = timer_list s" "tp s' = idle" "thread_sys.more s' = thread_sys.more s" "sie s' = sie s"
proof -
  have "3 \<le> card (free_frames s)" using assms(3) by simp
  note c1 = thread_create_ok [OF assms(1,2) _ this assms(4) first, simplified]
  define s2 where "s2 = s1\<lparr>tp := idle\<rparr>"
  have t2: "kmalloc_state.truncate s2 = kmalloc_state.truncate s1" by (simp add: s2_def kmalloc_state.truncate_def)
  have step: "heap_step 3 {idle, t_pgd (tasks s1 idle), t_stack (tasks s1 idle)} {} s s2"
    using c1(1) heap_step_view [OF refl t2, where s = s] by simp
  have q2: "queue_ok s2 [idle]" using c1(3) by (simp add: s2_def queue_ok_def with_new_def)
  have own2: "\<forall>x\<in>set [idle]. owns_object s2 x" using step_objects(3) [OF step] by simp
  have pd: "pg_dir s2 = pg_dir s" using c1(9) by (simp add: s2_def)
  have room: "3 \<le> card (free_frames s2)" "whole_page s2 (pg_dir s2)"
    using step_objects(4,5) [OF step] assms(3,4) by (simp_all add: pd)
  note c2 = thread_create_ok [OF step_objects(1) [OF step] q2 own2 room second [folded s2_def]]
  have ne: "idle \<noteq> shell" using own2 step_objects(3) [OF c2(1)] by auto
  show "kmalloc_inv s'" by (rule step_objects(1) [OF c2(1)])
  show "\<forall>p. owns_object s p \<longrightarrow> owns_object s' p" using step_objects(2) [OF step] step_objects(2) [OF c2(1)] by blast
  show q: "queue_ok s' [idle, shell]" using c2(3) by (simp add: with_new_def)
  then show "t_next (tasks s' idle) = shell" by (simp add: queue_ok_def ring_def)
  obtain n where "tasks s' idle = (tasks s2 idle)\<lparr>t_next := n\<rparr>" using c2(7) ne by blast
  then show "new_thread f (nr_threads s) (tasks s' idle)" using c1(4) by (simp add: s2_def)
  show "new_thread g (nr_threads s + 1) (tasks s' shell)" using c2(4) c1(5) by (simp add: s2_def)
  show "timer_list s' = timer_list s" using c2(8) c1(8) by (simp add: s2_def)
  show "tp s' = idle" using c2(10) by (simp add: s2_def)
  show "thread_sys.more s' = thread_sys.more s" using c2(11) c1(11) by (simp add: s2_def)
  show "sie s' = sie s" using c2(12) c1(12) by (simp add: s2_def)
qed


subsection \<open>A concrete machine\<close>

text \<open>The booted machine of the page tables with one page as the kernel's page table.\<close>

definition boot_kernel :: "unit kernel_sys" where
  "boot_kernel = thread_sys.extend ((snd (alloc_page boot_sys))\<lparr>pg_dir := fst (alloc_page boot_sys)\<rparr>)
     (kernel_sys.fields 1 0 NULL uart_boot 0 False 0 0 0 (\<lambda>_. 0) ())"

definition plain_boot :: "unit boot_env" where
  "plain_boot = \<lparr>be_qemu = True, be_start = va 0x80200000, be_end = va 0x80300000, be_trap_entry = 0x100,
     be_preempt_callback = 0x200, be_idle = 0x300, be_shell = 0x400,
     be_fw = \<lparr>fw_dma = \<lambda>_ md. md, fw_step = \<lambda>md. md, fw_access = 0, fw_count = 0, fw_file = 0, fw_cfg = 0, fw_name = 0\<rparr>\<rparr>"

lemma truncate_frames:
  fixes s :: "'a kmalloc_state_scheme"
  shows "free_frames (kmalloc_state.truncate s) = free_frames s" "whole_page (kmalloc_state.truncate s) = whole_page s"
proof -
  let ?t = "kmalloc_state.truncate s"
  have t: "frame_array ?t = frame_array s" "buddy_total_pages ?t = buddy_total_pages s" "page_pool_idx ?t = page_pool_idx s"
    "buddy_state.truncate ?t = buddy_state.truncate s"
    by (simp_all add: kmalloc_state.truncate_def buddy_state.truncate_def)
  show "free_frames ?t = free_frames s" by (simp add: free_frames_def t)
  have "owned ?t = owned s" "idx_to_addr ?t = idx_to_addr s"
    using truncate_inv [of s] truncate_inv [of ?t] truncate_view [of s] truncate_view [of ?t] by (simp_all add: t)
  then show "whole_page ?t = whole_page s" by (simp add: fun_eq_iff whole_page_def t)
qed

lemma boot_kernel_ok:
  "kmalloc_inv boot_kernel" "run_queue boot_kernel = NULL" "timer_list boot_kernel = []" "7 \<le> card (free_frames boot_kernel)"
  "whole_page boot_kernel (pg_dir boot_kernel)" "boot_hart_id boot_kernel = int 1" "plic_regs boot_kernel = (\<lambda>_. 0)"
proof -
  let ?s = "snd (alloc_page boot_sys)"
  have card: "9 \<le> card (free_frames boot_sys)"
    using boot_heap_ok(2) by (simp add: boot_sys_def kmalloc_state.extend_def free_frames_def)
  then have "free_frames boot_sys \<noteq> {}" by auto
  note a = alloc_page_step [OF boot_sys_inv this]
  have t: "kmalloc_state.truncate boot_kernel = kmalloc_state.truncate ?s"
    by (simp add: boot_kernel_def kmalloc_state.truncate_def thread_sys.extend_def)
  show "boot_hart_id boot_kernel = int 1" "plic_regs boot_kernel = (\<lambda>_. 0)"
    by (simp_all add: boot_kernel_def thread_sys.extend_def kernel_sys.fields_def)
  note f = thread_heap_fields [OF page_more [OF a(5)]]
  show "run_queue boot_kernel = NULL" "timer_list boot_kernel = []"
    using f(4,6) by (simp_all add: boot_kernel_def thread_sys.extend_def) (simp_all add: boot_sys_def kmalloc_state.extend_def)
  show "kmalloc_inv boot_kernel"
    using step_objects(1) [OF a(1)] kmalloc_truncate_inv [of boot_kernel] kmalloc_truncate_inv [of ?s] by (simp add: t)
  show "7 \<le> card (free_frames boot_kernel)"
    using step_objects(4) [OF a(1)] card truncate_frames(1) [of boot_kernel] truncate_frames(1) [of ?s] by (simp add: t)
  have "pg_dir boot_kernel = fst (alloc_page boot_sys)" by (simp add: boot_kernel_def thread_sys.extend_def)
  then show "whole_page boot_kernel (pg_dir boot_kernel)"
    using a(2) truncate_frames(2) [of boot_kernel] truncate_frames(2) [of ?s] by (simp add: t)
qed


theorem thread_create_correct_witness:
  "kmalloc_inv (snd (thread_create 0x300 boot_kernel))"
proof -
  have "queue_ok boot_kernel []" "3 \<le> card (free_frames boot_kernel)"
    using boot_kernel_ok(2,4) by (simp_all add: queue_ok_def)
  then show ?thesis using thread_create_correct [OF boot_kernel_ok(1) _ _ _ boot_kernel_ok(5)] by (metis empty_iff list.set(1) prod.collapse)
qed

end
