(* ===== verification/Spec2Isabelle.thy ===== *)
theory Spec2Isabelle
  imports Timer Cpio_Spec Dtb_Spec Fork_Spec Shell_Jobs Bootloader_Spec Video Plic Syscall_Errors Boot_Spec
begin

text \<open>
  A model of the RISC-V teaching kernel under \<^verbatim>\<open>src/kernel\<close> and of its bootloader under
  \<^verbatim>\<open>src/bootloader\<close>, with the theorems that make their parts correct.

  \<^bold>\<open>The program.\<close> The bootloader receives a kernel image over the serial port and jumps to it. The
  kernel maps itself into the high half, reads the device tree, builds a buddy allocator of page frames
  and a chunk allocator on top of it, installs its trap handler, arms a timer and starts two threads, the
  idle loop and a shell. Threads and processes share one circular run queue; the timer interrupt makes
  \<^verbatim>\<open>schedule\<close> pick the next runnable one. User programs come from the initial ram disk, run in Sv39
  address spaces filled on demand, and enter the kernel through system calls, page faults and signals.

  \<^bold>\<open>Definitions and code.\<close> Each component has a theory of definitions, named below with the file it
  translates, and, where its proofs are long, theories named after it with \<^verbatim>\<open>_Inv\<close>, \<^verbatim>\<open>_Correct\<close>, \<^verbatim>\<open>_Init\<close> or
  \<^verbatim>\<open>_Spec\<close>. Definitions have the names of the C functions.
  \<^item> \<^verbatim>\<open>List_Head\<close>: \<^verbatim>\<open>include/list.h\<close>. \<^verbatim>\<open>Buddy\<close>: \<^verbatim>\<open>buddy.c\<close>. \<^verbatim>\<open>Kmalloc\<close>: \<^verbatim>\<open>kmalloc.c\<close>.
  \<^item> \<^verbatim>\<open>Task\<close>: \<^verbatim>\<open>task.c\<close>. \<^verbatim>\<open>Timer\<close>: \<^verbatim>\<open>timer.c\<close> and \<^verbatim>\<open>sbi_set_timer\<close>.
  \<^item> \<^verbatim>\<open>Utils\<close>: \<^verbatim>\<open>utils.c\<close>. \<^verbatim>\<open>Uart\<close>: \<^verbatim>\<open>uart.c\<close>. \<^verbatim>\<open>Cpio\<close>: \<^verbatim>\<open>cpio.c\<close>. \<^verbatim>\<open>Dtb\<close>: \<^verbatim>\<open>dtb.c\<close>. \<^verbatim>\<open>Plic\<close>: \<^verbatim>\<open>plic.c\<close>.
    \<^verbatim>\<open>Video\<close>: \<^verbatim>\<open>video.c\<close>.
  \<^item> \<^verbatim>\<open>Vm\<close>: \<^verbatim>\<open>vm.c\<close>. \<^verbatim>\<open>Thread\<close> and \<^verbatim>\<open>Process\<close>: \<^verbatim>\<open>thread.c\<close> (run queue, scheduler, creation and end of
    threads; programs, fork, waiting, sleeping, signals). \<^verbatim>\<open>Syscall\<close>: \<^verbatim>\<open>syscall.c\<close>. \<^verbatim>\<open>Trap\<close>: \<^verbatim>\<open>trap.c\<close>.
  \<^item> \<^verbatim>\<open>Shell\<close>: \<^verbatim>\<open>shell.c\<close>. \<^verbatim>\<open>Boot_Main\<close>: \<^verbatim>\<open>main.c\<close>, \<^verbatim>\<open>trap_init\<close> and \<^verbatim>\<open>core_timer_enable\<close>.
  \<^item> \<^verbatim>\<open>Boot_Parsers\<close>: the bootloader's \<^verbatim>\<open>utils.c\<close>, \<^verbatim>\<open>cpio.c\<close> and \<^verbatim>\<open>dtb.c\<close>. \<^verbatim>\<open>Bootloader\<close>: its \<^verbatim>\<open>uart.c\<close>,
    \<^verbatim>\<open>main.c\<close> and \<^verbatim>\<open>shell.c\<close>, and the clearing of memory in \<^verbatim>\<open>a.S\<close>.
  \<^item> Shared: \<^verbatim>\<open>Prelude\<close> (integer widths, the interrupt enable bit), \<^verbatim>\<open>Memory\<close> (cells and bytes), \<^verbatim>\<open>Ranges\<close>
    (address ranges), \<^verbatim>\<open>Ring\<close> (ring buffers), \<^verbatim>\<open>Ordered_Queue\<close> and \<^verbatim>\<open>Line_Editor\<close> (interfaces),
    \<^verbatim>\<open>User_Memory\<close> (what a process reads), \<^verbatim>\<open>Heap_Steps\<close> (sequences of allocations), \<^verbatim>\<open>Reserved_Regions\<close>.

  \<^bold>\<open>State.\<close> The kernel's state is one chain of extensible records, in the order the components build on
  each other: \<open>cpu_state\<close>, \<open>buddy_state\<close>, \<open>kmalloc_state\<close>, \<open>task_state\<close>, \<open>timer_state\<close>, \<open>vm_state\<close>,
  \<open>thread_sys\<close>, and from there \<open>shell_sys\<close> and \<open>kernel_sys\<close>. Each holds the file's static variables.
  Memory is a function from addresses to 64-bit cells, with a byte view; the nodes of the intrusive lists,
  the chunks of the pools and the page tables live in it. Tasks, areas, trap frames and timer arguments are
  functions from addresses to records, and whether such an address is a live object is a question to the
  heap. Errors are the values the code returns; a routine that may not return is a partial function with
  \<open>None\<close> for that, or takes the list of device answers it may use up; theorems say that it returns. Words have
  the widths of the C types. Devices, callbacks, SBI answers and what other threads do while a caller
  waits are arguments. \<open>qemu\<close> selects the build for the emulator or the board.

  \<^bold>\<open>Interfaces.\<close> \<open>allocator\<close> is what a client needs of an allocator, with the properties of sequences of
  requests proved once; the buddy allocator and the heap are its two instances. \<open>ordered_queue\<close> serves the
  task and the timer queue, \<open>bounded_queue\<close> the two rings of the serial driver, \<open>task_queue\<close> the run queue,
  \<open>line_editor\<close> the two shells.

  \<^bold>\<open>What is shown.\<close>
  \<^item> Memory: the free lists hold exactly the maximal free blocks; \<^verbatim>\<open>buddy_alloc\<close>, \<^verbatim>\<open>buddy_free\<close> and reference
    counts on every branch; initialisation pins the reserved regions, among which the frame buffer may be
    the first; objects of the heap are distinct and fit.
  \<^item> Queues: tasks run by priority and in order; timer events fire in order, exactly those due; the run queue
    stays one ring, every runnable thread runs within one round, and a new thread is queued ready to run.
  \<^item> Input and output: bytes are sent once and in order under any interleaving with interrupts; printing
    returns; ram disk and device tree readers implement their abstract descriptions; both shells keep within
    their buffers; an image is shown pixel by pixel.
  \<^item> Address spaces: translations are refined to a map; fork, copy on write and demand paging change no byte
    any process reads; freeing a space drops exactly its references; a signal and its return are a round trip;
    \<^verbatim>\<open>mmap\<close> is first fit; refused calls change nothing.
  \<^item> Start: the bootloader relocates once and delivers the image that was sent; when \<^verbatim>\<open>main\<close> becomes the idle
    loop the threads, the timer, the traps and the interrupt routing are as intended.

  \<^bold>\<open>Bounds.\<close> The managed range has at most 2 GiB, as \<^verbatim>\<open>buddy_init\<close> enforces, so indices stay below \<open>2 ^ 22\<close>
  and addresses do not wrap around. Decimal numerals of 64-bit words have at most 20 digits, hence 40 ready
  answers of the device are enough to print one.

  \<^bold>\<open>Conventions.\<close> The kernel's command \<^verbatim>\<open>load\<close> writes to a physical address; the model writes to memory
  at that address, although the mapping has been dropped by then. C leaves the order of the calls in
  \<^verbatim>\<open>uart_getc() | uart_getc() << 8\<close> open; the model takes them from left to right. The boot information that
  \<^verbatim>\<open>buddy_init\<close> reads is collected before it is called, in particular the list of regions reserved by the
  tree; \<^verbatim>\<open>dtb_reserved_correct\<close> shows that this is the same. In \<^verbatim>\<open>Boot_Main\<close> no interrupt arrives before
  the idle loop.

  \<^bold>\<open>Not modelled.\<close> The assembly of \<^verbatim>\<open>trap_entry.S\<close> and \<^verbatim>\<open>a.S\<close> beyond the clearing of memory, as it moves registers
  between the processor and the structures the model has; \<^verbatim>\<open>switch_to\<close> is modelled as the exchange of the
  saved registers. The translation look-aside buffer, caches and their flushes, which change no memory here.
  The console output of threads, of initialisation and of the debug build, except where printing is the
  point (the serial driver, the shells and the file listings). The demonstration threads \<^verbatim>\<open>foo\<close> and
  \<^verbatim>\<open>test_threads\<close>, an argument of the shell. \<^verbatim>\<open>byte_memset\<close> and \<^verbatim>\<open>reserved_memory_callback\<close>, which nothing uses.
  The SBI call itself, an instruction. Scripts that build images and send them.
\<close>

end
